(* ===== verification/Prelude.thy ===== *)
theory Prelude
  imports Main "HOL-Library.Word" "HOL-Library.Monad_Syntax" "HOL-Library.Sublist"
    "HOL-Library.Code_Target_Numeral"
begin

text \<open>
  Shared vocabulary of the development. A \<^verbatim>\<open>std::string\<close> or \<^verbatim>\<open>std::string_view\<close> is a
  \<^typ>\<open>string\<close> (a list of 8-bit characters, one per byte), \<^verbatim>\<open>std::uint64_t\<close> and
  \<^verbatim>\<open>std::int64_t\<close> are 64-bit words, and \<^verbatim>\<open>std::size_t\<close> used as a length or an index
  is a natural number. The theory holds the members of \<^verbatim>\<open>std::string\<close> the sources call
  (\<open>find\<close>, \<open>substr\<close>), \<^verbatim>\<open>std::to_string\<close>, and the generic facts about them, together
  with the interfaces several components share: decimal codecs, invariants of step
  functions, and byte buffers with a consumed prefix.
\<close>

section \<open>Types and characters\<close>

type_synonym u64 = "64 word"
type_synonym i64 = "64 word"

abbreviation CR :: char where "CR \<equiv> CHR 0x0D"
abbreviation LF :: char where "LF \<equiv> CHR 0x0A"
abbreviation SP :: char where "SP \<equiv> CHR 0x20"
abbreviation HTAB :: char where "HTAB \<equiv> CHR 0x09"

abbreviation CRLF :: string where "CRLF \<equiv> [CR, LF]"

text \<open>\<^verbatim>\<open>static_cast<unsigned char>(c)\<close>.\<close>

abbreviation byte :: "char \<Rightarrow> nat" where
  "byte c \<equiv> of_char c"

text \<open>\<^verbatim>\<open>c >= lo && c <= hi\<close> for ASCII bounds.\<close>

definition in_range :: "char \<Rightarrow> char \<Rightarrow> char \<Rightarrow> bool" where
  "in_range lo hi c \<longleftrightarrow> byte lo \<le> byte c \<and> byte c \<le> byte hi"

text \<open>A text between single quotes, as the error messages write it.\<close>

definition quoted :: "string \<Rightarrow> string" where
  "quoted s = CHR 0x27 # s @ [CHR 0x27]"

named_theorems framing \<comment> \<open>rewrite rules about positions of separators\<close>
named_theorems decimal \<comment> \<open>rewrite rules about decimal numerals\<close>

section \<open>Searching and slicing strings\<close>

text \<open>
  \<open>find_char c s\<close> is the index of the first \<open>c\<close>, \<open>find_from c s pos\<close> is
  \<^verbatim>\<open>s.find(c, pos)\<close>; \<^const>\<open>None\<close> stands for \<^verbatim>\<open>npos\<close>.
\<close>

fun find_char :: "char \<Rightarrow> string \<Rightarrow> nat option" where
  "find_char c [] = None"
| "find_char c (x # xs) = (if x = c then Some 0 else map_option Suc (find_char c xs))"

definition find_from :: "char \<Rightarrow> string \<Rightarrow> nat \<Rightarrow> nat option" where
  "find_from c s pos = map_option (\<lambda>i. pos + i) (find_char c (drop pos s))"

text \<open>\<^verbatim>\<open>s.substr(pos, count)\<close> for a position inside the string.\<close>

definition substr :: "string \<Rightarrow> nat \<Rightarrow> nat \<Rightarrow> string" where
  "substr s pos count = take count (drop pos s)"

text \<open>\<^verbatim>\<open>s.substr(0, end)\<close> where \<open>end\<close> may be \<^verbatim>\<open>npos\<close>.\<close>

definition prefix_to :: "string \<Rightarrow> nat option \<Rightarrow> string" where
  "prefix_to s e = (case e of None \<Rightarrow> s | Some n \<Rightarrow> take n s)"

lemma find_char_None_iff [framing]: "find_char c s = None \<longleftrightarrow> c \<notin> set s"
  by (induction s) auto

lemma find_char_SomeD:
  "find_char c s = Some i \<Longrightarrow> i < length s \<and> s ! i = c \<and> c \<notin> set (take i s)"
proof (induction s arbitrary: i)
  case Nil
  then show ?case by simp
next
  case (Cons x xs)
  then show ?case
    by (cases "x = c") auto
qed

lemma find_char_split:
  assumes "find_char c s = Some i"
  shows "s = take i s @ c # drop (Suc i) s" and "c \<notin> set (take i s)" and "i < length s"
proof -
  from find_char_SomeD [OF assms] have i: "i < length s" "s ! i = c" "c \<notin> set (take i s)"
    by auto
  then show "s = take i s @ c # drop (Suc i) s"
    using id_take_nth_drop [of i s] by simp
  show "c \<notin> set (take i s)" and "i < length s" using i by auto
qed

lemma find_char_append_right [framing]:
  "c \<notin> set xs \<Longrightarrow> find_char c (xs @ ys) = map_option (\<lambda>i. length xs + i) (find_char c ys)"
  by (induction xs; cases "find_char c ys") auto

lemma find_char_append_left [framing]:
  "find_char c xs = Some i \<Longrightarrow> find_char c (xs @ ys) = Some i"
  by (induction xs arbitrary: i) (auto split: if_splits)

lemma find_char_first [framing]: "c \<notin> set xs \<Longrightarrow> find_char c (xs @ c # ys) = Some (length xs)"
  by (simp add: find_char_append_right)

lemma find_from_SomeD:
  assumes "find_from c s pos = Some i"
  shows "pos \<le> i" and "i < length s" and "s ! i = c" and "\<forall>j. pos \<le> j \<and> j < i \<longrightarrow> s ! j \<noteq> c"
proof -
  from assms obtain k where k: "find_char c (drop pos s) = Some k" "i = pos + k"
    by (auto simp: find_from_def)
  from find_char_SomeD [OF k(1)] have kk: "k < length (drop pos s)" "drop pos s ! k = c"
    "c \<notin> set (take k (drop pos s))" by auto
  show "pos \<le> i" and "i < length s" and "s ! i = c" using k kk by auto
  show "\<forall>j. pos \<le> j \<and> j < i \<longrightarrow> s ! j \<noteq> c"
  proof (intro allI impI)
    fix j assume j: "pos \<le> j \<and> j < i"
    then have "j - pos < k" using k by auto
    then have "take k (drop pos s) ! (j - pos) = s ! j" using j kk by simp
    moreover have "j - pos < length (take k (drop pos s))" using \<open>j - pos < k\<close> kk by simp
    ultimately show "s ! j \<noteq> c" using kk(3) by (metis nth_mem)
  qed
qed

lemma find_from_bounds: "find_from c s pos = Some i \<Longrightarrow> pos \<le> i \<and> i < length s \<and> s ! i = c"
  using find_from_SomeD by blast

lemma find_from_NoneD: "find_from c s pos = None \<Longrightarrow> pos \<le> j \<Longrightarrow> j < length s \<Longrightarrow> s ! j \<noteq> c"
  by (auto simp: find_from_def framing in_set_conv_nth)
     (metis add_diff_inverse_nat diff_less_mono linorder_not_less)

text \<open>The pieces of a string between separators; the reference for the splitting loops.\<close>

fun split_on :: "char \<Rightarrow> string \<Rightarrow> string list" where
  "split_on c [] = [[]]"
| "split_on c (x # xs) =
     (if x = c then [] # split_on c xs
      else (x # hd (split_on c xs)) # tl (split_on c xs))"

lemma split_on_nonempty [simp]: "split_on c s \<noteq> []"
  by (cases s) auto

lemma split_on_absent [framing]: "c \<notin> set s \<Longrightarrow> split_on c s = [s]"
  by (induction s) auto

lemma split_on_append [framing]: "c \<notin> set xs \<Longrightarrow> split_on c (xs @ c # ys) = xs # split_on c ys"
  by (induction xs) auto

lemma split_on_find:
  "split_on c s =
     (case find_char c s of None \<Rightarrow> [s] | Some k \<Rightarrow> take k s # split_on c (drop (Suc k) s))"
proof (cases "find_char c s")
  case None
  then have "c \<notin> set s" by (simp add: find_char_None_iff)
  with None show ?thesis by (simp add: split_on_absent)
next
  case (Some k)
  then have "split_on c s = take k s # split_on c (drop (Suc k) s)"
    by (metis find_char_split(1,2) split_on_append)
  with Some show ?thesis by simp
qed

section \<open>Decimal numerals\<close>

definition digit_char :: "nat \<Rightarrow> char" where
  "digit_char d = char_of (48 + d)"

definition digit_value :: "char \<Rightarrow> nat" where
  "digit_value c = byte c - 48"

text \<open>\<^verbatim>\<open>std::to_string\<close> of an unsigned and of a signed integer.\<close>

fun nat_to_string :: "nat \<Rightarrow> string" where
  "nat_to_string n =
     (if n < 10 then [digit_char n] else nat_to_string (n div 10) @ [digit_char (n mod 10)])"

declare nat_to_string.simps [simp del]

definition int_to_string :: "int \<Rightarrow> string" where
  "int_to_string i = (if i < 0 then CHR ''-'' # nat_to_string (nat (- i)) else nat_to_string (nat i))"

definition decimal_value :: "string \<Rightarrow> nat" where
  "decimal_value s = foldl (\<lambda>v c. v * 10 + digit_value c) 0 s"

abbreviation digit :: "char \<Rightarrow> bool" where
  "digit c \<equiv> in_range (CHR ''0'') (CHR ''9'') c"

lemma digit_iff: "digit c \<longleftrightarrow> 48 \<le> byte c \<and> byte c \<le> 57"
  by (simp add: in_range_def)

lemma byte_digit_char [decimal]: "d < 10 \<Longrightarrow> byte (digit_char d) = 48 + d"
  by (simp add: digit_char_def)

lemma digit_digit_char [decimal]: "d < 10 \<Longrightarrow> digit (digit_char d)"
  by (simp add: digit_iff decimal)

lemma digit_value_digit_char [decimal]: "d < 10 \<Longrightarrow> digit_value (digit_char d) = d"
  by (simp add: digit_value_def decimal)

lemma digit_value_less: "digit c \<Longrightarrow> digit_value c < 10"
  by (auto simp: digit_iff digit_value_def)

lemma decimal_value_Nil [decimal]: "decimal_value [] = 0"
  by (simp add: decimal_value_def)

lemma decimal_value_snoc [decimal]: "decimal_value (s @ [c]) = decimal_value s * 10 + digit_value c"
  by (simp add: decimal_value_def)

lemma nat_to_string_nonempty [simp]: "nat_to_string n \<noteq> []"
  by (subst nat_to_string.simps) simp

lemma nat_to_string_digits: "c \<in> set (nat_to_string n) \<Longrightarrow> digit c"
proof (induction n rule: nat_to_string.induct)
  case (1 n)
  then show ?case
    by (cases "n < 10") (auto simp: nat_to_string.simps [of n] decimal)
qed

lemma decimal_value_nat_to_string [decimal]: "decimal_value (nat_to_string n) = n"
proof (induction n rule: nat_to_string.induct)
  case (1 n)
  show ?case
  proof (cases "n < 10")
    case True
    then show ?thesis
      using decimal_value_snoc [of "[]" "digit_char n"]
      by (simp add: nat_to_string.simps [of n] decimal)
  next
    case False
    with 1 have "decimal_value (nat_to_string (n div 10)) = n div 10" by simp
    then show ?thesis
      using False by (simp add: nat_to_string.simps [of n] decimal)
  qed
qed

lemma decimal_value_ge: "decimal_value xs \<le> decimal_value (xs @ ys)"
proof (induction ys rule: rev_induct)
  case Nil
  then show ?case by simp
next
  case (snoc y ys)
  then show ?case
    using decimal_value_snoc [of "xs @ ys" y] by simp
qed

section \<open>Interfaces\<close>

text \<open>
  A printer and a partial reader of the same values: reading back what was printed
  succeeds with the printed value. Printing is then injective, and every printed text is
  in the reader's domain.
\<close>

locale codec =
  fixes print_value :: "'a \<Rightarrow> string"
    and read_value :: "string \<Rightarrow> 'a option"
  assumes read_print: "read_value (print_value x) = Some x"
begin

lemma print_inj: "print_value x = print_value y \<longleftrightarrow> x = y"
  by (metis option.inject read_print)

lemma print_readable: "print_value x \<in> dom read_value"
  by (simp add: domIff read_print)

end

end
