(* ===== verification/Text.thy ===== *)
theory Text
  imports Prelude
begin

text \<open>
  Model of \<^verbatim>\<open>src/src/text.cpp\<close>: ASCII case-insensitive comparison, trimming of optional
  whitespace, and the excerpt that makes client-supplied text safe to quote. Shown here:
  comparison is an equivalence that ignores only the case of ASCII letters, trimming
  removes exactly the surrounding blanks, and an excerpt is printable and of bounded size.
\<close>

section \<open>Definitions\<close>

definition to_lower_ascii :: "char \<Rightarrow> char" where
  "to_lower_ascii c =
     (if in_range (CHR ''A'') (CHR ''Z'') c
      then char_of (byte c - byte (CHR ''A'') + byte (CHR ''a'')) else c)"

definition iequals :: "string \<Rightarrow> string \<Rightarrow> bool" where
  "iequals a b \<longleftrightarrow>
     (if length a \<noteq> length b then False
      else list_all (\<lambda>i. to_lower_ascii (a ! i) = to_lower_ascii (b ! i)) [0..<length a])"

definition is_blank :: "char \<Rightarrow> bool" where
  "is_blank c \<longleftrightarrow> c = SP \<or> c = HTAB"

fun trim_front :: "string \<Rightarrow> string" where
  "trim_front [] = []"
| "trim_front (c # cs) = (if is_blank c then trim_front cs else c # cs)"

function trim_back :: "string \<Rightarrow> string" where
  "trim_back s = (if s \<noteq> [] \<and> is_blank (last s) then trim_back (butlast s) else s)"
  by pat_completeness auto
termination
  by (relation "measure length") auto

declare trim_back.simps [simp del]

definition trim_whitespace :: "string \<Rightarrow> string" where
  "trim_whitespace s = trim_back (trim_front s)"

definition printable :: "char \<Rightarrow> bool" where
  "printable c \<longleftrightarrow> 0x20 \<le> byte c \<and> byte c < 0x7F"

definition excerpt_n :: "string \<Rightarrow> nat \<Rightarrow> string" where
  "excerpt_n text max_length =
     map (\<lambda>c. if printable c then c else CHR ''?'') (take max_length text) @
     (if max_length < length text then ''...'' else [])"

text \<open>The default argument \<^verbatim>\<open>max_length = 40\<close>.\<close>

definition excerpt :: "string \<Rightarrow> string" where
  "excerpt text = excerpt_n text 40"

section \<open>Comparison\<close>

lemma iequals_iff_map: "iequals a b \<longleftrightarrow> map to_lower_ascii a = map to_lower_ascii b"
proof -
  have "map to_lower_ascii a = map to_lower_ascii b \<longleftrightarrow>
      list_all2 (\<lambda>x y. to_lower_ascii x = to_lower_ascii y) a b"
    by (simp add: list_all2_eq list_all2_map1 list_all2_map2)
  also have "\<dots> \<longleftrightarrow> iequals a b"
    unfolding iequals_def list_all2_conv_all_nth list_all_iff by auto
  finally show ?thesis ..
qed

lemma iequals_refl [simp]: "iequals a a"
  by (simp add: iequals_iff_map)

lemma iequals_sym: "iequals a b \<longleftrightarrow> iequals b a"
  by (auto simp: iequals_iff_map)

lemma iequals_trans: "iequals a b \<Longrightarrow> iequals b c \<Longrightarrow> iequals a c"
  by (simp add: iequals_iff_map)

lemma to_lower_ascii_id: "\<not> in_range (CHR ''A'') (CHR ''Z'') c \<Longrightarrow> to_lower_ascii c = c"
  by (simp add: to_lower_ascii_def)

section \<open>Trimming\<close>

lemma trim_front_dropWhile: "trim_front s = dropWhile is_blank s"
  by (induction s) auto

lemma trim_back_dropWhile: "trim_back s = rev (dropWhile is_blank (rev s))"
proof (induction s rule: trim_back.induct)
  case (1 s)
  show ?case
  proof (cases "s \<noteq> [] \<and> is_blank (last s)")
    case True
    then obtain t c where s: "s = t @ [c]" by (metis rev_exhaust)
    with True 1 show ?thesis by (simp add: trim_back.simps [of "t @ [c]"])
  next
    case False
    then have "trim_back s = s" by (subst trim_back.simps) auto
    with False show ?thesis by (cases s rule: rev_cases) auto
  qed
qed

lemma trim_whitespace_split:
  obtains pre post where "s = pre @ trim_whitespace s @ post"
    and "list_all is_blank pre" and "list_all is_blank post"
proof
  let ?m = "dropWhile is_blank s"
  show "s = takeWhile is_blank s @ trim_whitespace s @ rev (takeWhile is_blank (rev ?m))"
    by (simp add: trim_whitespace_def trim_front_dropWhile trim_back_dropWhile
        flip: rev_append)
  show "list_all is_blank (takeWhile is_blank s)"
    and "list_all is_blank (rev (takeWhile is_blank (rev ?m)))"
    by (auto simp: list_all_iff dest: set_takeWhileD)
qed

lemma trim_whitespace_ends:
  assumes "trim_whitespace s \<noteq> []"
  shows "\<not> is_blank (hd (trim_whitespace s))" and "\<not> is_blank (last (trim_whitespace s))"
proof -
  let ?m = "dropWhile is_blank s"
  have eq: "trim_whitespace s = rev (dropWhile is_blank (rev ?m))"
    by (simp add: trim_whitespace_def trim_front_dropWhile trim_back_dropWhile)
  with assms have ne: "dropWhile is_blank (rev ?m) \<noteq> []" by simp
  show "\<not> is_blank (last (trim_whitespace s))"
    using hd_dropWhile [OF ne] by (simp add: eq last_rev)
  have "?m = trim_whitespace s @ rev (takeWhile is_blank (rev ?m))"
    by (simp add: eq flip: rev_append)
  then have "hd (trim_whitespace s) = hd ?m" and "?m \<noteq> []"
    using assms by (metis hd_append2, metis Nil_is_append_conv)
  then show "\<not> is_blank (hd (trim_whitespace s))"
    using hd_dropWhile by metis
qed

lemma trim_whitespace_id:
  assumes "s \<noteq> []" and "\<not> is_blank (hd s)" and "\<not> is_blank (last s)"
  shows "trim_whitespace s = s"
proof -
  from assms have "trim_front s = s" by (cases s) auto
  moreover from assms have "trim_back s = s" by (subst trim_back.simps) auto
  ultimately show ?thesis by (simp add: trim_whitespace_def)
qed

lemma trim_whitespace_Nil [simp]: "trim_whitespace [] = []"
  by (simp add: trim_whitespace_def trim_back.simps)

lemma trim_whitespace_leading_blank [simp]:
  "is_blank c \<Longrightarrow> trim_whitespace (c # s) = trim_whitespace s"
  by (simp add: trim_whitespace_def)

lemma set_trim_whitespace: "set (trim_whitespace s) \<subseteq> set s"
  using trim_whitespace_split [of s] by (metis Un_iff set_append subsetI)

section \<open>Excerpts\<close>

lemma excerpt_n_printable: "list_all printable (excerpt_n s n)"
  by (auto simp: excerpt_n_def list_all_iff printable_def)

lemma excerpt_n_length: "length (excerpt_n s n) \<le> n + 3"
  by (auto simp: excerpt_n_def)

lemma excerpt_printable [simp]: "list_all printable (excerpt s)"
  by (simp add: excerpt_def excerpt_n_printable)

lemma excerpt_length: "length (excerpt s) \<le> 43"
  using excerpt_n_length [of s 40] by (simp add: excerpt_def)

lemma excerpt_n_id: "list_all printable s \<Longrightarrow> length s \<le> n \<Longrightarrow> excerpt_n s n = s"
  by (auto simp: excerpt_n_def list_all_iff map_idI)

end
