(* ===== verification/Request.thy ===== *)
theory Request
  imports Text
begin

text \<open>
  Model of \<^verbatim>\<open>src/include/calc/request.hpp\<close> and \<^verbatim>\<open>src/src/request.cpp\<close>: a framed request,
  header lookup, the split of the target into path and query, and the keep-alive rule.
  Stream positions are 64-bit words, as in the source. Shown here: the keep-alive loop
  decides exactly the persistence rule over the comma-separated connection options.
\<close>

section \<open>Definitions\<close>

datatype HttpVersion = Http10 | Http11

record Header =
  hdr_name :: string
  hdr_value :: string

record Request =
  req_method :: string
  req_target :: string
  req_version :: HttpVersion
  req_headers :: "Header list"
  req_body :: string
  req_stream_begin :: u64
  req_stream_end :: u64
  req_head_bytes :: nat

text \<open>A default-constructed request.\<close>

definition new_request :: Request where
  "new_request =
     \<lparr>req_method = [], req_target = [], req_version = Http11, req_headers = [], req_body = [],
      req_stream_begin = 0, req_stream_end = 0, req_head_bytes = 0\<rparr>"

text \<open>\<^const>\<open>None\<close> is the null pointer.\<close>

fun find_header :: "Header list \<Rightarrow> string \<Rightarrow> string option" where
  "find_header [] name = None"
| "find_header (h # hs) name =
     (if iequals (hdr_name h) name then Some (hdr_value h) else find_header hs name)"

definition header :: "Request \<Rightarrow> string \<Rightarrow> string option" where
  "header r name = find_header (req_headers r) name"

definition header_count :: "Request \<Rightarrow> string \<Rightarrow> nat" where
  "header_count r name =
     foldl (\<lambda>count h. if iequals (hdr_name h) name then count + 1 else count) 0 (req_headers r)"

definition path :: "Request \<Rightarrow> string" where
  "path r = prefix_to (req_target r) (find_char (CHR ''?'') (req_target r))"

definition query :: "Request \<Rightarrow> string" where
  "query r =
     (case find_char (CHR ''?'') (req_target r) of
        None \<Rightarrow> []
      | Some mark \<Rightarrow> drop (mark + 1) (req_target r))"

text \<open>The loop over one \<^verbatim>\<open>Connection\<close> value, on the flags (close, keep_alive).\<close>

function scan_options :: "string \<Rightarrow> bool \<times> bool \<Rightarrow> bool \<times> bool" where
  "scan_options options (close, keep_alive) =
     (if options = [] then (close, keep_alive)
      else
        let comma = find_char (CHR '','') options;
            opt = trim_whitespace (prefix_to options comma);
            close' = (close \<or> iequals opt ''close'');
            keep_alive' = (keep_alive \<or> iequals opt ''keep-alive'')
        in scan_options (case comma of None \<Rightarrow> [] | Some k \<Rightarrow> drop (k + 1) options)
             (close', keep_alive'))"
  by pat_completeness auto
termination
  by (relation "measure (\<lambda>(options, flags). length options)")
     (auto split: option.splits dest: find_char_SomeD)

declare scan_options.simps [simp del]

definition wants_keep_alive :: "Request \<Rightarrow> bool" where
  "wants_keep_alive r =
     (case foldl (\<lambda>flags h. if \<not> iequals (hdr_name h) ''Connection'' then flags
                            else scan_options (hdr_value h) flags)
             (False, False) (req_headers r) of
        (close, keep_alive) \<Rightarrow> if close then False else req_version r = Http11 \<or> keep_alive)"

section \<open>Header lookup\<close>

lemma header_count_filter:
  "header_count r name = length (filter (\<lambda>h. iequals (hdr_name h) name) (req_headers r))"
proof -
  have "foldl (\<lambda>count h. if iequals (hdr_name h) name then count + 1 else count) n hs =
      n + length (filter (\<lambda>h. iequals (hdr_name h) name) hs)" for n and hs :: "Header list"
    by (induction hs arbitrary: n) auto
  then show ?thesis by (simp add: header_count_def)
qed

lemma find_header_None_iff:
  "find_header hs name = None \<longleftrightarrow> (\<forall>h \<in> set hs. \<not> iequals (hdr_name h) name)"
  by (induction hs) auto

lemma header_None_iff: "header r name = None \<longleftrightarrow> header_count r name = 0"
  by (simp add: header_def header_count_filter find_header_None_iff filter_empty_conv)

section \<open>Path and query\<close>

lemma path_query_split:
  "CHR ''?'' \<in> set (req_target r) \<Longrightarrow> req_target r = path r @ CHR ''?'' # query r"
  by (cases "find_char (CHR ''?'') (req_target r)")
     (auto simp: path_def query_def prefix_to_def framing dest: find_char_split(1))

lemma path_query_render:
  assumes "CHR ''?'' \<notin> set p"
  shows "path (r\<lparr>req_target := p @ CHR ''?'' # q\<rparr>) = p"
    and "query (r\<lparr>req_target := p @ CHR ''?'' # q\<rparr>) = q"
  using assms by (simp_all add: path_def query_def prefix_to_def framing)

section \<open>Keep-alive\<close>

text \<open>The options of one \<^verbatim>\<open>Connection\<close> value, and of all of them.\<close>

definition value_options :: "string \<Rightarrow> string list" where
  "value_options v = map trim_whitespace (split_on (CHR '','') v)"

definition connection_options :: "Request \<Rightarrow> string list" where
  "connection_options r =
     concat (map (\<lambda>h. value_options (hdr_value h))
       (filter (\<lambda>h. iequals (hdr_name h) ''Connection'') (req_headers r)))"

definition has_option :: "string list \<Rightarrow> string \<Rightarrow> bool" where
  "has_option opts name \<longleftrightarrow> (\<exists>opt \<in> set opts. iequals opt name)"

lemma has_option_simps [simp]:
  "\<not> has_option [] name"
  "has_option (x # xs) name \<longleftrightarrow> iequals x name \<or> has_option xs name"
  "has_option (xs @ ys) name \<longleftrightarrow> has_option xs name \<or> has_option ys name"
  by (auto simp: has_option_def)

lemma scan_options_eq:
  "scan_options v (close, keep_alive) =
     (close \<or> has_option (value_options v) ''close'',
      keep_alive \<or> has_option (value_options v) ''keep-alive'')"
proof (induction v "(close, keep_alive)" arbitrary: close keep_alive rule: scan_options.induct)
  case (1 v close keep_alive)
  show ?case
  proof (cases "v = []")
    case True
    then show ?thesis
      by (simp add: scan_options.simps value_options_def iequals_def)
  next
    case False
    then show ?thesis
    proof (cases "find_char (CHR '','') v")
      case None
      with False show ?thesis
        by (simp add: scan_options.simps [of v] scan_options.simps [of "[]"] value_options_def
            split_on_find [of _ v] prefix_to_def Let_def)
    next
      case (Some k)
      with False "1.hyps" [OF False refl refl refl refl] show ?thesis
        by (simp add: scan_options.simps [of v] value_options_def split_on_find [of _ v]
            prefix_to_def disj_assoc Let_def)
    qed
  qed
qed

lemma keep_alive_flags:
  "foldl (\<lambda>flags h. if \<not> iequals (hdr_name h) ''Connection'' then flags
                    else scan_options (hdr_value h) flags) (close, keep_alive) hs =
     (close \<or> has_option (connection_options (r\<lparr>req_headers := hs\<rparr>)) ''close'',
      keep_alive \<or> has_option (connection_options (r\<lparr>req_headers := hs\<rparr>)) ''keep-alive'')"
proof (induction hs arbitrary: close keep_alive)
  case Nil
  then show ?case by (simp add: connection_options_def)
next
  case (Cons h hs)
  show ?case
    by (simp add: scan_options_eq Cons.IH) (simp add: connection_options_def disj_assoc)
qed

text \<open>
  C28. The keep-alive decision is the persistence rule: over all comma-separated options of
  all \<^verbatim>\<open>Connection\<close> headers, compared without case and trimmed, a \<^verbatim>\<open>close\<close> option wins;
  otherwise an HTTP/1.1 request keeps the connection and an HTTP/1.0 request keeps it only
  with a \<^verbatim>\<open>keep-alive\<close> option.
\<close>

theorem wants_keep_alive_rule:
  "wants_keep_alive r =
     (if has_option (connection_options r) ''close'' then False
      else case req_version r of
             Http11 \<Rightarrow> True
           | Http10 \<Rightarrow> has_option (connection_options r) ''keep-alive'')"
  using keep_alive_flags [of False False "req_headers r" r]
  by (cases "req_version r") (simp_all add: wants_keep_alive_def)

end
