(* ===== verification/Config.thy ===== *)
theory Config
  imports Prelude
begin

text \<open>
  Model of \<^verbatim>\<open>src/include/calc/config.hpp\<close>: the limits on what one client can make the
  server buffer, and the server's configuration with its default values. Time spans are
  integers in milliseconds, as in the source.
\<close>

record Limits =
  max_header_bytes :: nat
  max_header_count :: nat
  max_body_bytes :: nat

definition default_limits :: Limits where
  "default_limits =
     \<lparr>max_header_bytes = 8 * 1024, max_header_count = 100, max_body_bytes = 64 * 1024\<rparr>"

definition max_request_bytes :: "Limits \<Rightarrow> nat" where
  "max_request_bytes l = max_header_bytes l + max_body_bytes l"

datatype LogLevel = Notice | Info | Debug

text \<open>The levels are compared by their position, as scoped enumerators are.\<close>

instantiation LogLevel :: linorder
begin

fun level_index :: "LogLevel \<Rightarrow> nat" where
  "level_index Notice = 0"
| "level_index Info = 1"
| "level_index Debug = 2"

definition less_eq_LogLevel :: "LogLevel \<Rightarrow> LogLevel \<Rightarrow> bool" where
  "less_eq_LogLevel a b \<longleftrightarrow> level_index a \<le> level_index b"

definition less_LogLevel :: "LogLevel \<Rightarrow> LogLevel \<Rightarrow> bool" where
  "less_LogLevel a b \<longleftrightarrow> level_index a < level_index b"

lemma level_index_inject: "level_index a = level_index b \<Longrightarrow> a = b"
  by (cases a; cases b) simp_all

instance
  by standard (auto simp: less_eq_LogLevel_def less_LogLevel_def intro: level_index_inject)

end

record ServerConfig =
  cfg_host :: string
  cfg_port :: "16 word"
  idle_timeout :: int
  linger_timeout :: int
  max_linger_bytes :: nat
  max_connections :: nat
  output_high_water :: nat
  cfg_limits :: Limits
  cfg_log_level :: LogLevel

definition default_config :: ServerConfig where
  "default_config =
     \<lparr>cfg_host = ''127.0.0.1'', cfg_port = 8080, idle_timeout = 30000, linger_timeout = 2000,
      max_linger_bytes = 256 * 1024, max_connections = 64, output_high_water = 64 * 1024,
      cfg_limits = default_limits, cfg_log_level = Info\<rparr>"

end
