(* ===== verification/Request_Syntax.thy ===== *)
theory Request_Syntax
  imports Request Config
begin

text \<open>
  Model of the line parsers in the anonymous namespace of \<^verbatim>\<open>src/src/request_parser.cpp\<close>:
  tokens, the request line, header lines, and the body length that frames a request. A
  \<^verbatim>\<open>std::optional<ParseError>\<close> together with the output parameter is a sum: \<open>Inl\<close> the
  error, \<open>Inr\<close> the updated output. The accumulator for \<^verbatim>\<open>Content-Length\<close> is a 64-bit word,
  as the overflow guard of the loop is what matters there.
\<close>

section \<open>Definitions\<close>

record ParseError =
  pe_status :: int
  pe_message :: string

definition parse_error :: "int \<Rightarrow> string \<Rightarrow> ParseError" where
  "parse_error status message = \<lparr>pe_status = status, pe_message = message\<rparr>"

definition is_token_char :: "char \<Rightarrow> bool" where
  "is_token_char c \<longleftrightarrow>
     (if in_range (CHR ''a'') (CHR ''z'') c \<or> in_range (CHR ''A'') (CHR ''Z'') c \<or>
         in_range (CHR ''0'') (CHR ''9'') c then True
      else c \<in> {CHR ''!'', CHR ''#'', CHR ''$'', CHR ''%'', CHR ''&'', CHR 0x27, CHR ''*'',
                CHR ''+'', CHR ''-'', CHR ''.'', CHR ''^'', CHR ''_'', CHR 0x60, CHR ''|'',
                CHR ''~''})"

definition is_token :: "string \<Rightarrow> bool" where
  "is_token s \<longleftrightarrow> s \<noteq> [] \<and> list_all is_token_char s"

definition is_digit :: "char \<Rightarrow> bool" where
  "is_digit c \<longleftrightarrow> in_range (CHR ''0'') (CHR ''9'') c"

definition target_char :: "char \<Rightarrow> bool" where
  "target_char c \<longleftrightarrow> \<not> (byte c \<le> 0x20 \<or> byte c \<ge> 0x7F)"

definition malformed_line_message :: "string \<Rightarrow> string" where
  "malformed_line_message line =
     ''malformed request line '' @ quoted (excerpt line) @ '': expected exactly '' @
     quoted ''METHOD /target HTTP/1.1''"

definition invalid_method_message :: "string \<Rightarrow> string" where
  "invalid_method_message m =
     ''malformed request line: invalid method '' @ quoted (excerpt m)"

definition invalid_target_message :: "string \<Rightarrow> string" where
  "invalid_target_message t =
     ''malformed request line: target must start with '' @ quoted ''/'' @ '', got '' @
     quoted (excerpt t)"

definition target_character_message :: string where
  "target_character_message = ''malformed request line: invalid character in request target''"

definition invalid_version_message :: "string \<Rightarrow> string" where
  "invalid_version_message v =
     ''malformed request line: invalid HTTP version '' @ quoted (excerpt v)"

definition unsupported_version_message :: "string \<Rightarrow> string" where
  "unsupported_version_message v =
     ''HTTP version '' @ v @ '' is not supported; use HTTP/1.1 (or HTTP/1.0)''"

text \<open>The checks on the three parts, once the separators are found.\<close>

definition parse_request_parts ::
  "string \<Rightarrow> string \<Rightarrow> string \<Rightarrow> Request \<Rightarrow> ParseError + Request"
where
  "parse_request_parts meth target version request =
     (if \<not> is_token meth then Inl (parse_error 400 (invalid_method_message meth))
      else if target = [] \<or> hd target \<noteq> CHR ''/''
      then Inl (parse_error 400 (invalid_target_message target))
      else if \<not> list_all target_char target
      then Inl (parse_error 400 target_character_message)
      else if length version \<noteq> 8 \<or> take 5 version \<noteq> ''HTTP/'' \<or> \<not> is_digit (version ! 5) \<or>
              version ! 6 \<noteq> CHR ''.'' \<or> \<not> is_digit (version ! 7)
      then Inl (parse_error 400 (invalid_version_message version))
      else if version ! 5 \<noteq> CHR ''1''
      then Inl (parse_error 505 (unsupported_version_message version))
      else Inr (request\<lparr>
             req_version := (if version ! 7 = CHR ''0'' then Http10 else Http11),
             req_method := meth,
             req_target := target\<rparr>))"

definition parse_request_line :: "string \<Rightarrow> Request \<Rightarrow> ParseError + Request" where
  "parse_request_line line request =
     (let first_space = find_char SP line;
          second_space = (case first_space of None \<Rightarrow> None | Some f \<Rightarrow> find_from SP line (f + 1))
      in case (first_space, second_space) of
           (Some f, Some s) \<Rightarrow>
             if find_from SP line (s + 1) \<noteq> None
             then Inl (parse_error 400 (malformed_line_message line))
             else parse_request_parts (substr line 0 f) (substr line (f + 1) (s - f - 1))
                    (drop (s + 1) line) request
         | _ \<Rightarrow> Inl (parse_error 400 (malformed_line_message line)))"

definition folding_message :: string where
  "folding_message = ''obsolete header line folding is not supported''"

definition missing_colon_message :: "string \<Rightarrow> string" where
  "missing_colon_message line =
     ''malformed header line '' @ quoted (excerpt line) @ '': missing '' @ quoted '':''"

definition invalid_name_message :: "string \<Rightarrow> string" where
  "invalid_name_message name =
     ''malformed header line: invalid header name '' @ quoted (excerpt name)"

definition control_character_message :: "string \<Rightarrow> string" where
  "control_character_message name =
     ''malformed header line: control character in value of '' @ quoted (excerpt name)"

definition value_char :: "char \<Rightarrow> bool" where
  "value_char c \<longleftrightarrow> \<not> (byte c < 0x20 \<and> c \<noteq> HTAB \<or> byte c = 0x7F)"

text \<open>Called on non-empty lines only, so that \<^verbatim>\<open>line.front()\<close> is defined.\<close>

definition parse_header_line :: "string \<Rightarrow> Header list \<Rightarrow> ParseError + Header list" where
  "parse_header_line line headers =
     (if hd line = SP \<or> hd line = HTAB then Inl (parse_error 400 folding_message)
      else case find_char (CHR '':'') line of
        None \<Rightarrow> Inl (parse_error 400 (missing_colon_message line))
      | Some colon \<Rightarrow>
          let name = take colon line in
          if \<not> is_token name then Inl (parse_error 400 (invalid_name_message name))
          else let v = trim_whitespace (drop (colon + 1) line) in
            if \<not> list_all value_char v then Inl (parse_error 400 (control_character_message name))
            else Inr (headers @ [\<lparr>hdr_name = name, hdr_value = v\<rparr>]))"

section \<open>Body length\<close>

text \<open>The scan over the headers: how many lengths, the last one's text, and the encoding flag.\<close>

definition scan_length_headers :: "Header list \<Rightarrow> nat \<times> string \<times> bool" where
  "scan_length_headers headers =
     foldl (\<lambda>(n, txt, te) h.
         if iequals (hdr_name h) ''Content-Length'' then (n + 1, hdr_value h, te)
         else if iequals (hdr_name h) ''Transfer-Encoding'' then (n, txt, True)
         else (n, txt, te))
       (0, [], False) headers"

text \<open>The digit loop; \<^const>\<open>None\<close> is the early return on a character that is not a digit.\<close>

fun accumulate_length :: "nat \<Rightarrow> string \<Rightarrow> u64 \<times> bool \<Rightarrow> (u64 \<times> bool) option" where
  "accumulate_length limit [] acc = Some acc"
| "accumulate_length limit (c # cs) (v, too_large) =
     (if \<not> is_digit c then None
      else if too_large then accumulate_length limit cs (v, too_large)
      else let v' = v * 10 + of_nat (digit_value c)
           in accumulate_length limit cs (v', limit < unat v'))"

definition ambiguous_framing_message :: string where
  "ambiguous_framing_message =
     ''both Transfer-Encoding and Content-Length present: ambiguous message framing''"

definition transfer_encoding_message :: string where
  "transfer_encoding_message =
     ''Transfer-Encoding is not supported; send the body with Content-Length''"

definition multiple_length_message :: string where
  "multiple_length_message = ''multiple Content-Length headers: ambiguous message framing''"

definition empty_length_message :: string where
  "empty_length_message = ''empty Content-Length''"

definition invalid_length_message :: "string \<Rightarrow> string" where
  "invalid_length_message txt =
     ''invalid Content-Length '' @ quoted (excerpt txt) @ '': must be a non-negative decimal integer''"

definition body_limit_message :: "nat \<Rightarrow> string" where
  "body_limit_message limit =
     ''Content-Length exceeds the '' @ nat_to_string limit @ ''-byte body limit''"

definition determine_body_length :: "Header list \<Rightarrow> nat \<Rightarrow> ParseError + nat" where
  "determine_body_length headers limit =
     (case scan_length_headers headers of (length_headers, length_text, has_te) \<Rightarrow>
        if has_te \<and> length_headers > 0 then Inl (parse_error 400 ambiguous_framing_message)
        else if has_te then Inl (parse_error 501 transfer_encoding_message)
        else if length_headers > 1 then Inl (parse_error 400 multiple_length_message)
        else if length_headers = 0 then Inr 0
        else if length_text = [] then Inl (parse_error 400 empty_length_message)
        else case accumulate_length limit length_text (0, False) of
          None \<Rightarrow> Inl (parse_error 400 (invalid_length_message length_text))
        | Some (v, too_large) \<Rightarrow>
            if too_large then Inl (parse_error 413 (body_limit_message limit))
            else Inr (unat v))"

section \<open>The length loop does not wrap\<close>

text \<open>The limits for which the accumulator stays within 64 bits.\<close>

definition length_limit_ok :: "nat \<Rightarrow> bool" where
  "length_limit_ok limit \<longleftrightarrow> limit * 10 + 9 < 2 ^ 64"

lemma unat_length_step:
  assumes "length_limit_ok limit" and "unat v \<le> limit" and "digit c"
  shows "unat (v * 10 + of_nat (digit_value c) :: u64) = unat v * 10 + digit_value c"
proof -
  have "unat v * 10 + digit_value c < 2 ^ 64"
    using assms digit_value_less [OF assms(3)] by (simp add: length_limit_ok_def)
  moreover have "v * 10 + of_nat (digit_value c) = (of_nat (unat v * 10 + digit_value c) :: u64)"
    by simp
  ultimately show ?thesis
    by (simp only: unat_of_nat) simp
qed

text \<open>What the loop's result means: absent, over the limit, or a length.\<close>

definition length_outcome :: "(u64 \<times> bool) option \<Rightarrow> nat option option" where
  "length_outcome = map_option (\<lambda>(v, too_large). if too_large then None else Some (unat v))"

lemma accumulate_length_eq:
  assumes "length_limit_ok limit"
  shows "(if too_large then limit < decimal_value pre
          else unat v = decimal_value pre \<and> unat v \<le> limit) \<Longrightarrow>
    length_outcome (accumulate_length limit s (v, too_large)) =
      (if list_all digit s then
         Some (if limit < decimal_value (pre @ s) then None else Some (decimal_value (pre @ s)))
       else None)"
proof (induction s arbitrary: pre v too_large)
  case Nil
  then show ?case by (auto simp: length_outcome_def)
next
  case (Cons c s)
  note IH = Cons.IH [of _ "pre @ [c]"]
  show ?case
  proof (cases "digit c")
    case False
    then show ?thesis by (simp add: is_digit_def length_outcome_def)
  next
    case True
    show ?thesis
    proof (cases too_large)
      case True
      with Cons.prems have "limit < decimal_value (pre @ [c])"
        using decimal_value_ge [of pre "[c]"] by simp
      with True IH [of True v] \<open>digit c\<close> show ?thesis by (simp add: is_digit_def)
    next
      case False
      with Cons.prems have v: "unat v = decimal_value pre" "unat v \<le> limit" by auto
      let ?w = "v * 10 + of_nat (digit_value c) :: u64"
      have w: "unat ?w = decimal_value (pre @ [c])"
        using unat_length_step [OF assms v(2) True] v(1) by (simp add: decimal)
      show ?thesis
        using IH [of "limit < unat ?w" ?w] w False True
        by (simp add: is_digit_def Let_def)
    qed
  qed
qed

lemma accumulate_length_cases:
  assumes "length_limit_ok limit"
  shows "(case accumulate_length limit s (0, False) of
            None \<Rightarrow> bad
          | Some (v, too_large) \<Rightarrow> if too_large then over else Inr (unat v)) =
         (if \<not> list_all digit s then bad
          else if limit < decimal_value s then over
          else Inr (decimal_value s))"
  using accumulate_length_eq [OF assms, of False "[]" 0 s]
  by (cases "accumulate_length limit s (0, False)")
     (auto simp: length_outcome_def decimal split: if_splits)

text \<open>
  The values of the \<^verbatim>\<open>Content-Length\<close> headers, and whether a \<^verbatim>\<open>Transfer-Encoding\<close> header
  is present.
\<close>

definition content_lengths :: "Header list \<Rightarrow> string list" where
  "content_lengths hs = map hdr_value (filter (\<lambda>h. iequals (hdr_name h) ''Content-Length'') hs)"

definition has_transfer_encoding :: "Header list \<Rightarrow> bool" where
  "has_transfer_encoding hs \<longleftrightarrow> list_ex (\<lambda>h. iequals (hdr_name h) ''Transfer-Encoding'') hs"

lemma length_name_not_te: "iequals n ''Content-Length'' \<Longrightarrow> \<not> iequals n ''Transfer-Encoding''"
  by (auto simp: iequals_def)

lemma scan_length_headers_eq:
  "scan_length_headers hs =
     (length (content_lengths hs), if content_lengths hs = [] then [] else last (content_lengths hs),
      has_transfer_encoding hs)"
proof (induction hs rule: rev_induct)
  case Nil
  then show ?case
    by (simp add: scan_length_headers_def content_lengths_def has_transfer_encoding_def)
next
  case (snoc h hs)
  then show ?case
    using length_name_not_te [of "hdr_name h"]
    by (auto simp: scan_length_headers_def content_lengths_def has_transfer_encoding_def)
qed

lemma determine_body_length_cases:
  assumes "length_limit_ok limit"
  shows "determine_body_length hs limit =
     (if has_transfer_encoding hs then
        if content_lengths hs = [] then Inl (parse_error 501 transfer_encoding_message)
        else Inl (parse_error 400 ambiguous_framing_message)
      else case content_lengths hs of
        [] \<Rightarrow> Inr 0
      | [txt] \<Rightarrow>
          if txt = [] then Inl (parse_error 400 empty_length_message)
          else if \<not> list_all digit txt then Inl (parse_error 400 (invalid_length_message txt))
          else if limit < decimal_value txt then Inl (parse_error 413 (body_limit_message limit))
          else Inr (decimal_value txt)
      | _ \<Rightarrow> Inl (parse_error 400 multiple_length_message))"
proof -
  consider "content_lengths hs = []" | txt1 where "content_lengths hs = [txt1]"
    | txt1 txt2 rest where "content_lengths hs = txt1 # txt2 # rest"
    by (metis list.exhaust)
  then show ?thesis
    unfolding determine_body_length_def scan_length_headers_eq
    by cases (simp_all add: accumulate_length_cases [OF assms])
qed

text \<open>
  C31. The framing decision: a request without \<^verbatim>\<open>Content-Length\<close> and \<^verbatim>\<open>Transfer-Encoding\<close>
  has no body; with exactly one \<^verbatim>\<open>Content-Length\<close> that is a non-empty digit string the body
  has exactly its decimal value, whatever the number of digits, or the answer is 413 when it
  exceeds the limit; a \<^verbatim>\<open>Transfer-Encoding\<close>, a second length, or any other text is rejected.
  The 64-bit accumulator never wraps for limits up to a tenth of the word range.
\<close>

theorem determine_body_length_spec:
  assumes "length_limit_ok limit"
  shows "determine_body_length hs limit =
     (if has_transfer_encoding hs then
        if content_lengths hs = [] then Inl (parse_error 501 transfer_encoding_message)
        else Inl (parse_error 400 ambiguous_framing_message)
      else case content_lengths hs of
        [] \<Rightarrow> Inr 0
      | [txt] \<Rightarrow>
          if txt = [] then Inl (parse_error 400 empty_length_message)
          else if \<not> list_all digit txt then Inl (parse_error 400 (invalid_length_message txt))
          else if limit < decimal_value txt then Inl (parse_error 413 (body_limit_message limit))
          else Inr (decimal_value txt)
      | _ \<Rightarrow> Inl (parse_error 400 multiple_length_message))"
  using assms by (rule determine_body_length_cases)

theorem determine_body_length_spec_witness:
  "determine_body_length
     [\<lparr>hdr_name = ''CONTENT-length'', hdr_value = ''00000000000000000000000000000000000042''\<rparr>] 65536 =
   Inr 42"
proof -
  have "length_limit_ok 65536" by code_simp
  note spec = determine_body_length_spec [OF this]
  show ?thesis unfolding spec by code_simp
qed

section \<open>The accepted lines\<close>

lemma token_char_facts:
  "is_token_char c \<Longrightarrow> c \<noteq> SP \<and> c \<noteq> HTAB \<and> c \<noteq> CHR '':'' \<and> c \<noteq> CR \<and> c \<noteq> LF"
  by (auto simp: is_token_char_def in_range_def)

lemma is_token_absent:
  "is_token s \<Longrightarrow> SP \<notin> set s \<and> HTAB \<notin> set s \<and> CHR '':'' \<notin> set s \<and> CR \<notin> set s \<and> LF \<notin> set s"
  by (auto simp: is_token_def list_all_iff dest: token_char_facts)

lemma target_char_facts: "target_char c \<Longrightarrow> c \<noteq> SP \<and> c \<noteq> CR \<and> c \<noteq> LF"
  by (auto simp: target_char_def)

lemma parse_request_line_split:
  assumes "SP \<notin> set m" and "SP \<notin> set t" and "SP \<notin> set v"
  shows "parse_request_line (m @ SP # t @ SP # v) request = parse_request_parts m t v request"
  using assms
  by (simp add: parse_request_line_def find_from_def framing substr_def find_char_None_iff)

lemma parse_request_line_InrD:
  assumes "parse_request_line line request = Inr request'"
  obtains m t v where "line = m @ SP # t @ SP # v" and "SP \<notin> set m" and "SP \<notin> set t"
    and "SP \<notin> set v" and "parse_request_parts m t v request = Inr request'"
proof -
  from assms obtain f s where f: "find_char SP line = Some f"
    and s: "find_from SP line (f + 1) = Some s" and last: "find_from SP line (s + 1) = None"
    by (auto simp: parse_request_line_def Let_def split: option.splits if_splits)
  from s obtain k where k: "find_char SP (drop (f + 1) line) = Some k" and sk: "s = f + 1 + k"
    by (auto simp: find_from_def)
  let ?m = "take f line" and ?t = "take k (drop (f + 1) line)" and ?v = "drop (s + 1) line"
  have v: "SP \<notin> set ?v" using last by (simp add: find_from_def find_char_None_iff)
  have line: "line = ?m @ SP # ?t @ SP # ?v"
    using find_char_split(1) [OF f] find_char_split(1) [OF k] sk by (simp add: add.commute)
  have m: "SP \<notin> set ?m" and t: "SP \<notin> set ?t"
    using find_char_split(2) [OF f] find_char_split(2) [OF k] by auto
  have "parse_request_parts ?m ?t ?v request = Inr request'"
    using assms parse_request_line_split [OF m t v] line by metis
  with line m t v show ?thesis by (rule that)
qed

text \<open>The version texts the server accepts, and the protocol version each stands for.\<close>

definition http_version_text :: "string \<Rightarrow> HttpVersion \<Rightarrow> bool" where
  "http_version_text v version \<longleftrightarrow>
     (\<exists>d. digit d \<and> v = ''HTTP/1.'' @ [d] \<and> version = (if d = CHR ''0'' then Http10 else Http11))"

lemma version_text_split:
  "length v = 8 \<and> take 5 v = ''HTTP/'' \<and> v ! 6 = CHR ''.'' \<longleftrightarrow>
     v = ''HTTP/'' @ [v ! 5, CHR ''.'', v ! 7]"
proof
  assume a: "length v = 8 \<and> take 5 v = ''HTTP/'' \<and> v ! 6 = CHR ''.''"
  then have "drop 5 v = [v ! 5, v ! 6, v ! 7]"
    by (simp add: Cons_nth_drop_Suc [symmetric] drop_eq_Nil)
  with a show "v = ''HTTP/'' @ [v ! 5, CHR ''.'', v ! 7]"
    by (metis append_take_drop_id)
next
  assume a: "v = ''HTTP/'' @ [v ! 5, CHR ''.'', v ! 7]"
  show "length v = 8 \<and> take 5 v = ''HTTP/'' \<and> v ! 6 = CHR ''.''"
    by (subst (1 2 3) a) simp
qed

lemma parse_request_parts_Inr_iff:
  "parse_request_parts m t v request = Inr request' \<longleftrightarrow>
     is_token m \<and> t \<noteq> [] \<and> hd t = CHR ''/'' \<and> list_all target_char t \<and>
     (\<exists>version. http_version_text v version \<and>
        request' = request\<lparr>req_version := version, req_method := m, req_target := t\<rparr>)"
  (is "?L \<longleftrightarrow> ?R")
proof
  assume ?L
  then have ok: "is_token m" "t \<noteq> []" "hd t = CHR ''/''" "list_all target_char t"
    "length v = 8 \<and> take 5 v = ''HTTP/'' \<and> v ! 6 = CHR ''.''" "digit (v ! 7)" "v ! 5 = CHR ''1''"
    and r: "request' = request\<lparr>req_version := (if v ! 7 = CHR ''0'' then Http10 else Http11),
      req_method := m, req_target := t\<rparr>"
    by (auto simp: parse_request_parts_def is_digit_def split: if_splits)
  from ok(5,7) version_text_split [of v] have "v = ''HTTP/1.'' @ [v ! 7]" by simp
  with ok r show ?R unfolding http_version_text_def by blast
next
  assume ?R
  then show ?L
    by (auto simp: parse_request_parts_def http_version_text_def is_digit_def in_range_def)
qed

text \<open>
  C32. The request lines the parser accepts are exactly \<^verbatim>\<open>METHOD SP /target SP HTTP/1.x\<close> with
  a token as method, a target of visible ASCII starting with a slash, and single spaces; the
  method and target are stored unchanged and only minor version 0 is treated as HTTP/1.0.
\<close>

theorem parse_request_line_accepts:
  "parse_request_line line request = Inr request' \<longleftrightarrow>
     (\<exists>m t v version. line = m @ SP # t @ SP # v \<and> is_token m \<and> t \<noteq> [] \<and> hd t = CHR ''/'' \<and>
        list_all target_char t \<and> http_version_text v version \<and>
        request' = request\<lparr>req_version := version, req_method := m, req_target := t\<rparr>)"
  (is "?L \<longleftrightarrow> ?R")
proof
  assume ?L
  then show ?R
    by (rule parse_request_line_InrD) (auto simp: parse_request_parts_Inr_iff)
next
  assume ?R
  then obtain m t v version where line: "line = m @ SP # t @ SP # v"
    and ok: "is_token m" "t \<noteq> []" "hd t = CHR ''/''" "list_all target_char t"
      "http_version_text v version"
      "request' = request\<lparr>req_version := version, req_method := m, req_target := t\<rparr>"
    by blast
  have "SP \<notin> set m" using is_token_absent [OF ok(1)] by blast
  moreover have "SP \<notin> set t" using ok(4) by (auto simp: target_char_def list_all_iff)
  moreover have "SP \<notin> set v" using ok(5) by (auto simp: http_version_text_def digit_iff)
  ultimately have "parse_request_line line request = parse_request_parts m t v request"
    unfolding line by (rule parse_request_line_split)
  with ok show ?L
    by (auto simp: parse_request_parts_Inr_iff)
qed

lemma parse_header_line_token:
  assumes "is_token n"
  shows "parse_header_line (n @ CHR '':'' # rest) hs =
     (if list_all value_char (trim_whitespace rest)
      then Inr (hs @ [\<lparr>hdr_name = n, hdr_value = trim_whitespace rest\<rparr>])
      else Inl (parse_error 400 (control_character_message n)))"
proof -
  from assms have "hd (n @ CHR '':'' # rest) \<in> set n" by (simp add: is_token_def)
  with is_token_absent [OF assms] have "hd (n @ CHR '':'' # rest) \<noteq> SP"
    and "hd (n @ CHR '':'' # rest) \<noteq> HTAB" by metis+
  with assms is_token_absent [OF assms] show ?thesis
    by (simp add: parse_header_line_def framing)
qed

text \<open>
  C33. The header lines the parser accepts are exactly a token, a colon directly after it, and
  a value whose trimmed text has no control characters except tabs; the name is kept as
  written and the value is stored trimmed, appended after the headers seen so far.
\<close>

theorem parse_header_line_accepts:
  "parse_header_line line hs = Inr hs' \<longleftrightarrow>
     (\<exists>n rest. line = n @ CHR '':'' # rest \<and> is_token n \<and>
        list_all value_char (trim_whitespace rest) \<and>
        hs' = hs @ [\<lparr>hdr_name = n, hdr_value = trim_whitespace rest\<rparr>])"
  (is "?L \<longleftrightarrow> ?R")
proof
  assume ?L
  then obtain colon where c: "find_char (CHR '':'') line = Some colon" and n: "is_token (take colon line)"
    by (auto simp: parse_header_line_def Let_def split: option.splits if_splits)
  from find_char_split(1) [OF c] obtain rest where line: "line = take colon line @ CHR '':'' # rest"
    by metis
  then have "parse_header_line (take colon line @ CHR '':'' # rest) hs = Inr hs'"
    using \<open>?L\<close> by simp
  then have "list_all value_char (trim_whitespace rest) \<and>
      hs' = hs @ [\<lparr>hdr_name = take colon line, hdr_value = trim_whitespace rest\<rparr>]"
    by (simp add: parse_header_line_token [OF n] split: if_splits)
  with line n show ?R by blast
next
  assume ?R
  then show ?L by (auto simp: parse_header_line_token)
qed

end
