(* ===== verification/Reassembly.thy ===== *)
theory Reassembly
  imports Framing
begin

text \<open>
  Requests do not depend on how the bytes of a stream were grouped into reads. The interface
  \<open>request_stream\<close> states what a client of the framing layer relies on: what a call of
  \<open>next\<close> returned is not changed by bytes that arrive later. From it follows, once for all
  providers, that draining after every read gives what draining the whole stream gives. The
  framing specification provides the interface, and the parser of the source is tied to it by
  the refinement \<open>stream_refinement\<close>.
\<close>

section \<open>Bytes that arrive later\<close>

lemma skip_blank_append: "skip_blank (skip_blank bs @ cs) = skip_blank (bs @ cs)"
  by (induction bs rule: skip_blank.induct) (auto simp: hd_append tl_append neq_Nil_conv)

lemma skip_blank_idem [simp]: "skip_blank (skip_blank bs) = skip_blank bs"
  using skip_blank_append [of bs "[]"] by simp

lemma skip_blank_settled:
  assumes "skip_blank b = b" and "b \<noteq> []" and "b \<noteq> [CR]"
  shows "skip_blank (b @ cs) = b @ cs"
proof -
  obtain c ds where b: "b = c # ds" using assms by (cases b) auto
  have shorter: "length (skip_blank ds) < length b" "length (skip_blank (tl ds)) < length b"
    using length_skip_blank [of ds] length_skip_blank [of "tl ds"] by (auto simp: b)
  then have "c \<noteq> LF" and "\<not> (c = CR \<and> ds \<noteq> [] \<and> hd ds = LF)"
    using assms(1) by (auto simp: b split: if_splits)
  then show ?thesis
    using assms(3) by (auto simp: b)
qed

lemma blank_end_le: "blank_end bs = Some k \<Longrightarrow> 1 < k \<and> k \<le> length bs"
proof (induction bs arbitrary: k rule: blank_end.induct)
  case (2 c ds)
  then show ?case
    by (cases ds; cases "tl ds") (auto split: if_splits)
qed simp

lemma blank_end_append: "blank_end bs = Some k \<Longrightarrow> blank_end (bs @ cs) = Some k"
proof (induction bs arbitrary: k)
  case (Cons c ds)
  have far: "take 1 (ds @ cs) = take 1 ds" "take 2 (ds @ cs) = take 2 ds" if "2 \<le> length ds"
    using that by simp_all
  consider (two) "c = LF" "take 1 ds = [LF]" "k = 2"
    | (three) "c = LF" "take 1 ds \<noteq> [LF]" "take 2 ds = CRLF" "k = 3"
    | (later) j where "\<not> (c = LF \<and> take 1 ds = [LF])" "\<not> (c = LF \<and> take 2 ds = CRLF)"
        "blank_end ds = Some j" "k = Suc j"
    using Cons.prems by (auto split: if_splits)
  then show ?case
  proof cases
    case two
    then show ?thesis by (cases ds) auto
  next
    case three
    then show ?thesis by (cases ds; cases "tl ds") auto
  next
    case later
    with blank_end_le [OF later(3)] far Cons.IH show ?thesis by auto
  qed
qed simp

lemma blank_end_later:
  "blank_end bs = None \<Longrightarrow> blank_end (bs @ cs) = Some k \<Longrightarrow> length bs < k"
proof (induction bs arbitrary: k)
  case (Cons c ds)
  then have none: "\<not> (c = LF \<and> take 1 ds = [LF])" "\<not> (c = LF \<and> take 2 ds = CRLF)"
    "blank_end ds = None"
    by (simp_all split: if_splits)
  consider (two) "c = LF" "take 1 (ds @ cs) = [LF]" "k = 2"
    | (three) "c = LF" "take 2 (ds @ cs) = CRLF" "k = 3"
    | (later) j where "blank_end (ds @ cs) = Some j" "k = Suc j"
    using Cons.prems(2) by (auto split: if_splits)
  then show ?case
  proof cases
    case two
    with none show ?thesis by (cases ds) auto
  next
    case three
    with none show ?thesis by (cases ds; cases "tl ds") auto
  next
    case later
    with Cons.IH none show ?thesis by simp
  qed
next
  case Nil
  then show ?case using blank_end_le [of cs k] by simp
qed

lemma skip_blank_suffix: "suffix (skip_blank bs) bs"
proof (induction bs rule: skip_blank.induct)
  case (2 c cs)
  then show ?case
    by (cases cs) (auto intro: suffix_ConsI)
qed simp

section \<open>The framing specification under later bytes\<close>

lemma framer_skip_sel [simp]:
  "fr_phase (framer_skip f) = fr_phase f" "fr_limits (framer_skip f) = fr_limits f"
  "fr_bytes (framer_skip f) = skip_blank (fr_bytes f)"
proof -
  obtain zs where "fr_bytes f = zs @ skip_blank (fr_bytes f)"
    using skip_blank_suffix [of "fr_bytes f"] by (auto simp: suffix_def)
  then have "drop (length (fr_bytes f) - length (skip_blank (fr_bytes f))) (fr_bytes f) =
      skip_blank (fr_bytes f)"
    by (metis append_eq_conv_conj length_append add_diff_cancel_right')
  then show "fr_bytes (framer_skip f) = skip_blank (fr_bytes f)"
    by (simp add: framer_skip_def framer_take_def)
qed (simp_all add: framer_skip_def framer_take_def)

lemma framer_push_sel [simp]:
  "fr_phase (framer_push f bs) = fr_phase f" "fr_limits (framer_push f bs) = fr_limits f"
  "fr_offset (framer_push f bs) = fr_offset f"
  by (simp_all add: framer_push_def split: Phase.split)

lemma framer_eqI:
  "fr_limits f = fr_limits g \<Longrightarrow> fr_phase f = fr_phase g \<Longrightarrow> fr_bytes f = fr_bytes g \<Longrightarrow>
     fr_offset f = fr_offset g \<Longrightarrow> f = (g :: Framer)"
  by simp

lemma framer_skip_push:
  assumes "fr_phase f = AwaitHead"
  shows "framer_skip (framer_push (framer_skip f) bs) = framer_skip (framer_push f bs)"
proof (rule framer_eqI)
  let ?b = "fr_bytes f"
  have le: "length (skip_blank ?b) \<le> length ?b"
    "length (skip_blank (?b @ bs)) \<le> length (skip_blank ?b @ bs)"
    using length_skip_blank [of ?b] length_skip_blank [of "skip_blank ?b @ bs"]
    by (simp_all add: skip_blank_append)
  have bytes: "fr_bytes (framer_push g bs) = fr_bytes g @ bs" if "fr_phase g = AwaitHead" for g
    using that by (simp add: framer_push_def)
  show "fr_bytes (framer_skip (framer_push (framer_skip f) bs)) =
      fr_bytes (framer_skip (framer_push f bs))"
    using assms by (simp add: bytes skip_blank_append)
  have offset: "fr_offset (framer_skip g) =
      fr_offset g + of_nat (length (fr_bytes g) - length (skip_blank (fr_bytes g)))" for g
    by (simp add: framer_skip_def framer_take_def)
  have "length ?b - length (skip_blank ?b) +
      (length (skip_blank ?b @ bs) - length (skip_blank (?b @ bs))) =
      length (?b @ bs) - length (skip_blank (?b @ bs))"
    using le by simp
  then have "of_nat (length ?b - length (skip_blank ?b)) +
      of_nat (length (skip_blank ?b @ bs) - length (skip_blank (?b @ bs))) =
      (of_nat (length (?b @ bs) - length (skip_blank (?b @ bs))) :: u64)"
    by (metis of_nat_add)
  then show "fr_offset (framer_skip (framer_push (framer_skip f) bs)) =
      fr_offset (framer_skip (framer_push f bs))"
    using assms by (simp only: offset bytes framer_skip_sel framer_push_sel skip_blank_append
        add.assoc)
qed simp_all

lemma framer_skip_settled:
  assumes "fr_phase f = AwaitHead"
    and "skip_blank (fr_bytes f) \<noteq> []" and "skip_blank (fr_bytes f) \<noteq> [CR]"
  shows "framer_skip (framer_push f bs) = framer_push (framer_skip f) bs"
proof -
  let ?g = "framer_skip f"
  have "fr_bytes (framer_push ?g bs) = skip_blank (fr_bytes f) @ bs"
    using assms(1) by (simp add: framer_push_def)
  then have "framer_skip (framer_push ?g bs) = framer_push ?g bs"
    using skip_blank_settled [OF _ assms(2,3), of bs]
    by (simp add: framer_skip_def [of "framer_push ?g bs"] framer_take_def)
  then show ?thesis using framer_skip_push [OF assms(1), of bs] by simp
qed

definition fr_open :: "Framer \<Rightarrow> bool" where
  "fr_open f \<longleftrightarrow> (case fr_phase f of Broken e \<Rightarrow> False | _ \<Rightarrow> True)"

lemma framer_push_open: "fr_open f \<Longrightarrow> framer_push f bs = f\<lparr>fr_bytes := fr_bytes f @ bs\<rparr>"
  by (auto simp: fr_open_def framer_push_def split: Phase.splits)

lemma framer_push_closed: "\<not> fr_open f \<Longrightarrow> framer_push f bs = f"
  by (auto simp: fr_open_def framer_push_def split: Phase.splits)

lemma framer_push_push: "framer_push (framer_push f bs) cs = framer_push f (bs @ cs)"
  by (auto simp: framer_push_def split: Phase.splits)

lemma framer_push_Nil [simp]: "framer_push f [] = f"
  by (auto simp: framer_push_def split: Phase.splits)

text \<open>What a call returns once more bytes have arrived, from what it returned without them.\<close>

definition framer_later :: "string \<Rightarrow> ParseResult \<times> Framer \<Rightarrow> ParseResult \<times> Framer" where
  "framer_later bs out =
     (case out of
        (Complete r, g) \<Rightarrow> (Complete r, framer_push g bs)
      | (Incomplete, g) \<Rightarrow> framer_next (framer_push g bs)
      | (Error e, g) \<Rightarrow> (Error e, g))"

lemma framer_later_break [simp]: "framer_later bs (framer_break f e) = framer_break f e"
  by (simp add: framer_later_def framer_break_def)

lemma framer_break_push [simp]: "fr_open f \<Longrightarrow> framer_break (framer_push f bs) e = framer_break f e"
  by (simp add: framer_break_def framer_push_open)

lemma framer_body_push:
  assumes "fr_open f"
  shows "framer_body (framer_push f bs) r n = framer_later bs (framer_body f r n)"
proof (cases "length (fr_bytes f) < n")
  case True
  then have "framer_body f r n = (Incomplete, f\<lparr>fr_phase := AwaitBody r n\<rparr>)"
    by (simp add: framer_body_def)
  moreover have "framer_push (f\<lparr>fr_phase := AwaitBody r n\<rparr>) bs =
      (f\<lparr>fr_phase := AwaitBody r n, fr_bytes := fr_bytes f @ bs\<rparr>)"
    by (simp add: framer_push_def)
  ultimately show ?thesis
    using assms
    by (simp add: framer_later_def framer_next_def framer_push_open framer_body_def framer_take_def)
next
  case False
  have "fr_open ((framer_take f n)\<lparr>fr_phase := AwaitHead\<rparr>)" by (simp add: fr_open_def)
  from framer_push_open [OF this] False show ?thesis
    using assms by (simp add: framer_later_def framer_push_open framer_body_def framer_take_def)
qed

lemma framer_take_head_push:
  assumes "fr_open f" and "k \<le> length (fr_bytes f)"
  shows "framer_take_head (framer_push f bs) k = framer_later bs (framer_take_head f k)"
proof -
  have "fr_open (framer_take f k)" using assms(1) by (simp add: fr_open_def framer_take_def)
  then have "framer_take (framer_push f bs) k = framer_push (framer_take f k) bs"
    using assms by (simp add: framer_push_open framer_take_def)
  moreover have "take k (fr_bytes (framer_push f bs)) = take k (fr_bytes f)"
    using assms by (simp add: framer_push_open)
  ultimately show ?thesis
    using assms framer_body_push [OF \<open>fr_open (framer_take f k)\<close>]
    by (simp add: framer_take_head_def framer_too_long_def split: sum.split)
qed

lemma framer_head_push:
  assumes f: "fr_phase f = AwaitHead" and limit: "0 < max_header_bytes (fr_limits f)"
  shows "framer_head (framer_skip (framer_push f bs)) = framer_later bs (framer_head (framer_skip f))"
proof -
  let ?g = "framer_skip f"
  have "fr_open ?g" using f by (simp add: fr_open_def)
  show ?thesis
  proof (cases "blank_end (fr_bytes ?g)")
    case (Some k)
    note k = blank_end_le [OF Some]
    then have "skip_blank (fr_bytes f) \<noteq> []" "skip_blank (fr_bytes f) \<noteq> [CR]" by auto
    then have push: "framer_skip (framer_push f bs) = framer_push ?g bs"
      by (rule framer_skip_settled [OF f])
    have "blank_end (fr_bytes (framer_push ?g bs)) = Some k"
      using blank_end_append [OF Some] \<open>fr_open ?g\<close> by (simp add: framer_push_open)
    then show ?thesis
      using Some k framer_take_head_push [OF \<open>fr_open ?g\<close>, of k bs]
      by (simp add: framer_head_def push)
  next
    case None
    show ?thesis
    proof (cases "max_header_bytes (fr_limits ?g) < length (fr_bytes ?g)")
      case True
      with limit have "1 < length (skip_blank (fr_bytes f))" by simp
      then have "skip_blank (fr_bytes f) \<noteq> []" "skip_blank (fr_bytes f) \<noteq> [CR]" by auto
      then have push: "framer_skip (framer_push f bs) = framer_push ?g bs"
        by (rule framer_skip_settled [OF f])
      have "framer_head (framer_push ?g bs) = framer_too_long ?g"
      proof (cases "blank_end (fr_bytes (framer_push ?g bs))")
        case (Some k)
        then have "length (fr_bytes ?g) < k"
          using None \<open>fr_open ?g\<close> by (auto simp: framer_push_open intro!: blank_end_later)
        with Some True \<open>fr_open ?g\<close> show ?thesis
          by (simp add: framer_head_def framer_take_head_def framer_too_long_def)
      next
        case none: None
        with True \<open>fr_open ?g\<close> show ?thesis
          by (simp add: framer_head_def framer_too_long_def framer_push_open)
             (simp add: framer_break_def)
      qed
      with True None push show ?thesis
        by (simp add: framer_head_def framer_too_long_def)
    next
      case False
      with None have "framer_head ?g = (Incomplete, ?g)" by (simp add: framer_head_def)
      then show ?thesis
        using framer_skip_push [OF f, of bs] f by (simp add: framer_later_def framer_next_def)
    qed
  qed
qed

lemma framer_next_push:
  assumes "0 < max_header_bytes (fr_limits f)"
  shows "framer_next (framer_push f bs) = framer_later bs (framer_next f)"
proof (cases "fr_phase f")
  case AwaitHead
  with framer_head_push [OF this assms] show ?thesis by (simp add: framer_next_def)
next
  case (AwaitBody r n)
  then have "fr_open f" by (simp add: fr_open_def)
  with framer_body_push [OF this] AwaitBody show ?thesis by (simp add: framer_next_def)
next
  case (Broken e)
  then show ?thesis by (simp add: framer_next_def framer_push_def framer_later_def)
qed

lemma framer_next_error:
  "framer_next f = (Error e, g) \<Longrightarrow> fr_phase g = Broken e"
  by (auto simp: framer_next_def framer_head_def framer_take_head_def framer_body_def
      framer_break_def framer_too_long_def split: Phase.splits option.splits sum.splits if_splits)

section \<open>The interface of a request stream\<close>

text \<open>
  The loop that reads, feeds and drains: after every chunk, take requests until there is none,
  as a total function and for operations that may fail to return.
\<close>

fun feed_each :: "('s \<Rightarrow> 'r list \<times> 's) \<Rightarrow> ('s \<Rightarrow> 'b \<Rightarrow> 's) \<Rightarrow> 's \<Rightarrow> 'b list \<Rightarrow> 'r list \<times> 's" where
  "feed_each drain push s [] = ([], s)"
| "feed_each drain push s (c # cs) =
     (let (rs, t) = drain (push s c); (rs', u) = feed_each drain push t cs in (rs @ rs', u))"

fun feed_each_option ::
  "('s \<Rightarrow> ('r list \<times> 's) option) \<Rightarrow> ('s \<Rightarrow> 'b \<Rightarrow> 's) \<Rightarrow> 's \<Rightarrow> 'b list \<Rightarrow> ('r list \<times> 's) option"
where
  "feed_each_option drain push s [] = Some ([], s)"
| "feed_each_option drain push s (c # cs) = do {
     (rs, t) \<leftarrow> drain (push s c);
     (rs', u) \<leftarrow> feed_each_option drain push t cs;
     Some (rs @ rs', u)
   }"

locale request_stream =
  fixes nxt :: "'s \<Rightarrow> ParseResult \<times> 's"
    and push :: "'s \<Rightarrow> string \<Rightarrow> 's"
    and drain :: "'s \<Rightarrow> Request list \<times> 's"
    and good :: "'s \<Rightarrow> bool"
    and weight :: "'s \<Rightarrow> nat"
  assumes push_Nil: "push s [] = s"
    and push_push: "push (push s bs) cs = push s (bs @ cs)"
    and next_push: "good s \<Longrightarrow> nxt (push s bs) =
      (case nxt s of
         (Complete r, t) \<Rightarrow> (Complete r, push t bs)
       | (Incomplete, t) \<Rightarrow> nxt (push t bs)
       | (Error e, t) \<Rightarrow> (Error e, t))"
    and push_error: "nxt s = (Error e, t) \<Longrightarrow> push t bs = t"
    and next_error: "nxt s = (Error e, t) \<Longrightarrow> nxt t = (Error e, t)"
    and good_next: "good s \<Longrightarrow> nxt s = (out, t) \<Longrightarrow> good t"
    and good_push: "good s \<Longrightarrow> good (push s bs)"
    and progress: "nxt s = (Complete r, t) \<Longrightarrow> weight t < weight s"
    and drain: "drain s =
      (case nxt s of
         (Complete r, t) \<Rightarrow> (r # fst (drain t), snd (drain t))
       | (_, t) \<Rightarrow> ([], t))"
begin

lemma next_incomplete: "good s \<Longrightarrow> nxt s = (Incomplete, t) \<Longrightarrow> nxt t = (Incomplete, t)"
  using next_push [of s "[]"] by (simp add: push_Nil)

lemma drain_complete: "nxt s = (Complete r, t) \<Longrightarrow> drain s = (r # fst (drain t), snd (drain t))"
  using drain [of s] by simp

lemma drain_stop: "nxt s = (Incomplete, t) \<or> nxt s = (Error e, t) \<Longrightarrow> drain s = ([], t)"
  using drain [of s] by auto

lemma drain_good: "good s \<Longrightarrow> good (snd (drain s))"
proof (induction "weight s" arbitrary: s rule: less_induct)
  case less
  obtain r t where out: "nxt s = (r, t)" by fastforce
  with less.prems have "good t" by (rule good_next)
  with out less.hyps [of t] progress [of s _ t] show ?case
    by (cases r) (simp_all add: drain_complete drain_stop)
qed

lemma drain_settled: "good s \<Longrightarrow> drain (snd (drain s)) = ([], snd (drain s))"
proof (induction "weight s" arbitrary: s rule: less_induct)
  case less
  obtain r t where out: "nxt s = (r, t)" by fastforce
  with less.prems have "good t" by (rule good_next)
  then have settled: "weight t < weight s \<Longrightarrow> drain (snd (drain t)) = ([], snd (drain t))"
    using less.hyps by simp
  show ?case
  proof (cases r)
    case (Complete q)
    with out settled progress [of s q t] show ?thesis by (simp add: drain_complete)
  next
    case Incomplete
    with out next_incomplete [OF less.prems, of t] show ?thesis by (simp add: drain_stop)
  next
    case (Error e)
    with out next_error [of s e t] show ?thesis by (simp add: drain_stop)
  qed
qed

lemma drain_push:
  "good s \<Longrightarrow> drain (push s bs) =
     (fst (drain s) @ fst (drain (push (snd (drain s)) bs)), snd (drain (push (snd (drain s)) bs)))"
proof (induction "weight s" arbitrary: s rule: less_induct)
  case less
  obtain r t where out: "nxt s = (r, t)" by fastforce
  note later = next_push [OF less.prems, of bs]
  show ?case
  proof (cases r)
    case (Complete q)
    with out less.prems have "good t" "weight t < weight s" using good_next progress by blast+
    then have "drain (push t bs) = (fst (drain t) @ fst (drain (push (snd (drain t)) bs)),
        snd (drain (push (snd (drain t)) bs)))" by (intro less.hyps)
    moreover have "drain (push s bs) = (q # fst (drain (push t bs)), snd (drain (push t bs)))"
      using later out Complete by (intro drain_complete) simp
    moreover have "drain s = (q # fst (drain t), snd (drain t))"
      using out Complete by (intro drain_complete) simp
    ultimately show ?thesis by simp
  next
    case Incomplete
    with later out have "nxt (push s bs) = nxt (push t bs)" by simp
    then have "drain (push s bs) = drain (push t bs)"
      by (subst (1 2) drain) simp
    with out Incomplete show ?thesis by (simp add: drain_stop)
  next
    case (Error e)
    with out push_error next_error have t: "push t bs = t" "nxt t = (Error e, t)" by auto
    moreover have "nxt (push s bs) = (Error e, t)" using later out Error by simp
    ultimately show ?thesis using out Error by (simp add: drain_stop)
  qed
qed

lemma feed_each_concat:
  "good s \<Longrightarrow> drain s = ([], s) \<Longrightarrow> feed_each drain push s cs = drain (push s (concat cs))"
proof (induction cs arbitrary: s)
  case Nil
  then show ?case by (simp add: push_Nil)
next
  case (Cons c cs)
  let ?t = "snd (drain (push s c))"
  have "good (push s c)" using Cons.prems(1) by (rule good_push)
  then have "feed_each drain push ?t cs = drain (push ?t (concat cs))"
    by (intro Cons.IH drain_good drain_settled)
  with drain_push [OF \<open>good (push s c)\<close>, of "concat cs"] show ?case
    by (simp add: push_push case_prod_beta)
qed

end

text \<open>A provider that implements another one step by step, and may fail to return.\<close>

locale stream_refinement = request_stream nxt push drain good weight
  for nxt :: "'s \<Rightarrow> ParseResult \<times> 's" and push and drain and good and weight +
  fixes cnext :: "'c \<Rightarrow> (ParseResult \<times> 'c) option"
    and cpush :: "'c \<Rightarrow> string \<Rightarrow> 'c"
    and cdrain :: "'c \<Rightarrow> (Request list \<times> 'c) option"
    and inv :: "'c \<Rightarrow> bool"
    and abs :: "'c \<Rightarrow> 's"
  assumes cnext: "inv p \<Longrightarrow> \<exists>out q. cnext p = Some (out, q) \<and> inv q \<and> nxt (abs p) = (out, abs q)"
    and cpush: "inv p \<Longrightarrow> inv (cpush p bs) \<and> abs (cpush p bs) = push (abs p) bs"
    and cdrain: "cdrain p =
      (case cnext p of
         None \<Rightarrow> None
       | Some (Complete r, q) \<Rightarrow> map_option (\<lambda>(rs, t). (r # rs, t)) (cdrain q)
       | Some (_, q) \<Rightarrow> Some ([], q))"
begin

lemma cdrain_refines:
  "inv p \<Longrightarrow> \<exists>rs q. cdrain p = Some (rs, q) \<and> inv q \<and> drain (abs p) = (rs, abs q)"
proof (induction "weight (abs p)" arbitrary: p rule: less_induct)
  case less
  from cnext [OF less.prems] obtain out q where
    step: "cnext p = Some (out, q)" "inv q" "nxt (abs p) = (out, abs q)" by blast
  show ?case
  proof (cases out)
    case (Complete r)
    with step progress [of "abs p" r "abs q"] less.hyps [of q] obtain rs u where
      "cdrain q = Some (rs, u)" "inv u" "drain (abs q) = (rs, abs u)" by auto
    with Complete step show ?thesis by (simp add: cdrain [of p] drain_complete)
  next
    case Incomplete
    with step show ?thesis by (simp add: cdrain [of p] drain_stop)
  next
    case (Error e)
    with step show ?thesis by (simp add: cdrain [of p] drain_stop)
  qed
qed

lemma feed_each_refines:
  "inv p \<Longrightarrow> \<exists>rs q. feed_each_option cdrain cpush p cs = Some (rs, q) \<and> inv q \<and>
     feed_each drain push (abs p) cs = (rs, abs q)"
proof (induction cs arbitrary: p)
  case (Cons c cs)
  with cpush have push: "inv (cpush p c)" "abs (cpush p c) = push (abs p) c" by auto
  from cdrain_refines [OF push(1)] obtain rs q where
    q: "cdrain (cpush p c) = Some (rs, q)" "inv q" "drain (push (abs p) c) = (rs, abs q)"
    by (auto simp: push(2))
  from Cons.IH [OF q(2)] obtain rs' u where
    "feed_each_option cdrain cpush q cs = Some (rs', u)" "inv u"
    "feed_each drain push (abs q) cs = (rs', abs u)" by blast
  with q show ?case by simp
qed simp

theorem feed_each_equals_feed_all:
  assumes "inv p" and "good (abs p)" and "drain (abs p) = ([], abs p)"
  obtains rs q u where "feed_each_option cdrain cpush p cs = Some (rs, q)"
    and "cdrain (cpush p (concat cs)) = Some (rs, u)" and "abs q = abs u" and "inv q"
    and "drain (push (abs p) (concat cs)) = (rs, abs q)"
proof -
  from feed_each_refines [OF assms(1), of cs] obtain rs q where
    q: "feed_each_option cdrain cpush p cs = Some (rs, q)" "inv q"
    "feed_each drain push (abs p) cs = (rs, abs q)" by blast
  then have all: "drain (push (abs p) (concat cs)) = (rs, abs q)"
    using feed_each_concat [OF assms(2,3), of cs] by simp
  from cpush [OF assms(1)] cdrain_refines [of "cpush p (concat cs)"] all obtain u where
    "cdrain (cpush p (concat cs)) = Some (rs, u)" "abs u = abs q" by auto
  with that q all show ?thesis by metis
qed

end

section \<open>The providers\<close>

definition framer_weight :: "Framer \<Rightarrow> nat" where
  "framer_weight f =
     2 * length (fr_bytes f) + (case fr_phase f of AwaitBody r n \<Rightarrow> 1 | _ \<Rightarrow> 0)"

lemma framer_body_weight:
  "framer_body f r n = (Complete q, g) \<Longrightarrow> framer_weight g \<le> 2 * length (fr_bytes f)"
  by (auto simp: framer_body_def framer_weight_def framer_take_def split: if_splits)

lemma framer_next_weight:
  assumes "framer_next f = (Complete r, g)"
  shows "framer_weight g < framer_weight f"
proof (cases "fr_phase f")
  case AwaitHead
  let ?h = "framer_skip f"
  from assms AwaitHead obtain k q n where k: "blank_end (fr_bytes ?h) = Some k"
    and "framer_body (framer_take ?h k) q n = (Complete r, g)"
    by (auto simp: framer_next_def framer_head_def framer_take_head_def framer_too_long_def
        framer_break_def split: option.splits sum.splits if_splits)
  from framer_body_weight [OF this(2)] blank_end_le [OF k] length_skip_blank [of "fr_bytes f"]
  show ?thesis by (auto simp: framer_weight_def [of f] AwaitHead framer_take_def)
next
  case (AwaitBody q n)
  with assms framer_body_weight [of f q n r g] show ?thesis
    by (simp add: framer_next_def framer_weight_def)
next
  case (Broken e)
  with assms show ?thesis by (simp add: framer_next_def)
qed

function framer_drain :: "Framer \<Rightarrow> Request list \<times> Framer" where
  "framer_drain f =
     (case framer_next f of
        (Complete r, g) \<Rightarrow> (r # fst (framer_drain g), snd (framer_drain g))
      | (_, g) \<Rightarrow> ([], g))"
  by pat_completeness auto
termination
  by (relation "measure framer_weight") (auto dest: framer_next_weight [OF sym])

declare framer_drain.simps [simp del]

lemma framer_next_limits: "framer_next f = (out, g) \<Longrightarrow> fr_limits g = fr_limits f"
  by (auto simp: framer_next_def framer_head_def framer_take_head_def framer_body_def
      framer_too_long_def framer_break_def framer_take_def
      split: Phase.splits option.splits sum.splits if_splits)

abbreviation head_limit_positive :: "Framer \<Rightarrow> bool" where
  "head_limit_positive f \<equiv> 0 < max_header_bytes (fr_limits f)"

interpretation framer: request_stream framer_next framer_push framer_drain head_limit_positive
  framer_weight
proof
  fix f g bs e out
  assume "head_limit_positive f"
  from framer_next_push [OF this] show "framer_next (framer_push f bs) =
    (case framer_next f of
       (Complete r, t) \<Rightarrow> (Complete r, framer_push t bs)
     | (Incomplete, t) \<Rightarrow> framer_next (framer_push t bs)
     | (Error e, t) \<Rightarrow> (Error e, t))"
    by (simp add: framer_later_def)
next
  fix f g bs e
  assume "framer_next f = (Error e, g)"
  then show "framer_push g bs = g" and "framer_next g = (Error e, g)"
    using framer_next_error by (simp_all add: framer_push_def framer_next_def)
qed (simp_all add: framer_push_push framer_next_limits framer_next_weight
      framer_drain.simps [symmetric])

text \<open>
  Every request takes bytes off the parser's buffer, whatever the state of the parser: this
  is what makes the loops that call \<open>next\<close> end.
\<close>

definition parser_weight :: "RequestParser \<Rightarrow> nat" where
  "parser_weight p = 2 * buffered_bytes p + (if rp_state p = Body then 1 else 0)"

lemma next_body_weight:
  "next_body p = (Complete r, q) \<Longrightarrow> parser_weight q \<le> 2 * buffered_bytes p"
  by (auto simp: next_body_def parser_weight_def buffered_bytes_def Let_def split: if_splits)

lemma skip_buffered: "buffered_bytes (skip_empty_lines_before_request p) \<le> buffered_bytes p"
proof (cases "rp_start p \<le> length (rp_buffer p)")
  case True
  from skip_start [OF this] show ?thesis by (auto simp: buffered_bytes_def)
next
  case False
  then show ?thesis
    by (subst skip_empty_lines_before_request.simps) simp
qed

lemma find_end_of_head_bounds:
  assumes "find_end_of_head p = (Some e, q)"
  shows "q = p \<and> rp_start p < e \<and> e \<le> length (rp_buffer p)"
proof -
  let ?pos = "max (rp_scan_from p) (rp_start p)"
  from assms have e: "find_blank_line (rp_buffer p) ?pos = Inr e" and q: "q = p"
    by (auto simp: find_end_of_head_def split: sum.splits)
  have "?pos \<le> length (rp_buffer p)"
  proof (rule ccontr)
    assume "\<not> ?thesis"
    then have "drop ?pos (rp_buffer p) = []" by (intro drop_all) linarith
    then have "find_from LF (rp_buffer p) ?pos = None" unfolding find_from_def by simp
    with e show False by (simp add: find_blank_line.simps [of _ ?pos])
  qed
  from find_blank_line_search [OF this] e q show ?thesis by (auto simp: blank_search_def)
qed

lemma parser_next_weight:
  assumes "parser_next p = Some (Complete r, q)"
  shows "parser_weight q < parser_weight p"
proof (cases "rp_state p")
  case Head
  let ?s = "skip_empty_lines_before_request p"
  from assms Head obtain e where found: "find_end_of_head ?s = (Some e, ?s)"
    and "take_head ?s e = Some (Complete r, q)"
    using find_end_of_head_bounds [of ?s]
    by (fastforce simp: parser_next_def next_head_def fst_fail fail_def failed_result_def Let_def
        split: option.splits prod.splits if_splits)
  then obtain t where t: "next_body t = (Complete r, q)"
    and "rp_start t = rp_start ?s + (e - rp_start ?s)" "rp_buffer t = rp_buffer ?s"
    by (auto simp: take_head_def fail_def failed_result_def Let_def
        split: if_splits sum.splits option.splits Option.bind_splits)
  then have "buffered_bytes t < buffered_bytes ?s"
    using find_end_of_head_bounds [OF found] by (auto simp: buffered_bytes_def)
  with next_body_weight [OF t] skip_buffered [of p] show ?thesis
    by (simp add: parser_weight_def [of p] Head)
next
  case Body
  with assms next_body_weight [of p r q] show ?thesis
    by (simp add: parser_next_def parser_weight_def [of p])
next
  case Failed
  with assms show ?thesis by (simp add: parser_next_def failed_result_def)
qed

function parser_drain :: "RequestParser \<Rightarrow> (Request list \<times> RequestParser) option" where
  "parser_drain p =
     (case parser_next p of
        None \<Rightarrow> None
      | Some (Complete r, q) \<Rightarrow> map_option (\<lambda>(rs, t). (r # rs, t)) (parser_drain q)
      | Some (_, q) \<Rightarrow> Some ([], q))"
  by pat_completeness auto
termination
  by (relation "measure parser_weight") (auto dest: parser_next_weight)

declare parser_drain.simps [simp del]

interpretation parser: stream_refinement framer_next framer_push framer_drain head_limit_positive
  framer_weight parser_next feed parser_drain rp_inv view
proof
  fix p assume "rp_inv p"
  from parser_next_refines [OF this] show "\<exists>out q. parser_next p = Some (out, q) \<and> rp_inv q \<and>
      framer_next (view p) = (out, view q)"
    by metis
qed (simp_all add: rp_inv_feed view_feed parser_drain.simps [symmetric])

end
