(* ===== verification/Response.thy ===== *)
theory Response
  imports Request
begin

text \<open>
  Model of \<^verbatim>\<open>src/include/calc/response.hpp\<close> and \<^verbatim>\<open>src/src/response.cpp\<close>: the response
  value, the status reasons and the exact wire bytes. Shown here: the wire form is a
  header section without an inner blank line, the blank line, and then exactly the body
  announced by \<^verbatim>\<open>Content-Length\<close> (none for an answer to \<^verbatim>\<open>HEAD\<close>).
\<close>

section \<open>Definitions\<close>

record Response =
  resp_status :: int
  resp_body :: string
  resp_headers :: "Header list"
  resp_close_connection :: bool
  resp_omit_body :: bool

definition text_response :: "int \<Rightarrow> string \<Rightarrow> Response" where
  "text_response status content =
     \<lparr>resp_status = status, resp_body = content @ [LF], resp_headers = [],
      resp_close_connection = False, resp_omit_body = False\<rparr>"

definition reason_phrase :: "int \<Rightarrow> string" where
  "reason_phrase status =
     (if status = 200 then ''OK''
      else if status = 400 then ''Bad Request''
      else if status = 404 then ''Not Found''
      else if status = 405 then ''Method Not Allowed''
      else if status = 408 then ''Request Timeout''
      else if status = 413 then ''Content Too Large''
      else if status = 431 then ''Request Header Fields Too Large''
      else if status = 500 then ''Internal Server Error''
      else if status = 501 then ''Not Implemented''
      else if status = 505 then ''HTTP Version Not Supported''
      else ''Unknown'')"

definition header_line :: "Header \<Rightarrow> string" where
  "header_line h = hdr_name h @ '': '' @ hdr_value h @ CRLF"

definition serialize :: "Response \<Rightarrow> string" where
  "serialize r =
     ''HTTP/1.1 '' @ int_to_string (resp_status r) @ '' '' @ reason_phrase (resp_status r) @ CRLF @
     ''Content-Length: '' @ nat_to_string (length (resp_body r)) @ CRLF @
     ''Content-Type: text/plain'' @ CRLF @
     (if resp_close_connection r then ''Connection: close'' @ CRLF
      else ''Connection: keep-alive'' @ CRLF) @
     concat (map header_line (resp_headers r)) @
     CRLF @
     (if resp_omit_body r then [] else resp_body r)"

section \<open>The parts of the wire form\<close>

definition status_line :: "Response \<Rightarrow> string" where
  "status_line r =
     ''HTTP/1.1 '' @ int_to_string (resp_status r) @ '' '' @ reason_phrase (resp_status r)"

text \<open>The header fields in wire order: the three fixed ones and the response's own.\<close>

definition wire_headers :: "Response \<Rightarrow> Header list" where
  "wire_headers r =
     \<lparr>hdr_name = ''Content-Length'', hdr_value = nat_to_string (length (resp_body r))\<rparr> #
     \<lparr>hdr_name = ''Content-Type'', hdr_value = ''text/plain''\<rparr> #
     \<lparr>hdr_name = ''Connection'',
      hdr_value = (if resp_close_connection r then ''close'' else ''keep-alive'')\<rparr> #
     resp_headers r"

definition wire_body :: "Response \<Rightarrow> string" where
  "wire_body r = (if resp_omit_body r then [] else resp_body r)"

lemma serialize_parts:
  "serialize r =
     status_line r @ CRLF @ concat (map header_line (wire_headers r)) @ CRLF @ wire_body r"
  by (simp add: serialize_def status_line_def wire_headers_def wire_body_def header_line_def)

lemma serialize_nonempty [simp]: "serialize r \<noteq> []"
  by (simp add: serialize_def)

lemma length_serialize_pos: "0 < length (serialize r)"
  by simp

text \<open>Texts that can stand in a header line: no line breaks.\<close>

definition single_line :: "string \<Rightarrow> bool" where
  "single_line s \<longleftrightarrow> CR \<notin> set s \<and> LF \<notin> set s"

definition clean_header :: "Header \<Rightarrow> bool" where
  "clean_header h \<longleftrightarrow> single_line (hdr_name h) \<and> single_line (hdr_value h)"

lemma single_line_simps [simp]:
  "single_line []"
  "single_line (c # s) \<longleftrightarrow> c \<noteq> CR \<and> c \<noteq> LF \<and> single_line s"
  "single_line (s @ t) \<longleftrightarrow> single_line s \<and> single_line t"
  by (auto simp: single_line_def)

lemma single_line_nat_to_string [simp]: "single_line (nat_to_string n)"
  by (auto simp: single_line_def digit_iff dest!: nat_to_string_digits)

lemma single_line_int_to_string [simp]: "single_line (int_to_string i)"
  by (simp add: int_to_string_def)

lemma single_line_reason_phrase [simp]: "single_line (reason_phrase status)"
  by (simp add: reason_phrase_def)

lemma single_line_status_line [simp]: "single_line (status_line r)"
  by (simp add: status_line_def)

lemma printable_single_line: "list_all printable s \<Longrightarrow> single_line s"
  by (auto simp: single_line_def list_all_iff printable_def)

lemma clean_wire_headers:
  "list_all clean_header (resp_headers r) \<Longrightarrow> list_all clean_header (wire_headers r)"
  by (simp add: wire_headers_def clean_header_def)

end
