(* ===== verification/Request_Wire.thy ===== *)
theory Request_Wire
  imports Reassembly Response
begin

text \<open>
  The request parser end to end: how a well-formed request looks on the wire, and that the
  parser gives back exactly the requests a client sent, with their positions in the stream,
  however the bytes arrive. The properties of the class \<^verbatim>\<open>RequestParser\<close> as a whole are here.
\<close>

section \<open>Heads made of lines\<close>

definition head_text :: "string list \<Rightarrow> string" where
  "head_text ls = concat (map (\<lambda>l. l @ CRLF) ls) @ CRLF"

lemma head_text_simps [simp]:
  "head_text [] = CRLF" "head_text (l # ls) = l @ CR # LF # head_text ls"
  by (simp_all add: head_text_def)

lemma blank_end_line: "LF \<notin> set l \<Longrightarrow> blank_end (l @ ys) = map_option (\<lambda>k. length l + k) (blank_end ys)"
  by (cases "blank_end ys"; induction l) auto

lemma blank_end_line_break:
  assumes "LF \<notin> set l" and "ys \<noteq> []" and "hd ys \<noteq> LF" and "hd ys \<noteq> CR"
  shows "blank_end (l @ CR # LF # ys) = map_option (\<lambda>k. length l + 2 + k) (blank_end ys)"
proof -
  obtain y zs where ys: "ys = y # zs" using assms(2) by (cases ys) auto
  have "blank_end (CR # LF # ys) = map_option (\<lambda>k. k + 2) (blank_end ys)"
    using assms(3,4) by (simp add: ys option.map_comp comp_def)
  then show ?thesis
    using blank_end_line [OF assms(1), of "CR # LF # ys"]
    by (simp add: option.map_comp comp_def add.commute add.left_commute)
qed

lemma blank_end_head_text:
  assumes "ls \<noteq> []" and "list_all (\<lambda>l. l \<noteq> [] \<and> single_line l) ls"
  shows "blank_end (head_text ls @ rest) = Some (length (head_text ls))"
  using assms
proof (induction ls)
  case (Cons l ls)
  then have l: "LF \<notin> set l" by (auto simp: single_line_def)
  show ?case
  proof (cases ls)
    case Nil
    then show ?thesis using blank_end_line [OF l, of "CRLF @ CRLF @ rest"] by simp
  next
    case (Cons k ks)
    with \<open>list_all _ (l # ls)\<close> obtain c k' where k: "k = c # k'" "c \<noteq> LF" "c \<noteq> CR"
      by (cases k) auto
    with blank_end_line_break [OF l, of "head_text ls @ rest"] Cons Cons.IH Cons.prems
    show ?thesis by simp
  qed
qed simp

lemma strip_cr_line: "strip_cr (l @ [CR]) = l"
  by (simp add: strip_cr_def)

lemma lines_of_head_text:
  assumes "list_all (\<lambda>l. l \<noteq> [] \<and> single_line l) ls"
  shows "lines_of (head_text ls) = ls"
  using assms
proof (induction ls)
  case Nil
  show ?case using lines_of_step [of "[CR]" "[]"] by (simp add: strip_cr_def)
next
  case (Cons l ls)
  then have "LF \<notin> set (l @ [CR])" by (auto simp: single_line_def)
  from lines_of_step [OF this, of "head_text ls"] Cons show ?case
    by (simp add: strip_cr_line)
qed

lemma skip_blank_head_text:
  "ls \<noteq> [] \<Longrightarrow> hd ls \<noteq> [] \<Longrightarrow> single_line (hd ls) \<Longrightarrow>
     skip_blank (head_text ls @ rest) = head_text ls @ rest"
  by (cases ls; cases "hd ls") auto

section \<open>Requests on the wire\<close>

definition version_name :: "HttpVersion \<Rightarrow> string" where
  "version_name version = (if version = Http10 then ''HTTP/1.0'' else ''HTTP/1.1'')"

definition request_line :: "Request \<Rightarrow> string" where
  "request_line r = req_method r @ SP # req_target r @ SP # version_name (req_version r)"

definition header_text :: "Header \<Rightarrow> string" where
  "header_text h = hdr_name h @ '': '' @ hdr_value h"

definition request_head :: "Request \<Rightarrow> string" where
  "request_head r = head_text (request_line r # map header_text (req_headers r))"

definition render_request :: "Request \<Rightarrow> string" where
  "render_request r = request_head r @ req_body r"

text \<open>
  A request a client may send: a well-formed line and headers within the limits, and a
  \<^verbatim>\<open>Content-Length\<close> exactly when there is a body, announcing its length.
\<close>

definition wf_header :: "Header \<Rightarrow> bool" where
  "wf_header h \<longleftrightarrow> is_token (hdr_name h) \<and> list_all value_char (hdr_value h) \<and>
     trim_whitespace (hdr_value h) = hdr_value h"

definition wf_body :: "Limits \<Rightarrow> Request \<Rightarrow> bool" where
  "wf_body limits r \<longleftrightarrow>
     \<not> has_transfer_encoding (req_headers r) \<and> length (req_body r) \<le> max_body_bytes limits \<and>
     (case content_lengths (req_headers r) of
        [] \<Rightarrow> req_body r = []
      | [n] \<Rightarrow> n \<noteq> [] \<and> list_all digit n \<and> decimal_value n = length (req_body r)
      | _ \<Rightarrow> False)"

definition wf_request :: "Limits \<Rightarrow> Request \<Rightarrow> bool" where
  "wf_request limits r \<longleftrightarrow>
     is_token (req_method r) \<and> req_target r \<noteq> [] \<and> hd (req_target r) = CHR ''/'' \<and>
     list_all target_char (req_target r) \<and> list_all wf_header (req_headers r) \<and>
     length (req_headers r) \<le> max_header_count limits \<and>
     length (request_head r) \<le> max_header_bytes limits \<and> wf_body limits r"

lemma value_char_facts: "value_char c \<Longrightarrow> c \<noteq> CR \<and> c \<noteq> LF"
  by (auto simp: value_char_def)

lemma wf_header_line:
  assumes "wf_header h"
  shows "header_text h \<noteq> []" and "single_line (header_text h)"
    and "parse_header_line (header_text h) hs = Inr (hs @ [h])"
proof -
  from assms have h: "is_token (hdr_name h)" "list_all value_char (hdr_value h)"
    "trim_whitespace (hdr_value h) = hdr_value h" by (auto simp: wf_header_def)
  show "header_text h \<noteq> []" by (simp add: header_text_def)
  show "single_line (header_text h)"
    using h(2) is_token_absent [OF h(1)]
    by (auto simp: header_text_def single_line_def list_all_iff dest: value_char_facts)
  have "trim_whitespace (SP # hdr_value h) = hdr_value h"
    using h(3) by (simp add: trim_whitespace_def is_blank_def)
  then show "parse_header_line (header_text h) hs = Inr (hs @ [h])"
    using parse_header_line_token [OF h(1), of "SP # hdr_value h"] h(2)
    by (simp add: header_text_def)
qed

lemma parse_header_lines_wf:
  "list_all wf_header hs \<Longrightarrow> parse_header_lines (map header_text hs) acc = Inr (acc @ hs)"
  by (induction hs arbitrary: acc) (simp_all add: wf_header_line(3))

lemma wf_request_line:
  assumes "wf_request limits r"
  shows "request_line r \<noteq> []" and "single_line (request_line r)"
    and "parse_request_line (request_line r) new_request =
      Inr (new_request\<lparr>req_version := req_version r, req_method := req_method r,
        req_target := req_target r\<rparr>)"
proof -
  from assms have r: "is_token (req_method r)" "req_target r \<noteq> []" "hd (req_target r) = CHR ''/''"
    "list_all target_char (req_target r)" by (auto simp: wf_request_def)
  show "request_line r \<noteq> []" by (simp add: request_line_def)
  have absent: "SP \<notin> set (req_method r)" "SP \<notin> set (req_target r)"
    "SP \<notin> set (version_name (req_version r))"
    using is_token_absent [OF r(1)] r(4)
    by (auto simp: list_all_iff version_name_def target_char_def split: if_splits)
  show "single_line (request_line r)"
    using is_token_absent [OF r(1)] r(4)
    by (auto simp: request_line_def single_line_def list_all_iff version_name_def
        dest: target_char_facts split: if_splits)
  have "http_version_text (version_name (req_version r)) (req_version r)"
    by (cases "req_version r") (auto simp: http_version_text_def version_name_def in_range_def)
  with r show "parse_request_line (request_line r) new_request =
      Inr (new_request\<lparr>req_version := req_version r, req_method := req_method r,
        req_target := req_target r\<rparr>)"
    unfolding request_line_def parse_request_line_split [OF absent]
    by (auto simp: parse_request_parts_Inr_iff)
qed

lemma wf_body_length:
  "wf_body limits r \<Longrightarrow> length_limit_ok (max_body_bytes limits) \<Longrightarrow>
     determine_body_length (req_headers r) (max_body_bytes limits) = Inr (length (req_body r))"
  by (auto simp: wf_body_def determine_body_length_cases split: list.splits)

lemma parse_lines_wf:
  assumes "wf_request limits r" and "length_limit_ok (max_body_bytes limits)"
  shows "parse_lines limits (request_line r # map header_text (req_headers r)) =
     Inr (new_request\<lparr>req_version := req_version r, req_method := req_method r,
        req_target := req_target r, req_headers := req_headers r\<rparr>, length (req_body r))"
proof -
  have "list_all wf_header (req_headers r)" "wf_body limits r"
    "length (req_headers r) \<le> max_header_count limits"
    using assms(1) by (auto simp: wf_request_def)
  moreover have "req_headers new_request = []" by (simp add: new_request_def)
  ultimately show ?thesis
    using assms(2) wf_request_line(3) [OF assms(1)]
    by (simp add: parse_lines_def parse_header_lines_wf wf_body_length)
qed

text \<open>A request with its place in the stream.\<close>

definition place :: "u64 \<Rightarrow> Request \<Rightarrow> Request" where
  "place offset r =
     r\<lparr>req_stream_begin := offset, req_stream_end := offset + of_nat (length (render_request r)),
       req_head_bytes := length (request_head r)\<rparr>"

fun place_all :: "u64 \<Rightarrow> Request list \<Rightarrow> Request list" where
  "place_all offset [] = []"
| "place_all offset (r # rs) =
     place offset r # place_all (offset + of_nat (length (render_request r))) rs"

lemma framer_next_render:
  assumes wf: "wf_request limits r" and limit: "length_limit_ok (max_body_bytes limits)"
    and f: "fr_phase f = AwaitHead" "fr_limits f = limits" "fr_bytes f = render_request r @ rest"
  shows "framer_next f = (Complete (place (fr_offset f) r), framer_take f (length (render_request r)))"
proof -
  let ?ls = "request_line r # map header_text (req_headers r)" and ?k = "length (request_head r)"
  have lines: "list_all (\<lambda>l. l \<noteq> [] \<and> single_line l) ?ls"
    using wf wf_request_line [OF wf] wf_header_line by (auto simp: wf_request_def list_all_iff)
  have bytes: "fr_bytes f = head_text ?ls @ req_body r @ rest"
    by (simp add: f(3) render_request_def request_head_def)
  have "skip_blank (fr_bytes f) = fr_bytes f"
    unfolding bytes using lines by (intro skip_blank_head_text) simp_all
  then have skip: "framer_skip f = f" by (simp add: framer_skip_def framer_take_def)
  have k: "blank_end (fr_bytes f) = Some ?k"
    unfolding bytes request_head_def by (intro blank_end_head_text lines) simp
  have head: "lines_of (take ?k (fr_bytes f)) = ?ls"
    using lines_of_head_text [OF lines] by (simp add: bytes request_head_def del: head_text_simps)
  let ?new = "new_request\<lparr>req_version := req_version r, req_method := req_method r,
      req_target := req_target r, req_headers := req_headers r\<rparr>"
  have step: "framer_next f = framer_body (framer_take f ?k)
      (?new\<lparr>req_stream_begin := fr_offset f, req_head_bytes := ?k\<rparr>) (length (req_body r))"
    using wf f(1,2) k head parse_lines_wf [OF wf limit]
    by (simp add: framer_next_def framer_head_def framer_take_head_def skip wf_request_def)
  have size: "length (render_request r) = ?k + length (req_body r)"
    by (simp add: render_request_def)
  have place: "?new\<lparr>req_stream_begin := fr_offset f, req_head_bytes := ?k, req_body := req_body r,
      req_stream_end := fr_offset f + of_nat ?k + of_nat (length (req_body r))\<rparr> =
      place (fr_offset f) r"
    by (simp add: place_def size add.assoc)
  have body: "fr_bytes (framer_take f ?k) = req_body r @ rest"
    by (simp add: framer_take_def f(3) render_request_def)
  have "framer_body (framer_take f ?k) q (length (req_body r)) =
      (Complete (q\<lparr>req_body := req_body r,
         req_stream_end := fr_offset f + of_nat ?k + of_nat (length (req_body r))\<rparr>),
       framer_take f (length (render_request r)))" for q
    using f(1) by (simp add: framer_body_def body) (simp add: framer_take_def size add.commute add.left_commute)
  with step place show ?thesis by simp
qed

lemma framer_drain_render:
  assumes "list_all (wf_request limits) rs" and "length_limit_ok (max_body_bytes limits)"
    and "fr_phase f = AwaitHead" "fr_limits f = limits" "fr_bytes f = concat (map render_request rs)"
  shows "framer_drain f =
     (place_all (fr_offset f) rs, framer_take f (length (concat (map render_request rs))))"
  using assms
proof (induction rs arbitrary: f)
  case Nil
  then have "framer_next f = (Incomplete, f)"
    by (simp add: framer_next_def framer_skip_def framer_take_def framer_head_def)
  with Nil show ?case
    by (subst framer_drain.simps) (simp add: framer_take_def)
next
  case (Cons r rs)
  let ?g = "framer_take f (length (render_request r))"
  have "framer_next f = (Complete (place (fr_offset f) r), ?g)"
    using Cons.prems by (intro framer_next_render) simp_all
  moreover have "framer_drain ?g = (place_all (fr_offset ?g) rs,
      framer_take ?g (length (concat (map render_request rs))))"
    using Cons.prems by (intro Cons.IH) (simp_all add: framer_take_def)
  ultimately show ?case
    by (subst framer_drain.simps) (simp add: framer_take_def add.commute add.left_commute)
qed

section \<open>Properties of the request parser\<close>

lemma new_framer_drain: "framer_drain (new_framer limits) = ([], new_framer limits)"
  using framer_drain_render [of limits "[]" "new_framer limits"]
  by (subst framer_drain.simps)
     (simp add: new_framer_def framer_next_def framer_skip_def framer_take_def framer_head_def)

lemma new_parser_drained: "framer_drain (view (new_parser limits)) = ([], view (new_parser limits))"
  by (simp add: new_framer_drain)

definition sample_limits :: Limits where
  "sample_limits = \<lparr>max_header_bytes = 200, max_header_count = 4, max_body_bytes = 16\<rparr>"

definition sample_requests :: "Request list" where
  "sample_requests =
     [new_request\<lparr>req_method := ''GET'', req_target := ''/add?a=1&b=2'',
        req_headers := [\<lparr>hdr_name = ''Host'', hdr_value = ''localhost''\<rparr>]\<rparr>,
      new_request\<lparr>req_method := ''POST'', req_target := ''/'', req_version := Http10,
        req_headers := [\<lparr>hdr_name = ''content-length'', hdr_value = ''03''\<rparr>],
        req_body := [CR, LF, CHR ''x'']\<rparr>]"

definition sample_chunks :: "string list" where
  "sample_chunks =
     (let s = concat (map render_request sample_requests) in [take 5 s, [], take 37 (drop 5 s), drop 42 s])"

text \<open>
  C6. Requests do not depend on how TCP groups the bytes: feeding a stream to a new parser in
  any chunks and taking all complete requests after each one returns exactly the requests that
  taking them from the whole stream at once returns, in the same order, and leaves the parser
  in a state with the same unconsumed bytes, pending request or error.
\<close>

theorem parser_chunking:
  assumes "0 < max_header_bytes limits"
  shows "\<exists>rs p q. feed_each_option parser_drain feed (new_parser limits) chunks = Some (rs, p) \<and>
     parser_drain (feed (new_parser limits) (concat chunks)) = Some (rs, q) \<and> view p = view q"
proof -
  have "head_limit_positive (view (new_parser limits))"
    using assms by (simp add: new_framer_def)
  from parser.feed_each_equals_feed_all [OF rp_inv_new this new_parser_drained, of chunks]
  show ?thesis by metis
qed

theorem parser_chunking_witness:
  "0 < max_header_bytes sample_limits \<and>
   (\<exists>rs p q. feed_each_option parser_drain feed (new_parser sample_limits) sample_chunks = Some (rs, p) \<and>
     parser_drain (feed (new_parser sample_limits) (concat sample_chunks)) = Some (rs, q) \<and>
     view p = view q)"
proof -
  have "0 < max_header_bytes sample_limits" by (simp add: sample_limits_def)
  from this parser_chunking [OF this] show ?thesis by (rule conjI)
qed

text \<open>
  C11. The parser gives back what was sent: when the bytes of well-formed requests arrive in any
  chunks, exactly those requests are returned, in order, each with its method, target, headers
  and body unchanged and with its position in the stream, and no byte is left over.
\<close>

theorem parser_roundtrip:
  assumes "0 < max_header_bytes limits" and "length_limit_ok (max_body_bytes limits)"
    and "list_all (wf_request limits) rs" and "concat chunks = concat (map render_request rs)"
  shows "\<exists>p. feed_each_option parser_drain feed (new_parser limits) chunks =
       Some (place_all 0 rs, p) \<and> \<not> has_partial_request p \<and> rp_state p = Head"
proof -
  let ?f = "framer_push (new_framer limits) (concat chunks)"
  have "fr_bytes ?f = concat (map render_request rs)"
    by (simp add: new_framer_def framer_push_def assms(4))
  then have drain: "framer_drain ?f =
      (place_all 0 rs, framer_take ?f (length (concat (map render_request rs))))"
    using framer_drain_render [OF assms(3,2), of ?f] by (simp add: new_framer_def)
  have good: "head_limit_positive (view (new_parser limits))"
    using assms(1) by (simp add: new_framer_def)
  obtain p where p: "feed_each_option parser_drain feed (new_parser limits) chunks =
      Some (place_all 0 rs, p)" "view p = framer_take ?f (length (concat (map render_request rs)))"
    using parser.feed_each_equals_feed_all [OF rp_inv_new good new_parser_drained, of chunks]
    by (metis drain fst_conv snd_conv view_new)
  have "fr_bytes (view p) = []" "fr_phase (view p) = AwaitHead"
    using \<open>fr_bytes ?f = _\<close> by (simp_all add: p(2) framer_take_def new_framer_def)
  then have "buffered_bytes p = 0" "rp_state p = Head"
    by (simp_all add: buffered_view) (simp add: view_def split: ParserState.splits)
  with p(1) show ?thesis by (simp add: has_partial_request_def)
qed

theorem parser_roundtrip_witness:
  "\<exists>p. feed_each_option parser_drain feed (new_parser sample_limits) sample_chunks =
       Some (place_all 0 sample_requests, p) \<and> \<not> has_partial_request p \<and> rp_state p = Head"
proof -
  have "0 < max_header_bytes sample_limits" "length_limit_ok (max_body_bytes sample_limits)"
    by (simp_all add: sample_limits_def length_limit_ok_def)
  moreover have "list_all (wf_request sample_limits) sample_requests" by code_simp
  moreover have "concat sample_chunks = concat (map render_request sample_requests)" by code_simp
  ultimately show ?thesis by (rule parser_roundtrip)
qed

text \<open>
  C13. The class implements the framing specification: \<^verbatim>\<open>feed\<close> and \<^verbatim>\<open>next\<close> keep the class
  invariant (indices inside the buffer, no end of head behind the resumed search), \<^verbatim>\<open>feed\<close>
  appends to the unconsumed bytes, and \<^verbatim>\<open>next\<close> always returns, with the result and the
  remaining bytes of the specification.
\<close>

theorem parser_refines_framer:
  assumes "rp_inv p"
  shows "rp_inv (feed p bytes) \<and> view (feed p bytes) = framer_push (view p) bytes \<and>
     (\<exists>out q. parser_next p = Some (out, q) \<and> rp_inv q \<and> framer_next (view p) = (out, view q))"
  using assms parser_next_refines [OF assms] by (metis rp_inv_feed view_feed)

theorem parser_refines_framer_witness:
  "rp_inv (feed (new_parser sample_limits) ''GET /'') \<and>
   view (feed (new_parser sample_limits) ''GET /'') = framer_push (view (new_parser sample_limits)) ''GET /''"
  using parser_refines_framer [OF rp_inv_new [of sample_limits], of "''GET /''"] by blast

text \<open>
  After every \<^verbatim>\<open>feed\<close> the receive buffer holds at most twice as many bytes as are still unparsed, so
  reclaiming the consumed prefix only when it is half the buffer keeps the buffer bounded by the
  unparsed input.
\<close>

lemma feed_buffer_bound:
  "rp_inv p \<Longrightarrow> length (rp_buffer (feed p bytes)) \<le> 2 * buffered_bytes (feed p bytes)"
  by (auto simp: feed_def buffered_bytes_def rp_inv_def Let_def)

end
