(* ===== verification/Parser_Bounds.thy ===== *)
theory Parser_Bounds
  imports Request_Wire
begin

text \<open>
  What every reachable state of the request parser satisfies: the positions reported with a
  request account for every byte, an incomplete request never fills the buffer a connection
  is willing to hold, and an error is final. The reachable states are those of a new parser
  under any sequence of \<^verbatim>\<open>feed\<close> and \<^verbatim>\<open>next\<close>.
\<close>

section \<open>Reachable parsers\<close>

text \<open>
  \<open>parser_reachable limits stream p\<close>: a parser created with \<open>limits\<close> has been fed the bytes
  \<open>stream\<close> so far, with calls of \<open>next\<close> in between, and is now in the state \<open>p\<close>.
\<close>

inductive parser_reachable :: "Limits \<Rightarrow> string \<Rightarrow> RequestParser \<Rightarrow> bool" for limits where
  start: "parser_reachable limits [] (new_parser limits)"
| fed: "parser_reachable limits stream p \<Longrightarrow> parser_reachable limits (stream @ bytes) (feed p bytes)"
| asked: "parser_reachable limits stream p \<Longrightarrow> parser_next p = Some (out, q) \<Longrightarrow>
    parser_reachable limits stream q"

text \<open>A body that is being awaited is within the limit.\<close>

definition framer_bounded :: "Framer \<Rightarrow> bool" where
  "framer_bounded f \<longleftrightarrow>
     (case fr_phase f of AwaitBody r n \<Rightarrow> n \<le> max_body_bytes (fr_limits f) | _ \<Rightarrow> True)"

lemma accumulate_length_bound:
  "accumulate_length limit s (v, big) = Some (w, False) \<Longrightarrow> (\<not> big \<Longrightarrow> unat v \<le> limit) \<Longrightarrow>
     unat w \<le> limit"
proof (induction s arbitrary: v big)
  case Nil
  then show ?case by simp
next
  case (Cons c s)
  show ?case
  proof (cases big)
    case True
    with Cons.prems(1) have "accumulate_length limit s (v, True) = Some (w, False)"
      by (simp split: if_splits)
    from Cons.IH [OF this] show ?thesis by simp
  next
    case False
    let ?v = "v * 10 + of_nat (digit_value c) :: u64"
    from False Cons.prems(1)
    have "accumulate_length limit s (?v, limit < unat ?v) = Some (w, False)"
      by (simp add: Let_def split: if_splits)
    from Cons.IH [OF this] show ?thesis by simp
  qed
qed

lemma determine_body_length_bound:
  "determine_body_length hs limit = Inr n \<Longrightarrow> n \<le> limit"
  using accumulate_length_bound [of limit _ 0 False]
  by (auto simp: determine_body_length_def split: prod.splits if_splits option.splits)

lemma parse_lines_bound: "parse_lines limits ls = Inr (r, n) \<Longrightarrow> n \<le> max_body_bytes limits"
  by (auto simp: parse_lines_def dest: determine_body_length_bound split: if_splits sum.splits)

lemma framer_body_bounded:
  "framer_body f r n = (out, g) \<Longrightarrow> n \<le> max_body_bytes (fr_limits f) \<Longrightarrow> framer_bounded g"
  by (auto simp: framer_body_def framer_bounded_def framer_take_def split: if_splits)

lemma framer_next_bounded:
  "framer_next f = (out, g) \<Longrightarrow> framer_bounded f \<Longrightarrow> framer_bounded g"
proof (cases "fr_phase f")
  case AwaitHead
  assume "framer_next f = (out, g)"
  then show ?thesis
    using AwaitHead
    by (auto simp: framer_next_def framer_head_def framer_take_head_def framer_too_long_def
        framer_break_def framer_take_def framer_bounded_def [of "_\<lparr>fr_phase := _\<rparr>"]
        framer_bounded_def [of "framer_skip f"] framer_bounded_def [of "_\<lparr>fr_bytes := []\<rparr>"]
        dest!: parse_lines_bound intro: framer_body_bounded split: option.splits if_splits sum.splits)
next
  case (AwaitBody r n)
  assume "framer_next f = (out, g)" "framer_bounded f"
  then show ?thesis
    using AwaitBody framer_body_bounded [of f r n]
    by (simp add: framer_next_def framer_bounded_def [of f])
next
  case (Broken e)
  assume "framer_next f = (out, g)"
  then show ?thesis using Broken by (auto simp: framer_next_def framer_bounded_def)
qed

text \<open>
  Where the framer stands in the stream: the consumed bytes, the head of a pending request and
  the unconsumed bytes make up the stream.
\<close>

definition framer_at :: "string \<Rightarrow> Framer \<Rightarrow> bool" where
  "framer_at stream f \<longleftrightarrow>
     (case fr_phase f of
        AwaitHead \<Rightarrow> (\<exists>pre. stream = pre @ fr_bytes f \<and> fr_offset f = of_nat (length pre))
      | AwaitBody r n \<Rightarrow>
          (\<exists>pre head. stream = pre @ head @ fr_bytes f \<and> fr_offset f = of_nat (length (pre @ head)) \<and>
             req_stream_begin r = of_nat (length pre) \<and> req_head_bytes r = length head)
      | Broken e \<Rightarrow> True)"

text \<open>The place of a request in the stream.\<close>

definition request_at :: "string \<Rightarrow> Request \<Rightarrow> string \<Rightarrow> bool" where
  "request_at stream r rest \<longleftrightarrow>
     (\<exists>pre head. stream = pre @ head @ req_body r @ rest \<and>
        req_stream_begin r = of_nat (length pre) \<and> req_head_bytes r = length head \<and>
        req_stream_end r = of_nat (length (pre @ head @ req_body r)))"

lemma framer_body_at:
  assumes "framer_body f r n = (out, g)"
    and "framer_at stream (f\<lparr>fr_phase := AwaitBody r n\<rparr>)"
  shows "framer_at stream g \<and> (\<forall>q. out = Complete q \<longrightarrow> request_at stream q (fr_bytes g))"
proof -
  from assms(2) obtain pre head where at: "stream = pre @ head @ fr_bytes f"
    "fr_offset f = of_nat (length (pre @ head))" "req_stream_begin r = of_nat (length pre)"
    "req_head_bytes r = length head" by (auto simp: framer_at_def)
  show ?thesis
  proof (cases "length (fr_bytes f) < n")
    case True
    with assms show ?thesis by (auto simp: framer_body_def)
  next
    case False
    let ?body = "take n (fr_bytes f)"
    have g: "fr_phase g = AwaitHead" "fr_bytes g = drop n (fr_bytes f)"
      "fr_offset g = fr_offset f + of_nat n"
      and out: "out = Complete (r\<lparr>req_body := ?body, req_stream_end := fr_offset f + of_nat n\<rparr>)"
      using False assms(1) by (auto simp: framer_body_def framer_take_def)
    have stream: "stream = pre @ head @ ?body @ drop n (fr_bytes f)" by (simp add: at(1))
    have off: "fr_offset f + of_nat n = of_nat (length (pre @ head @ ?body))"
      using False by (simp add: at(2) add.assoc min_def)
    have "framer_at stream g"
      using g stream off by (auto simp: framer_at_def intro!: exI [of _ "pre @ head @ ?body"])
    moreover have "request_at stream (r\<lparr>req_body := ?body, req_stream_end := fr_offset f + of_nat n\<rparr>)
        (drop n (fr_bytes f))"
      unfolding request_at_def
      by (rule exI [of _ pre], rule exI [of _ head]) (use stream at off in simp)
    ultimately show ?thesis by (simp add: out g(2))
  qed
qed

lemma framer_skip_at:
  assumes "framer_at stream f" and "fr_phase f = AwaitHead"
  shows "framer_at stream (framer_skip f)"
proof -
  from assms obtain pre where pre: "stream = pre @ fr_bytes f" "fr_offset f = of_nat (length pre)"
    by (auto simp: framer_at_def)
  obtain zs where zs: "fr_bytes f = zs @ skip_blank (fr_bytes f)"
    using skip_blank_suffix [of "fr_bytes f"] by (auto simp: suffix_def)
  then have "length (fr_bytes f) - length (skip_blank (fr_bytes f)) = length zs"
    by (metis length_append add_diff_cancel_right')
  then have "fr_offset (framer_skip f) = of_nat (length (pre @ zs))"
    by (simp add: framer_skip_def framer_take_def pre(2))
  with zs pre(1) assms(2) show ?thesis
    by (auto simp: framer_at_def intro!: exI [of _ "pre @ zs"])
qed

lemma framer_next_head_cases:
  assumes "framer_next f = (out, g)" and "fr_phase f = AwaitHead"
  obtains (stop) "out = Incomplete" "g = framer_skip f"
  | (broken) e where "framer_break (framer_skip f) e = (out, g)"
  | (body) k r n where "k \<le> length (fr_bytes (framer_skip f))"
      "framer_body (framer_take (framer_skip f) k)
        (r\<lparr>req_stream_begin := fr_offset (framer_skip f), req_head_bytes := k\<rparr>) n = (out, g)"
proof (cases "blank_end (fr_bytes (framer_skip f))")
  case None
  show ?thesis
  proof (cases "max_header_bytes (fr_limits f) < length (fr_bytes (framer_skip f))")
    case True
    with None assms have "framer_too_long (framer_skip f) = (out, g)"
      by (simp add: framer_next_def framer_head_def)
    then show ?thesis unfolding framer_too_long_def by (rule broken)
  next
    case False
    with None assms have "out = Incomplete" "g = framer_skip f"
      by (simp_all add: framer_next_def framer_head_def)
    then show ?thesis by (rule stop)
  qed
next
  case (Some k)
  with assms have "framer_take_head (framer_skip f) k = (out, g)"
    by (simp add: framer_next_def framer_head_def)
  with blank_end_le [OF Some] show ?thesis
    using broken body [of k]
    by (simp add: framer_take_head_def framer_too_long_def split: if_splits sum.splits prod.splits)
qed

lemma framer_next_at:
  assumes out: "framer_next f = (out, g)" and at: "framer_at stream f"
  shows "framer_at stream g \<and> (\<forall>q. out = Complete q \<longrightarrow> request_at stream q (fr_bytes g))"
proof (cases "fr_phase f")
  case AwaitHead
  let ?h = "framer_skip f"
  have h: "framer_at stream ?h" "fr_phase ?h = AwaitHead"
    using framer_skip_at [OF at AwaitHead] AwaitHead by simp_all
  consider (stop) "out = Incomplete" "g = ?h" | (broken) e where "framer_break ?h e = (out, g)"
    | (body) k r n where "k \<le> length (fr_bytes ?h)" "framer_body (framer_take ?h k)
        (r\<lparr>req_stream_begin := fr_offset ?h, req_head_bytes := k\<rparr>) n = (out, g)"
    using out AwaitHead by (rule framer_next_head_cases)
  then show ?thesis
  proof cases
    case stop
    with h show ?thesis by simp
  next
    case broken
    then show ?thesis by (auto simp: framer_break_def framer_at_def)
  next
    case body
    from h obtain pre where pre: "stream = pre @ fr_bytes ?h" "fr_offset ?h = of_nat (length pre)"
      by (auto simp: framer_at_def)
    have "framer_at stream ((framer_take ?h k)\<lparr>fr_phase :=
        AwaitBody (r\<lparr>req_stream_begin := fr_offset ?h, req_head_bytes := k\<rparr>) n\<rparr>)"
      using body(1) pre unfolding framer_at_def
      by (simp add: framer_take_def)
         (rule exI [of _ pre], rule exI [of _ "take k (fr_bytes ?h)"], simp)
    from framer_body_at [OF body(2) this] show ?thesis .
  qed
next
  case (AwaitBody r n)
  then have "f\<lparr>fr_phase := AwaitBody r n\<rparr> = f" by simp
  with out at AwaitBody framer_body_at [of f r n out g stream] show ?thesis
    by (simp add: framer_next_def)
next
  case (Broken e)
  with out show ?thesis by (auto simp: framer_next_def framer_at_def)
qed

lemma framer_push_at: "framer_at stream f \<Longrightarrow> framer_at (stream @ bytes) (framer_push f bytes)"
  by (cases "fr_phase f") (auto simp: framer_at_def framer_push_def)

lemma parser_reachable_inv:
  "parser_reachable limits stream p \<Longrightarrow>
     rp_inv p \<and> rp_limits p = limits \<and> framer_bounded (view p) \<and> framer_at stream (view p)"
proof (induction rule: parser_reachable.induct)
  case start
  then show ?case
    by (simp add: new_framer_def framer_bounded_def framer_at_def) (simp add: new_parser_def)
next
  case (fed stream p bytes)
  then show ?case
    by (simp add: rp_inv_feed view_feed framer_push_at) (auto simp: framer_bounded_def split: Phase.splits)
next
  case (asked stream p out q)
  then obtain out' q' where "parser_next p = Some (out', q')" "rp_inv q'"
    "framer_next (view p) = (out', view q')" "rp_limits q' = rp_limits p"
    using parser_next_refines by metis
  with asked framer_next_bounded framer_next_at show ?case by auto
qed

text \<open>One call of \<open>next\<close> on a reachable parser, through the specification.\<close>

lemma parser_reachable_next:
  assumes "parser_reachable limits stream p" and "parser_next p = Some (out, q)"
  shows "framer_next (view p) = (out, view q)" and "framer_bounded (view p)"
    and "framer_at stream (view p)"
    and "rp_limits p = limits" and "rp_limits q = limits" and "rp_inv p" and "rp_inv q"
proof -
  note p = parser_reachable_inv [OF assms(1)]
  then obtain out' q' where "parser_next p = Some (out', q')" "rp_inv q'"
    "framer_next (view p) = (out', view q')" "rp_limits q' = rp_limits p"
    using parser_next_refines by metis
  with p assms(2) show "framer_next (view p) = (out, view q)" "framer_bounded (view p)"
    "framer_at stream (view p)" "rp_limits p = limits" "rp_limits q = limits" "rp_inv p" "rp_inv q"
    by auto
qed

section \<open>Incomplete requests and errors\<close>

lemma framer_body_incomplete:
  "framer_body f r n = (Incomplete, g) \<Longrightarrow> fr_bytes g = fr_bytes f \<and> length (fr_bytes f) < n"
  by (auto simp: framer_body_def split: if_splits)

lemma framer_next_incomplete:
  assumes "framer_next f = (Incomplete, g)" and "framer_bounded f"
  shows "length (fr_bytes g) \<le> max_header_bytes (fr_limits f) \<or>
     length (fr_bytes g) < max_body_bytes (fr_limits f)"
proof (cases "fr_phase f")
  case AwaitHead
  show ?thesis
  proof (cases "blank_end (fr_bytes (framer_skip f))")
    case None
    with assms AwaitHead show ?thesis
      by (auto simp: framer_next_def framer_head_def framer_too_long_def framer_break_def
          split: if_splits)
  next
    case (Some k)
    with assms(1) AwaitHead obtain r n where
      n: "parse_lines (fr_limits f) (lines_of (take k (fr_bytes (framer_skip f)))) = Inr (r, n)"
      and "framer_body (framer_take (framer_skip f) k)
        (r\<lparr>req_stream_begin := fr_offset (framer_skip f), req_head_bytes := k\<rparr>) n = (Incomplete, g)"
      by (auto simp: framer_next_def framer_head_def framer_take_head_def framer_too_long_def
          framer_break_def split: if_splits sum.splits)
    with framer_body_incomplete [OF this(2)] parse_lines_bound [OF n] show ?thesis by simp
  qed
next
  case (AwaitBody r n)
  with assms framer_body_incomplete [of f r n g] show ?thesis
    by (auto simp: framer_next_def framer_bounded_def)
next
  case (Broken e)
  with assms show ?thesis by (simp add: framer_next_def)
qed

text \<open>The statuses of the errors the parser reports, and how long their messages can be.\<close>

definition parse_statuses :: "int list" where
  "parse_statuses = [400, 413, 431, 501, 505]"

definition message_bound :: "Limits \<Rightarrow> nat" where
  "message_bound limits =
     150 + length (nat_to_string (max_header_bytes limits)) +
     length (nat_to_string (max_header_count limits)) + length (nat_to_string (max_body_bytes limits))"

definition error_ok :: "nat \<Rightarrow> ParseError \<Rightarrow> bool" where
  "error_ok n e \<longleftrightarrow> pe_status e \<in> set parse_statuses \<and> length (pe_message e) \<le> n"

lemma error_ok_parse_error:
  "error_ok n (parse_error status m) \<longleftrightarrow> status \<in> {400, 413, 431, 501, 505} \<and> length m \<le> n"
  by (auto simp: error_ok_def parse_error_def parse_statuses_def)

lemma error_ok_mono: "error_ok n e \<Longrightarrow> n \<le> m \<Longrightarrow> error_ok m e"
  by (auto simp: error_ok_def)

lemma quoted_excerpt_length: "length (quoted (excerpt s)) \<le> 45"
  using excerpt_length [of s] by (simp add: quoted_def)

lemma syntax_message_lengths:
  "length (invalid_method_message s) \<le> 150" "length (invalid_target_message s) \<le> 150"
  "length target_character_message \<le> 150" "length (invalid_version_message s) \<le> 150"
  "length (malformed_line_message s) \<le> 150"
  "length folding_message \<le> 150" "length (missing_colon_message s) \<le> 150"
  "length (invalid_name_message s) \<le> 150" "length (control_character_message s) \<le> 150"
  "length ambiguous_framing_message \<le> 150" "length transfer_encoding_message \<le> 150"
  "length multiple_length_message \<le> 150" "length empty_length_message \<le> 150"
  "length (invalid_length_message s) \<le> 150" "length missing_request_line_message \<le> 150"
  using quoted_excerpt_length [of s] excerpt_length [of s]
  by (simp_all add: invalid_method_message_def invalid_target_message_def target_character_message_def
      invalid_version_message_def malformed_line_message_def
      folding_message_def missing_colon_message_def invalid_name_message_def
      control_character_message_def ambiguous_framing_message_def transfer_encoding_message_def
      multiple_length_message_def empty_length_message_def invalid_length_message_def
      missing_request_line_message_def quoted_def)

lemma limit_message_lengths:
  "length (head_limit_message (max_header_bytes limits)) \<le> message_bound limits"
  "length (too_many_headers_message (max_header_count limits)) \<le> message_bound limits"
  "length (body_limit_message (max_body_bytes limits)) \<le> message_bound limits"
  "150 \<le> message_bound limits"
  by (simp_all add: head_limit_message_def too_many_headers_message_def body_limit_message_def
      message_bound_def)

lemma unsupported_version_length: "length s = 8 \<Longrightarrow> length (unsupported_version_message s) \<le> 150"
  by (simp add: unsupported_version_message_def)

lemma parse_request_line_status: "parse_request_line l r = Inl e \<Longrightarrow> error_ok 150 e"
  by (auto simp: parse_request_line_def parse_request_parts_def error_ok_parse_error
      syntax_message_lengths unsupported_version_length Let_def split: option.splits if_splits)

lemma parse_header_lines_status: "parse_header_lines ls hs = Inl e \<Longrightarrow> error_ok 150 e"
proof (induction ls arbitrary: hs)
  case (Cons l ls)
  have "parse_header_line l hs = Inl e \<Longrightarrow> error_ok 150 e"
    by (auto simp: parse_header_line_def error_ok_parse_error syntax_message_lengths Let_def
        split: option.splits if_splits)
  with Cons show ?case by (auto split: sum.splits)
qed simp

lemma determine_body_length_status:
  "determine_body_length hs (max_body_bytes limits) = Inl e \<Longrightarrow> error_ok (message_bound limits) e"
  by (auto simp: determine_body_length_def error_ok_parse_error limit_message_lengths
      intro: order.trans [OF syntax_message_lengths(10) limit_message_lengths(4)]
        order.trans [OF syntax_message_lengths(11) limit_message_lengths(4)]
        order.trans [OF syntax_message_lengths(12) limit_message_lengths(4)]
        order.trans [OF syntax_message_lengths(13) limit_message_lengths(4)]
        order.trans [OF syntax_message_lengths(14) limit_message_lengths(4)]
      split: prod.splits option.splits if_splits)

lemma parse_lines_status: "parse_lines limits ls = Inl e \<Longrightarrow> error_ok (message_bound limits) e"
  by (auto simp: parse_lines_def error_ok_parse_error limit_message_lengths
      intro: order.trans [OF syntax_message_lengths(15) limit_message_lengths(4)]
        error_ok_mono [OF parse_request_line_status limit_message_lengths(4)]
        error_ok_mono [OF parse_header_lines_status limit_message_lengths(4)]
      dest: determine_body_length_status split: if_splits sum.splits)

definition framer_status_ok :: "Framer \<Rightarrow> bool" where
  "framer_status_ok f \<longleftrightarrow>
     (case fr_phase f of Broken e \<Rightarrow> error_ok (message_bound (fr_limits f)) e | _ \<Rightarrow> True)"

lemma framer_next_status:
  assumes "framer_next f = (Error e, g)" and "framer_status_ok f"
  shows "error_ok (message_bound (fr_limits f)) e"
proof (cases "fr_phase f")
  case AwaitHead
  have "error_ok (message_bound l) (parse_error 431 (head_limit_message (max_header_bytes l)))" for l
    by (simp add: error_ok_parse_error limit_message_lengths)
  with assms(1) AwaitHead parse_lines_status [of "fr_limits f"] show ?thesis
    by (fastforce simp: framer_next_def framer_head_def framer_take_head_def framer_too_long_def
        framer_break_def framer_body_def split: option.splits if_splits sum.splits)
next
  case (AwaitBody r n)
  with assms show ?thesis by (simp add: framer_next_def framer_body_def split: if_splits)
next
  case (Broken e')
  with assms show ?thesis by (simp add: framer_next_def framer_status_ok_def)
qed

lemma framer_next_phase_ok:
  assumes "framer_next f = (out, g)" and "framer_status_ok f"
  shows "framer_status_ok g"
proof (cases out)
  case (Error e)
  with assms framer_next_error [of f e g] framer_next_status [of f e g] framer_next_limits [of f out g]
  show ?thesis by (simp add: framer_status_ok_def)
next
  case (Complete r)
  with framer.progress assms(1) show ?thesis
    by (auto simp: framer_status_ok_def framer_next_def framer_head_def framer_take_head_def
        framer_body_def framer_too_long_def framer_break_def
        split: Phase.splits option.splits if_splits sum.splits)
next
  case Incomplete
  with assms show ?thesis
    by (auto simp: framer_status_ok_def framer_next_def framer_head_def framer_take_head_def
        framer_body_def framer_too_long_def framer_break_def
        split: Phase.splits option.splits if_splits sum.splits)
qed

lemma parser_reachable_status:
  "parser_reachable limits stream p \<Longrightarrow> framer_status_ok (view p)"
proof (induction rule: parser_reachable.induct)
  case start
  then show ?case by (simp add: new_framer_def framer_status_ok_def)
next
  case (fed stream p bytes)
  then show ?case
    using parser_reachable_inv [OF fed(1)]
    by (auto simp: view_feed framer_status_ok_def split: Phase.splits)
next
  case (asked stream p out q)
  with parser_reachable_next(1) framer_next_phase_ok show ?case by blast
qed

section \<open>Properties\<close>

definition sample_stream :: string where
  "sample_stream = CRLF @ concat (map render_request sample_requests)"

definition sample_parser :: RequestParser where
  "sample_parser = feed (new_parser sample_limits) sample_stream"

lemma sample_reachable: "parser_reachable sample_limits sample_stream sample_parser"
  using parser_reachable.fed [OF parser_reachable.start, of sample_limits sample_stream]
  by (simp add: sample_parser_def)

text \<open>
  C34. The byte ranges reported with a request are exact: a request returned by a parser that
  was fed a stream occupies consecutive bytes of it, a head of \<^verbatim>\<open>head_bytes\<close> bytes and then its
  body, from \<^verbatim>\<open>stream_begin\<close> up to \<^verbatim>\<open>stream_end\<close> (as 64-bit counters), and the bytes still
  buffered are exactly those after it.
\<close>

theorem next_accounts:
  assumes "parser_reachable limits stream p" and "parser_next p = Some (Complete r, q)"
  shows "\<exists>pre head. stream = pre @ head @ req_body r @ drop (rp_start q) (rp_buffer q) \<and>
     req_stream_begin r = of_nat (length pre) \<and> req_head_bytes r = length head \<and>
     req_stream_end r = of_nat (length (pre @ head @ req_body r))"
  using framer_next_at [OF parser_reachable_next(1,3) [OF assms]]
  by (simp add: request_at_def view_def)

theorem next_accounts_witness:
  "\<exists>r q pre head. parser_next sample_parser = Some (Complete r, q) \<and>
     sample_stream = pre @ head @ req_body r @ drop (rp_start q) (rp_buffer q) \<and>
     req_stream_begin r = of_nat (length pre) \<and> req_head_bytes r = length head \<and>
     req_stream_end r = of_nat (length (pre @ head @ req_body r))"
proof -
  have "case parser_next sample_parser of Some (Complete r, q) \<Rightarrow> True | _ \<Rightarrow> False"
    by code_simp
  then obtain r q where out: "parser_next sample_parser = Some (Complete r, q)"
    by (auto split: option.splits ParseResult.splits)
  from out next_accounts [OF sample_reachable out] show ?thesis by blast
qed

text \<open>
  C35. No deadlock on a full buffer: when a parser has no complete request to return, the bytes
  it still holds are fewer than the largest request it accepts, so a connection that stops
  reading at \<^verbatim>\<open>max_request_bytes()\<close> still has room for the rest (for limits that allow a body).
\<close>

theorem next_incomplete_leaves_room:
  assumes "parser_reachable limits stream p" and "parser_next p = Some (Incomplete, q)"
    and "0 < max_body_bytes limits"
  shows "buffered_bytes q < max_request_bytes limits"
  using framer_next_incomplete [OF parser_reachable_next(1,2) [OF assms(1,2)]]
    parser_reachable_next(4) [OF assms(1,2)] assms(3)
  by (auto simp: buffered_view max_request_bytes_def)

theorem next_incomplete_leaves_room_witness:
  "\<exists>q. parser_next (feed (new_parser sample_limits) ''GET / HTT'') = Some (Incomplete, q) \<and>
     buffered_bytes q < max_request_bytes sample_limits"
proof -
  let ?p = "feed (new_parser sample_limits) ''GET / HTT''"
  have "case parser_next ?p of Some (Incomplete, q) \<Rightarrow> True | _ \<Rightarrow> False" by code_simp
  then obtain q where q: "parser_next ?p = Some (Incomplete, q)"
    by (auto split: option.splits ParseResult.splits)
  have "parser_reachable sample_limits ''GET / HTT'' ?p"
    using parser_reachable.fed [OF parser_reachable.start, of sample_limits "''GET / HTT''"] by simp
  from q next_incomplete_leaves_room [OF this q] show ?thesis
    by (simp add: sample_limits_def)
qed

text \<open>
  C36. A parse error is final and answerable: its status is one of 400, 413, 431, 501 and 505;
  the parser then holds no bytes, ignores everything fed to it, and reports the same error
  whenever it is asked again.
\<close>

theorem parse_error_final:
  assumes "parser_reachable limits stream p" and "parser_next p = Some (Error e, q)"
  shows "pe_status e \<in> {400, 413, 431, 501, 505} \<and> buffered_bytes q = 0 \<and>
     feed q bytes = q \<and> parser_next q = Some (Error e, q)"
proof -
  note out = parser_reachable_next [OF assms]
  have "pe_status e \<in> set parse_statuses"
    using framer_next_status [OF out(1) parser_reachable_status [OF assms(1)]] by (simp add: error_ok_def)
  moreover have q: "rp_state q = Failed" "rp_error q = e"
    using framer_next_error [OF out(1)] by (auto simp: view_def split: ParserState.splits)
  moreover have "rp_buffer q = []" using out(7) q by (simp add: rp_inv_def)
  ultimately show ?thesis
    by (auto simp: parse_statuses_def buffered_bytes_def feed_def parser_next_def failed_result_def)
qed

theorem parse_error_final_witness:
  "\<exists>e q. parser_next (feed (new_parser sample_limits) (''GET / HTTP/2.0'' @ CRLF @ CRLF)) =
       Some (Error e, q) \<and> pe_status e \<in> {400, 413, 431, 501, 505} \<and> buffered_bytes q = 0 \<and>
       feed q ''GET'' = q \<and> parser_next q = Some (Error e, q)"
proof -
  let ?s = "''GET / HTTP/2.0'' @ CRLF @ CRLF"
  let ?p = "feed (new_parser sample_limits) ?s"
  have "case parser_next ?p of Some (Error e, q) \<Rightarrow> True | _ \<Rightarrow> False" by code_simp
  then obtain e q where q: "parser_next ?p = Some (Error e, q)"
    by (auto split: option.splits ParseResult.splits)
  have "parser_reachable sample_limits ?s ?p"
    using parser_reachable.fed [OF parser_reachable.start, of sample_limits ?s] by simp
  from q parse_error_final [OF this q] show ?thesis by blast
qed

end
