(* ===== verification/Sockets.thy ===== *)
theory Sockets
  imports Config
begin

text \<open>
  What the server sees of the kernel and of its log. A connected socket is a pair of scripts:
  what successive calls of \<^verbatim>\<open>recv()\<close> find and what successive calls of \<^verbatim>\<open>send()\<close> accept, in
  any grouping and with any errors. Beyond its script a non-blocking socket would block. The
  model also keeps what has been exchanged, so that properties can speak about it. The log of
  \<^verbatim>\<open>src/include/calc/logger.hpp\<close> is the list of its lines without their time stamps.
\<close>

section \<open>Sockets\<close>

datatype Errno = EINTR | EAGAIN | EWOULDBLOCK | ECONNABORTED | EPROTO | OtherErrno int

datatype RecvEvent = Arrived string | PeerFin | RecvError Errno

datatype SendEvent = Accepts nat | SendError Errno

record Socket =
  sk_open :: bool
  sk_rx :: "RecvEvent list"
  sk_tx :: "SendEvent list"
  sk_shutdown_ok :: bool
  sk_error :: Errno
  sk_strerror :: "Errno \<Rightarrow> string"
  sk_delivered :: string
  sk_wire :: string
  sk_fin_sent :: bool

text \<open>
  \<^verbatim>\<open>recv(fd, buffer, want, 0)\<close>: at most \<open>want\<close> of the bytes that arrived, no bytes once the
  peer has finished sending (or when none are asked for), or an error.
\<close>

definition recv :: "Socket \<Rightarrow> nat \<Rightarrow> (Errno + string) \<times> Socket" where
  "recv s want =
     (if want = 0 then (Inr [], s)
      else case sk_rx s of
        [] \<Rightarrow> (Inl EAGAIN, s)
      | Arrived bytes # events \<Rightarrow>
          if bytes = [] then (Inl EAGAIN, s\<lparr>sk_rx := events\<rparr>)
          else (Inr (take want bytes),
                s\<lparr>sk_rx := (if length bytes \<le> want then events else Arrived (drop want bytes) # events),
                  sk_delivered := sk_delivered s @ take want bytes\<rparr>)
      | PeerFin # events \<Rightarrow> (Inr [], s)
      | RecvError e # events \<Rightarrow> (Inl e, s\<lparr>sk_rx := events\<rparr>))"

text \<open>\<^verbatim>\<open>send(fd, data, size, flags)\<close>: how many of the bytes the kernel accepted, or an error.\<close>

definition send :: "Socket \<Rightarrow> string \<Rightarrow> (Errno + nat) \<times> Socket" where
  "send s data =
     (case sk_tx s of
        [] \<Rightarrow> (Inl EAGAIN, s)
      | Accepts n # events \<Rightarrow>
          (Inr (min n (length data)), s\<lparr>sk_tx := events, sk_wire := sk_wire s @ take n data\<rparr>)
      | SendError e # events \<Rightarrow> (Inl e, s\<lparr>sk_tx := events\<rparr>))"

definition shutdown_write :: "Socket \<Rightarrow> bool \<times> Socket" where
  "shutdown_write s =
     (if sk_shutdown_ok s then (True, s\<lparr>sk_fin_sent := True\<rparr>) else (False, s))"

text \<open>\<^verbatim>\<open>FileDescriptor::reset()\<close>: closes the descriptor if there is one.\<close>

definition close_socket :: "Socket \<Rightarrow> Socket" where
  "close_socket s = s\<lparr>sk_open := False\<rparr>"

text \<open>The loop around \<^verbatim>\<open>recv()\<close> that retries when a signal interrupted it.\<close>

lemma recv_interrupted:
  "recv s want = (Inl EINTR, t) \<Longrightarrow> length (sk_rx t) < length (sk_rx s)"
  by (auto simp: recv_def split: if_splits list.splits RecvEvent.splits)

function recv_retry :: "Socket \<Rightarrow> nat \<Rightarrow> (Errno + string) \<times> Socket" where
  "recv_retry s want =
     (case recv s want of
        (Inl EINTR, t) \<Rightarrow> recv_retry t want
      | out \<Rightarrow> out)"
  by pat_completeness auto
termination
  by (relation "measure (\<lambda>(s, want). length (sk_rx s))") (auto dest: recv_interrupted [OF sym])

declare recv_retry.simps [simp del]

section \<open>The log\<close>

record Logger =
  lg_level :: LogLevel
  lg_lines :: "string list"

definition log_write :: "LogLevel \<Rightarrow> string \<Rightarrow> Logger \<Rightarrow> Logger" where
  "log_write level line lg =
     (if lg_level lg < level then lg else lg\<lparr>lg_lines := lg_lines lg @ [line @ [LF]]\<rparr>)"

text \<open>
  \<^verbatim>\<open>Logger::timestamp()\<close>, from the local time of day and the milliseconds since the epoch, which
  are answers of the system; it is what a line that is written out starts with. The conversion
  \<^verbatim>\<open>%0wd\<close> counts a sign into the width, \<^verbatim>\<open>%\<close> takes the sign of the dividend, and the buffer
  holds 15 characters.
\<close>

definition zero_padded :: "nat \<Rightarrow> int \<Rightarrow> string" where
  "zero_padded width i =
     (let digits = nat_to_string (nat \<bar>i\<bar>);
          sign = (if i < 0 then ''-'' else [])
      in sign @ replicate (width - length sign - length digits) (CHR ''0'') @ digits)"

definition timestamp :: "int \<Rightarrow> int \<Rightarrow> int \<Rightarrow> int \<Rightarrow> string" where
  "timestamp hour minute second since_epoch =
     take 15 (zero_padded 2 hour @ '':'' @ zero_padded 2 minute @ '':'' @ zero_padded 2 second @ ''.'' @
       zero_padded 3 (sgn since_epoch * (\<bar>since_epoch\<bar> mod 1000)))"

definition log_text :: "string \<Rightarrow> string \<Rightarrow> string" where
  "log_text stamp line = stamp @ '' '' @ line"

text \<open>An unsigned counter as the stream operator prints it.\<close>

abbreviation show_u64 :: "u64 \<Rightarrow> string" where
  "show_u64 w \<equiv> nat_to_string (unat w)"

section \<open>What the calls leave unchanged\<close>

lemma recv_frame:
  assumes "recv s want = (out, t)"
  shows "sk_tx t = sk_tx s \<and> sk_wire t = sk_wire s \<and> sk_open t = sk_open s \<and>
     sk_fin_sent t = sk_fin_sent s \<and> length (sk_rx t) \<le> length (sk_rx s) \<and>
     sk_delivered t = sk_delivered s @ (case out of Inr bytes \<Rightarrow> bytes | Inl e \<Rightarrow> []) \<and>
     (case out of Inr bytes \<Rightarrow> length bytes \<le> want | Inl e \<Rightarrow> True)"
  using assms by (auto simp: recv_def split: if_splits list.splits RecvEvent.splits)

lemma recv_retry_frame:
  "recv_retry s want = (out, t) \<Longrightarrow>
     sk_tx t = sk_tx s \<and> sk_wire t = sk_wire s \<and> sk_open t = sk_open s \<and>
     sk_fin_sent t = sk_fin_sent s \<and> length (sk_rx t) \<le> length (sk_rx s) \<and>
     sk_delivered t = sk_delivered s @ (case out of Inr bytes \<Rightarrow> bytes | Inl e \<Rightarrow> []) \<and>
     (case out of Inr bytes \<Rightarrow> length bytes \<le> want | Inl e \<Rightarrow> e \<noteq> EINTR)"
proof (induction s want arbitrary: out t rule: recv_retry.induct)
  case (1 s want)
  obtain r u where ru: "recv s want = (r, u)" by fastforce
  note frame = recv_frame [OF ru]
  show ?case
  proof (cases "r = Inl EINTR")
    case True
    with "1.prems" ru have "recv_retry u want = (out, t)" by (simp add: recv_retry.simps [of s])
    with "1.IH" [of r u EINTR out t] ru True frame show ?thesis by auto
  next
    case False
    with "1.prems" ru have "(out, t) = (r, u)"
      by (simp add: recv_retry.simps [of s] split: sum.splits Errno.splits)
    with False frame show ?thesis by (auto split: sum.splits)
  qed
qed

lemma send_frame:
  assumes "send s data = (out, t)"
  shows "sk_rx t = sk_rx s \<and> sk_delivered t = sk_delivered s \<and> sk_open t = sk_open s \<and>
     sk_fin_sent t = sk_fin_sent s \<and>
     (case out of
        Inr n \<Rightarrow> n \<le> length data \<and> sk_wire t = sk_wire s @ take n data \<and>
          length (sk_tx t) < length (sk_tx s)
      | Inl e \<Rightarrow> sk_wire t = sk_wire s \<and> length (sk_tx t) \<le> length (sk_tx s) \<and>
          (e = EINTR \<longrightarrow> length (sk_tx t) < length (sk_tx s)))"
  using assms by (auto simp: send_def min_def split: list.splits SendEvent.splits)

end
