(* ===== verification/Connection.thy ===== *)
theory Connection
  imports Parser_Bounds Sockets
begin

text \<open>
  Model of the class \<^verbatim>\<open>Connection\<close> of \<^verbatim>\<open>src/src/connection.cpp\<close> and
  \<^verbatim>\<open>src/include/calc/connection.hpp\<close>: one accepted socket, driven by poll events and
  deadlines. Every member function is a function on the connection's state, which includes
  the socket. A time point is an integer number of nanoseconds. \<^const>\<open>None\<close> stands for a
  member function that does not return; it is shown elsewhere that this never happens.
\<close>

section \<open>State\<close>

record ConnectionStats =
  st_requests :: u64
  st_bytes_received :: u64
  st_recv_calls :: u64
  st_bytes_sent :: u64
  st_send_calls :: u64
  st_short_sends :: u64
  st_blocked_sends :: u64

definition no_stats :: ConnectionStats where
  "no_stats =
     \<lparr>st_requests = 0, st_bytes_received = 0, st_recv_calls = 0, st_bytes_sent = 0,
      st_send_calls = 0, st_short_sends = 0, st_blocked_sends = 0\<rparr>"

datatype ConnState = Active | Closing | Draining | Closed

datatype PollFlag = POLLIN | POLLOUT | POLLERR | POLLHUP | POLLNVAL

text \<open>A request handler returns a response or throws.\<close>

datatype Exception = StdException string | UnknownException

type_synonym RequestHandler = "Request \<Rightarrow> Exception + Response"

type_synonym time_point = int

definition time_point_max :: time_point where
  "time_point_max = 2 ^ 63 - 1"

definition milliseconds :: "int \<Rightarrow> int" where
  "milliseconds ms = ms * 1000000"

record Connection =
  c_socket :: Socket
  c_id :: u64
  c_peer :: string
  c_config :: ServerConfig
  c_handler :: RequestHandler
  c_logger :: Logger
  c_parser :: RequestParser
  c_output :: string
  c_output_sent :: nat
  c_state :: ConnState
  c_peer_finished_sending :: bool
  c_last_activity :: time_point
  c_linger_deadline :: time_point
  c_lingered_bytes :: nat
  c_stats :: ConnectionStats

definition new_connection ::
  "Socket \<Rightarrow> u64 \<Rightarrow> string \<Rightarrow> ServerConfig \<Rightarrow> RequestHandler \<Rightarrow> Logger \<Rightarrow> time_point \<Rightarrow> Connection"
where
  "new_connection socket i peer config handler logger now =
     \<lparr>c_socket = socket, c_id = i, c_peer = peer, c_config = config, c_handler = handler,
      c_logger = logger, c_parser = new_parser (cfg_limits config), c_output = [],
      c_output_sent = 0, c_state = Active, c_peer_finished_sending = False,
      c_last_activity = now, c_linger_deadline = 0, c_lingered_bytes = 0, c_stats = no_stats\<rparr>"

section \<open>Logging and closing\<close>

definition conn_log :: "LogLevel \<Rightarrow> string \<Rightarrow> Connection \<Rightarrow> Connection" where
  "conn_log level line c =
     c\<lparr>c_logger := log_write level (''[conn '' @ show_u64 (c_id c) @ ''] '' @ line) (c_logger c)\<rparr>"

definition describe_stats :: "ConnectionStats \<Rightarrow> string" where
  "describe_stats s =
     ''requests='' @ show_u64 (st_requests s) @ '' recv_calls='' @ show_u64 (st_recv_calls s) @
     '' bytes_in='' @ show_u64 (st_bytes_received s) @ '' send_calls='' @ show_u64 (st_send_calls s) @
     '' bytes_out='' @ show_u64 (st_bytes_sent s) @ '' short_sends='' @ show_u64 (st_short_sends s) @
     '' blocked_sends='' @ show_u64 (st_blocked_sends s)"

definition close_now :: "string \<Rightarrow> Connection \<Rightarrow> Connection" where
  "close_now reason c =
     (if c_state c = Closed then c
      else conn_log Info
        (''closed connection from '' @ c_peer c @ '': '' @ reason @ '' | '' @
         describe_stats (c_stats c))
        (c\<lparr>c_socket := close_socket (c_socket c), c_state := Closed\<rparr>))"

definition conn_errno_message :: "Connection \<Rightarrow> Errno \<Rightarrow> string" where
  "conn_errno_message c e = sk_strerror (c_socket c) e"

definition closed :: "Connection \<Rightarrow> bool" where
  "closed c \<longleftrightarrow> c_state c = Closed"

section \<open>What poll should watch\<close>

definition pending_output_bytes :: "Connection \<Rightarrow> nat" where
  "pending_output_bytes c = length (c_output c) - c_output_sent c"

definition wants_to_read :: "Connection \<Rightarrow> bool" where
  "wants_to_read c \<longleftrightarrow>
     c_state c = Active \<and> \<not> c_peer_finished_sending c \<and>
     pending_output_bytes c < output_high_water (c_config c) \<and>
     buffered_bytes (c_parser c) < max_request_bytes (cfg_limits (c_config c))"

definition poll_events :: "Connection \<Rightarrow> PollFlag set" where
  "poll_events c =
     (case c_state c of
        Active \<Rightarrow>
          (if wants_to_read c then {POLLIN} else {}) \<union>
          (if pending_output_bytes c > 0 then {POLLOUT} else {})
      | Closing \<Rightarrow> if pending_output_bytes c > 0 then {POLLOUT} else {}
      | Draining \<Rightarrow> {POLLIN}
      | Closed \<Rightarrow> {})"

section \<open>Reading\<close>

definition recv_chunk_bytes :: nat where
  "recv_chunk_bytes = 16 * 1024"

text \<open>How many bytes \<open>read_from_socket\<close> asks for.\<close>

definition read_size :: "Connection \<Rightarrow> nat" where
  "read_size c =
     min recv_chunk_bytes
       (max_request_bytes (cfg_limits (c_config c)) - buffered_bytes (c_parser c))"

definition read_from_socket :: "time_point \<Rightarrow> Connection \<Rightarrow> Connection" where
  "read_from_socket now c =
     (case recv_retry (c_socket c) (read_size c) of
        (Inr bytes, s) \<Rightarrow>
          if bytes \<noteq> [] then
            let st = c_stats c;
                d = c\<lparr>c_socket := s,
                      c_stats := st\<lparr>st_recv_calls := st_recv_calls st + 1,
                                    st_bytes_received := st_bytes_received st + of_nat (length bytes)\<rparr>,
                      c_last_activity := now,
                      c_parser := feed (c_parser c) bytes\<rparr>
            in conn_log Debug
                 (''recv() -> '' @ nat_to_string (length bytes) @ '' bytes ('' @
                  nat_to_string (buffered_bytes (c_parser d)) @ '' unparsed bytes buffered)'') d
          else conn_log Debug ''recv() -> 0: client finished sending (FIN)''
                 (c\<lparr>c_socket := s, c_peer_finished_sending := True, c_last_activity := now\<rparr>)
      | (Inl e, s) \<Rightarrow>
          let d = c\<lparr>c_socket := s\<rparr> in
          if e = EAGAIN \<or> e = EWOULDBLOCK then d
          else close_now (''recv() failed: '' @ conn_errno_message d e) d)"

section \<open>Answering\<close>

definition run_handler :: "Request \<Rightarrow> Connection \<Rightarrow> Response \<times> Connection" where
  "run_handler request c =
     (case c_handler c request of
        Inr response \<Rightarrow> (response, c)
      | Inl exn \<Rightarrow>
          ((text_response 500 ''internal server error'')\<lparr>resp_close_connection := True\<rparr>,
           conn_log Info
             (''internal error while handling request: '' @
              (case exn of StdException what \<Rightarrow> what | UnknownException \<Rightarrow> ''unknown exception'')) c))"

text \<open>A response with the two evidence headers, as it is written to the output.\<close>

definition stamp_response :: "u64 \<Rightarrow> u64 \<Rightarrow> Response \<Rightarrow> Response" where
  "stamp_response i number response =
     response\<lparr>resp_headers := resp_headers response @
       [\<lparr>hdr_name = ''X-Connection-Id'', hdr_value = show_u64 i\<rparr>,
        \<lparr>hdr_name = ''X-Request-Number'', hdr_value = show_u64 number\<rparr>]\<rparr>"

definition queue_response :: "Response \<Rightarrow> Connection \<Rightarrow> Connection" where
  "queue_response response c =
     (let st = c_stats c;
          number = st_requests st + 1;
          stamped = stamp_response (c_id c) number response
      in c\<lparr>c_stats := st\<lparr>st_requests := number\<rparr>,
           c_output := c_output c @ serialize stamped,
           c_state := (if resp_close_connection stamped then Closing else c_state c)\<rparr>)"

text \<open>The response to a framing error.\<close>

definition error_response :: "ParseError \<Rightarrow> Response" where
  "error_response e =
     (text_response (pe_status e) (pe_message e))\<lparr>resp_close_connection := True\<rparr>"

definition answer_error :: "ParseError \<Rightarrow> Connection \<Rightarrow> Connection" where
  "answer_error e c =
     (let response = error_response e;
          logged = conn_log Info
            (''#'' @ show_u64 (st_requests (c_stats c) + 1) @ '' unparseable request -> '' @
             int_to_string (resp_status response) @ '' '' @ reason_phrase (resp_status response) @
             '' ('' @ pe_message e @ '') | close'') c
      in queue_response response logged)"

text \<open>What the connection makes of the handler's response to a request.\<close>

definition finish_response :: "Request \<Rightarrow> Response \<Rightarrow> Response" where
  "finish_response request response =
     (let r1 = (if \<not> wants_keep_alive request then response\<lparr>resp_close_connection := True\<rparr>
                else response)
      in if req_method request = ''HEAD'' then r1\<lparr>resp_omit_body := True\<rparr> else r1)"

definition answer_request :: "Request \<Rightarrow> Connection \<Rightarrow> Connection" where
  "answer_request request c =
     (let (handled, d) = run_handler request c;
          response = finish_response request handled;
          logged = conn_log Info
            (''#'' @ show_u64 (st_requests (c_stats d) + 1) @ '' '' @
             excerpt_n (req_method request) 16 @ '' '' @ excerpt_n (req_target request) 80 @ '' '' @
             version_name (req_version request) @ '' -> '' @ int_to_string (resp_status response) @ '' '' @
             reason_phrase (resp_status response) @ '' | stream bytes ['' @
             show_u64 (req_stream_begin request) @ '','' @ show_u64 (req_stream_end request) @
             '') = '' @ nat_to_string (req_head_bytes request) @ '' head + '' @
             nat_to_string (length (req_body request)) @ '' body | '' @
             (if resp_close_connection response then ''close'' else ''keep-alive'')) d
      in queue_response response logged)"

lemma conn_log_sel [simp]:
  "c_parser (conn_log l t c) = c_parser c" "c_socket (conn_log l t c) = c_socket c"
  "c_state (conn_log l t c) = c_state c" "c_output (conn_log l t c) = c_output c"
  "c_output_sent (conn_log l t c) = c_output_sent c" "c_stats (conn_log l t c) = c_stats c"
  "c_id (conn_log l t c) = c_id c" "c_config (conn_log l t c) = c_config c"
  "c_handler (conn_log l t c) = c_handler c" "c_peer (conn_log l t c) = c_peer c"
  "c_peer_finished_sending (conn_log l t c) = c_peer_finished_sending c"
  "c_last_activity (conn_log l t c) = c_last_activity c"
  "c_linger_deadline (conn_log l t c) = c_linger_deadline c"
  "c_lingered_bytes (conn_log l t c) = c_lingered_bytes c"
  by (simp_all add: conn_log_def)

lemma run_handler_snd: "\<exists>lg. snd (run_handler r c) = c\<lparr>c_logger := lg\<rparr>"
  by (cases "c_handler c r") (auto simp: run_handler_def conn_log_def intro: exI [of _ "c_logger c"])

lemma run_handler_sel [simp]:
  "c_parser (snd (run_handler r c)) = c_parser c" "c_socket (snd (run_handler r c)) = c_socket c"
  "c_state (snd (run_handler r c)) = c_state c" "c_output (snd (run_handler r c)) = c_output c"
  "c_output_sent (snd (run_handler r c)) = c_output_sent c"
  "c_stats (snd (run_handler r c)) = c_stats c" "c_id (snd (run_handler r c)) = c_id c"
  "c_config (snd (run_handler r c)) = c_config c" "c_handler (snd (run_handler r c)) = c_handler c"
  "c_peer_finished_sending (snd (run_handler r c)) = c_peer_finished_sending c"
  "c_last_activity (snd (run_handler r c)) = c_last_activity c"
  "c_linger_deadline (snd (run_handler r c)) = c_linger_deadline c"
  "c_lingered_bytes (snd (run_handler r c)) = c_lingered_bytes c"
  using run_handler_snd [of r c] by auto

lemma queue_response_sel [simp]:
  "c_parser (queue_response r c) = c_parser c" "c_socket (queue_response r c) = c_socket c"
  "c_output_sent (queue_response r c) = c_output_sent c" "c_id (queue_response r c) = c_id c"
  "c_config (queue_response r c) = c_config c" "c_handler (queue_response r c) = c_handler c"
  "c_peer_finished_sending (queue_response r c) = c_peer_finished_sending c"
  "c_last_activity (queue_response r c) = c_last_activity c"
  "c_linger_deadline (queue_response r c) = c_linger_deadline c"
  "c_lingered_bytes (queue_response r c) = c_lingered_bytes c"
  "c_state (queue_response r c) = (if resp_close_connection r then Closing else c_state c)"
  "c_output (queue_response r c) =
     c_output c @ serialize (stamp_response (c_id c) (st_requests (c_stats c) + 1) r)"
  "c_stats (queue_response r c) = (c_stats c)\<lparr>st_requests := st_requests (c_stats c) + 1\<rparr>"
  by (simp_all add: queue_response_def Let_def stamp_response_def)

lemma answer_parser [simp]:
  "c_parser (answer_request r c) = c_parser c" "c_parser (answer_error e c) = c_parser c"
  by (simp_all add: answer_request_def answer_error_def Let_def case_prod_beta)

text \<open>The loop of \<open>respond_to_buffered_requests\<close>, with the flag that it returns.\<close>

function respond_loop :: "bool \<Rightarrow> Connection \<Rightarrow> (bool \<times> Connection) option" where
  "respond_loop responded c =
     (if c_state c = Active \<and> pending_output_bytes c < output_high_water (c_config c) then
        case parser_next (c_parser c) of
          None \<Rightarrow> None
        | Some (Incomplete, p) \<Rightarrow> Some (responded, c\<lparr>c_parser := p\<rparr>)
        | Some (Error e, p) \<Rightarrow> Some (True, answer_error e (c\<lparr>c_parser := p\<rparr>))
        | Some (Complete request, p) \<Rightarrow>
            respond_loop True (answer_request request (c\<lparr>c_parser := p\<rparr>))
      else Some (responded, c))"
  by pat_completeness auto
termination
  by (relation "measure (\<lambda>(responded, c). parser_weight (c_parser c))")
     (auto dest: parser_next_weight)

declare respond_loop.simps [simp del]

definition respond_to_buffered_requests :: "Connection \<Rightarrow> (bool \<times> Connection) option" where
  "respond_to_buffered_requests c = respond_loop False c"

section \<open>Writing\<close>

text \<open>A call of \<open>send\<close> that accepted some bytes.\<close>

definition note_sent :: "time_point \<Rightarrow> nat \<Rightarrow> Socket \<Rightarrow> Connection \<Rightarrow> Connection" where
  "note_sent now count s c =
     (let remaining = pending_output_bytes c;
          st = c_stats c;
          st1 = st\<lparr>st_send_calls := st_send_calls st + 1,
                   st_bytes_sent := st_bytes_sent st + of_nat count\<rparr>;
          d = c\<lparr>c_socket := s, c_output_sent := c_output_sent c + count, c_last_activity := now\<rparr>
      in if count < remaining then
           conn_log Debug
             (''send() accepted '' @ nat_to_string count @ '' of '' @ nat_to_string remaining @
              '' bytes (short write)'')
             (d\<lparr>c_stats := st1\<lparr>st_short_sends := st_short_sends st1 + 1\<rparr>\<rparr>)
         else conn_log Debug (''send() -> '' @ nat_to_string count @ '' bytes'') (d\<lparr>c_stats := st1\<rparr>))"

text \<open>A call of \<open>send\<close> that would block.\<close>

definition note_blocked :: "Socket \<Rightarrow> Connection \<Rightarrow> Connection" where
  "note_blocked s c =
     conn_log Debug
       (''send() would block; '' @ nat_to_string (pending_output_bytes c) @ '' bytes wait for POLLOUT'')
       (c\<lparr>c_socket := s,
          c_stats := (c_stats c)\<lparr>st_blocked_sends := st_blocked_sends (c_stats c) + 1\<rparr>\<rparr>)"

lemma note_socket [simp]:
  "c_socket (note_sent now n s c) = s" "c_socket (note_blocked s c) = s"
  by (simp_all add: note_sent_def note_blocked_def Let_def)

text \<open>
  The loop of \<open>flush_output\<close>: whether the early return on an error was taken, and whether any
  bytes were sent.
\<close>

function flush_loop :: "time_point \<Rightarrow> bool \<Rightarrow> Connection \<Rightarrow> bool \<times> bool \<times> Connection" where
  "flush_loop now sent_any c =
     (if pending_output_bytes c > 0 then
        case send (c_socket c) (drop (c_output_sent c) (c_output c)) of
          (Inr count, s) \<Rightarrow>
            if count > 0 then flush_loop now True (note_sent now count s c)
            else (False, sent_any, note_blocked s c)
        | (Inl e, s) \<Rightarrow>
            if e = EINTR then flush_loop now sent_any (c\<lparr>c_socket := s\<rparr>)
            else if e = EAGAIN \<or> e = EWOULDBLOCK then (False, sent_any, note_blocked s c)
            else (True, sent_any,
                  let d = c\<lparr>c_socket := s\<rparr>
                  in close_now (''send() failed: '' @ conn_errno_message d e) d)
      else (False, sent_any, c))"
  by pat_completeness auto
termination
  by (relation "measure (\<lambda>(now, sent_any, c). length (sk_tx (c_socket c)))")
     (auto dest: send_frame send_frame [OF sym])

declare flush_loop.simps [simp del]

text \<open>Reclaiming the sent prefix of the output buffer.\<close>

definition reclaim_output :: "Connection \<Rightarrow> Connection" where
  "reclaim_output c =
     (if c_output_sent c = length (c_output c) then c\<lparr>c_output := [], c_output_sent := 0\<rparr>
      else if length (c_output c) div 2 \<le> c_output_sent c
      then c\<lparr>c_output := drop (c_output_sent c) (c_output c), c_output_sent := 0\<rparr>
      else c)"

definition flush_output :: "time_point \<Rightarrow> Connection \<Rightarrow> bool \<times> Connection" where
  "flush_output now c =
     (case flush_loop now False c of
        (True, sent_any, d) \<Rightarrow> (sent_any, d)
      | (False, sent_any, d) \<Rightarrow> (sent_any, reclaim_output d))"

section \<open>Reasoning about the loops\<close>

text \<open>
  Rules for what relates the state before a loop to the state after it: one case for every way
  an iteration can go.
\<close>

lemma respond_loop_rule [consumes 1, case_names stop incomplete error complete]:
  assumes "respond_loop b c = Some (r, d)"
    and "\<And>b c. \<not> (c_state c = Active \<and> pending_output_bytes c < output_high_water (c_config c)) \<Longrightarrow>
      P b c b c"
    and "\<And>b c p. c_state c = Active \<Longrightarrow> pending_output_bytes c < output_high_water (c_config c) \<Longrightarrow>
      parser_next (c_parser c) = Some (Incomplete, p) \<Longrightarrow> P b c b (c\<lparr>c_parser := p\<rparr>)"
    and "\<And>b c e p. c_state c = Active \<Longrightarrow> pending_output_bytes c < output_high_water (c_config c) \<Longrightarrow>
      parser_next (c_parser c) = Some (Error e, p) \<Longrightarrow> P b c True (answer_error e (c\<lparr>c_parser := p\<rparr>))"
    and "\<And>b c q p r d. c_state c = Active \<Longrightarrow>
      pending_output_bytes c < output_high_water (c_config c) \<Longrightarrow>
      parser_next (c_parser c) = Some (Complete q, p) \<Longrightarrow>
      P True (answer_request q (c\<lparr>c_parser := p\<rparr>)) r d \<Longrightarrow> P b c r d"
  shows "P b c r d"
  using assms(1)
proof (induction b c arbitrary: r d rule: respond_loop.induct)
  case (1 b c)
  note unfold = respond_loop.simps [of b c]
  show ?case
  proof (cases "c_state c = Active \<and> pending_output_bytes c < output_high_water (c_config c)")
    case False
    with "1.prems" unfold assms(2) show ?thesis by (simp split: if_splits)
  next
    case True
    with "1.prems" unfold obtain out p where out: "parser_next (c_parser c) = Some (out, p)"
      by (auto split: option.splits)
    show ?thesis
    proof (cases out)
      case (Complete q)
      from "1.prems" unfold True out Complete
      have "respond_loop True (answer_request q (c\<lparr>c_parser := p\<rparr>)) = Some (r, d)" by simp
      from "1.IH" [OF True out refl Complete this] True out Complete assms(5) show ?thesis by blast
    qed (use "1.prems" unfold True out assms(3,4) in auto)
  qed
qed

lemma flush_loop_rule [consumes 1, case_names finished sent retry blocked failed]:
  assumes "flush_loop now b c = (early, sent, d)"
    and "\<And>b c. pending_output_bytes c = 0 \<Longrightarrow> P b c False b c"
    and "\<And>b c n s early sent d. 0 < pending_output_bytes c \<Longrightarrow>
      send (c_socket c) (drop (c_output_sent c) (c_output c)) = (Inr n, s) \<Longrightarrow> 0 < n \<Longrightarrow>
      P True (note_sent now n s c) early sent d \<Longrightarrow> P b c early sent d"
    and "\<And>b c s early sent d. 0 < pending_output_bytes c \<Longrightarrow>
      send (c_socket c) (drop (c_output_sent c) (c_output c)) = (Inl EINTR, s) \<Longrightarrow>
      P b (c\<lparr>c_socket := s\<rparr>) early sent d \<Longrightarrow> P b c early sent d"
    and "\<And>b c out s. 0 < pending_output_bytes c \<Longrightarrow>
      send (c_socket c) (drop (c_output_sent c) (c_output c)) = (out, s) \<Longrightarrow>
      out \<in> {Inr 0, Inl EAGAIN, Inl EWOULDBLOCK} \<Longrightarrow> P b c False b (note_blocked s c)"
    and "\<And>b c e s t. 0 < pending_output_bytes c \<Longrightarrow>
      send (c_socket c) (drop (c_output_sent c) (c_output c)) = (Inl e, s) \<Longrightarrow>
      e \<notin> {EINTR, EAGAIN, EWOULDBLOCK} \<Longrightarrow> P b c True b (close_now t (c\<lparr>c_socket := s\<rparr>))"
  shows "P b c early sent d"
proof -
  have "n = now \<Longrightarrow> flush_loop n b c = (early, sent, d) \<Longrightarrow> P b c early sent d" for n
  proof (induction n b c arbitrary: early sent d rule: flush_loop.induct)
    case (1 n b c)
    note unfold = flush_loop.simps [of now b c]
    obtain out s where out: "send (c_socket c) (drop (c_output_sent c) (c_output c)) = (out, s)"
      by fastforce
    show ?case
    proof (cases "pending_output_bytes c > 0")
      case False
      with "1.prems" unfold assms(2) show ?thesis by auto
    next
      case True
      note step = "1.prems"(2) [unfolded "1.prems"(1) unfold]
      show ?thesis
      proof (cases out)
        case (Inr k)
        show ?thesis
        proof (cases "k > 0")
          case k: True
          with step True out Inr have "flush_loop n True (note_sent n k s c) = (early, sent, d)"
            by (simp add: "1.prems"(1))
          from "1.IH"(2) [OF True out [symmetric] Inr k "1.prems"(1) this] show ?thesis
            using assms(3) [OF True out [unfolded Inr] k] by (simp add: "1.prems"(1))
        next
          case False
          with step True out Inr assms(5) [OF True out] show ?thesis by simp
        qed
      next
        case (Inl e)
        show ?thesis
        proof (cases "e = EINTR")
          case e: True
          with step True out Inl have "flush_loop n b (c\<lparr>c_socket := s\<rparr>) = (early, sent, d)"
            by (simp add: "1.prems"(1))
          from "1.IH"(1) [OF True out [symmetric] Inl e "1.prems"(1) this] show ?thesis
            using assms(4) [OF True] out Inl e by simp
        next
          case False
          with step True out Inl assms(5) [OF True out] assms(6) [OF True, of e s] show ?thesis
            by (cases "e = EAGAIN \<or> e = EWOULDBLOCK") (auto simp: Let_def)
        qed
      qed
    qed
  qed
  with assms(1) show ?thesis by simp
qed

section \<open>Progress\<close>

text \<open>
  What bounds the work left to one event: the unparsed bytes, the sends the kernel will still
  accept, and whether a response may still be queued.
\<close>

definition conn_weight :: "Connection \<Rightarrow> nat" where
  "conn_weight c =
     parser_weight (c_parser c) + length (sk_tx (c_socket c)) + (if c_state c = Active then 1 else 0)"

lemma parser_weight_fail: "fail p e = (out, q) \<Longrightarrow> parser_weight q = 0"
  by (auto simp: fail_def parser_weight_def buffered_bytes_def Let_def)

lemma next_body_weight_le: "next_body p = (out, q) \<Longrightarrow> parser_weight q \<le> 2 * buffered_bytes p + 1"
  by (auto simp: next_body_def parser_weight_def buffered_bytes_def Let_def split: if_splits)

lemma take_head_weight:
  assumes "take_head p e = Some (out, q)" and "rp_start p < e" and "e \<le> length (rp_buffer p)"
  shows "parser_weight q \<le> 2 * buffered_bytes p"
proof -
  let ?t = "\<lambda>r n. (consume p (e - rp_start p))\<lparr>rp_pending := r, rp_body_length := n, rp_state := Body\<rparr>"
  from assms(1) consider (failed) x where "fail p x = (out, q)"
    | (body) r n where "next_body (?t r n) = (out, q)"
    by (auto simp: take_head_def Let_def split: if_splits sum.splits Option.bind_splits)
  then show ?thesis
  proof cases
    case failed
    from parser_weight_fail [OF this] show ?thesis by simp
  next
    case body
    from next_body_weight_le [OF body] assms(2,3) show ?thesis
      by (simp add: buffered_bytes_def)
  qed
qed

lemma parser_next_weight_le:
  assumes "parser_next p = Some (out, q)"
  shows "parser_weight q \<le> parser_weight p"
proof (cases "rp_state p")
  case Head
  let ?s = "skip_empty_lines_before_request p"
  obtain e t where found: "find_end_of_head ?s = (e, t)" by fastforce
  have "parser_weight q \<le> 2 * buffered_bytes ?s"
  proof (cases e)
    case None
    then have t: "buffered_bytes t = buffered_bytes ?s" "rp_state t = Head"
      using found Head by (auto simp: find_end_of_head_def buffered_bytes_def split: sum.splits)
    have "q = t \<or> (\<exists>x. fail t x = (out, q))"
      using assms Head found None
      by (auto simp: parser_next_def next_head_def Let_def split: if_splits)
    then show ?thesis
      using t parser_weight_fail by (auto simp: parser_weight_def [of t])
  next
    case (Some k)
    with assms Head found have "take_head t k = Some (out, q)"
      by (simp add: parser_next_def next_head_def)
    with take_head_weight find_end_of_head_bounds found Some show ?thesis by blast
  qed
  with skip_buffered [of p] show ?thesis by (simp add: parser_weight_def [of p])
next
  case Body
  with assms next_body_weight_le [of p out q] show ?thesis
    by (simp add: parser_next_def parser_weight_def [of p])
next
  case Failed
  with assms show ?thesis by (simp add: parser_next_def)
qed

lemma answer_sel:
  "c_socket (answer_request r c) = c_socket c" "c_socket (answer_error e c) = c_socket c"
  "c_state (answer_error e c) = Closing"
  "c_state (answer_request r c) = c_state c \<or> c_state (answer_request r c) = Closing"
  by (simp_all add: answer_request_def answer_error_def error_response_def Let_def case_prod_beta)

lemma respond_loop_weight:
  "respond_loop b c = Some (r, d) \<Longrightarrow>
     conn_weight d \<le> conn_weight c \<and> (r \<and> \<not> b \<longrightarrow> conn_weight d < conn_weight c)"
proof (induction rule: respond_loop_rule)
  case (complete b c q p r d)
  have "conn_weight (answer_request q (c\<lparr>c_parser := p\<rparr>)) < conn_weight c"
    using parser_next_weight [OF complete(3)] complete(1) by (simp add: conn_weight_def answer_sel)
  with complete(4) show ?case by simp
qed (auto simp: conn_weight_def answer_sel dest: parser_next_weight_le)

lemma close_now_sel [simp]:
  "c_parser (close_now t c) = c_parser c" "c_output (close_now t c) = c_output c"
  "c_output_sent (close_now t c) = c_output_sent c" "c_id (close_now t c) = c_id c"
  "c_config (close_now t c) = c_config c" "c_handler (close_now t c) = c_handler c"
  "c_stats (close_now t c) = c_stats c" "c_state (close_now t c) = Closed"
  "c_lingered_bytes (close_now t c) = c_lingered_bytes c"
  "c_peer_finished_sending (close_now t c) = c_peer_finished_sending c"
  "sk_tx (c_socket (close_now t c)) = sk_tx (c_socket c)"
  "sk_rx (c_socket (close_now t c)) = sk_rx (c_socket c)"
  "sk_wire (c_socket (close_now t c)) = sk_wire (c_socket c)"
  "sk_delivered (c_socket (close_now t c)) = sk_delivered (c_socket c)"
  by (auto simp: close_now_def close_socket_def)

lemma note_sel [simp]:
  "c_parser (note_sent now n s c) = c_parser c" "c_parser (note_blocked s c) = c_parser c"
  "c_state (note_sent now n s c) = c_state c" "c_state (note_blocked s c) = c_state c"
  "c_output (note_sent now n s c) = c_output c" "c_output (note_blocked s c) = c_output c"
  "c_output_sent (note_sent now n s c) = c_output_sent c + n"
  "c_output_sent (note_blocked s c) = c_output_sent c"
  "c_config (note_sent now n s c) = c_config c" "c_config (note_blocked s c) = c_config c"
  "c_handler (note_sent now n s c) = c_handler c" "c_handler (note_blocked s c) = c_handler c"
  "c_id (note_sent now n s c) = c_id c" "c_id (note_blocked s c) = c_id c"
  "c_peer_finished_sending (note_sent now n s c) = c_peer_finished_sending c"
  "c_peer_finished_sending (note_blocked s c) = c_peer_finished_sending c"
  "c_lingered_bytes (note_sent now n s c) = c_lingered_bytes c"
  "c_lingered_bytes (note_blocked s c) = c_lingered_bytes c"
  "st_requests (c_stats (note_sent now n s c)) = st_requests (c_stats c)"
  "st_requests (c_stats (note_blocked s c)) = st_requests (c_stats c)"
  by (simp_all add: note_sent_def note_blocked_def Let_def)

text \<open>
  What writing does to a connection: only the sent prefix, the socket's output side, counters,
  log, activity time and (on an error) the state change, and no byte is lost or repeated.
\<close>

definition unsent :: "Connection \<Rightarrow> string" where
  "unsent c = drop (c_output_sent c) (c_output c)"

definition output_stream :: "Connection \<Rightarrow> string" where
  "output_stream c = sk_wire (c_socket c) @ unsent c"

lemma pending_unsent: "pending_output_bytes c = length (unsent c)"
  by (simp add: pending_output_bytes_def unsent_def)

definition same_core :: "Connection \<Rightarrow> Connection \<Rightarrow> bool" where
  "same_core c d \<longleftrightarrow>
     c_parser d = c_parser c \<and> c_config d = c_config c \<and> c_handler d = c_handler c \<and>
     c_id d = c_id c \<and> c_peer_finished_sending d = c_peer_finished_sending c \<and>
     c_lingered_bytes d = c_lingered_bytes c \<and>
     st_requests (c_stats d) = st_requests (c_stats c) \<and>
     sk_rx (c_socket d) = sk_rx (c_socket c) \<and>
     sk_delivered (c_socket d) = sk_delivered (c_socket c)"

text \<open>The descriptor is held exactly as long as the connection is not closed.\<close>

definition fd_ok :: "Connection \<Rightarrow> bool" where
  "fd_ok c \<longleftrightarrow> (sk_open (c_socket c) \<longleftrightarrow> c_state c \<noteq> Closed)"

definition written :: "Connection \<Rightarrow> Connection \<Rightarrow> bool" where
  "written c d \<longleftrightarrow>
     same_core c d \<and> output_stream d = output_stream c \<and>
     length (unsent d) \<le> length (unsent c) \<and>
     (c_output_sent c \<le> length (c_output c) \<longrightarrow> c_output_sent d \<le> length (c_output d)) \<and>
     length (sk_tx (c_socket d)) \<le> length (sk_tx (c_socket c)) \<and>
     (c_state d = c_state c \<or> c_state d = Closed) \<and> (fd_ok c \<longrightarrow> fd_ok d)"

lemma written_refl [simp]: "written c c"
  by (simp add: written_def same_core_def)

lemma written_trans: "written c d \<Longrightarrow> written d e \<Longrightarrow> written c e"
  by (auto simp: written_def same_core_def)

lemma written_tx: "written c d \<Longrightarrow> length (sk_tx (c_socket d)) \<le> length (sk_tx (c_socket c))"
  by (simp add: written_def)

lemma written_note_sent:
  assumes "send (c_socket c) (drop (c_output_sent c) (c_output c)) = (Inr n, s)"
  shows "written c (note_sent now n s c) \<and> length (sk_tx s) < length (sk_tx (c_socket c))"
proof -
  from send_frame [OF assms] have s: "sk_rx s = sk_rx (c_socket c)"
    "sk_delivered s = sk_delivered (c_socket c)" "n \<le> length (unsent c)"
    "sk_wire s = sk_wire (c_socket c) @ take n (unsent c)"
    "length (sk_tx s) < length (sk_tx (c_socket c))" by (auto simp: unsent_def)
  have "unsent (note_sent now n s c) = drop n (unsent c)"
    by (simp add: unsent_def add.commute)
  then have "output_stream (note_sent now n s c) = output_stream c"
    "length (unsent (note_sent now n s c)) \<le> length (unsent c)"
    by (simp_all add: output_stream_def s(4))
  moreover have "c_output_sent c \<le> length (c_output c) \<Longrightarrow> c_output_sent c + n \<le> length (c_output c)"
    using s(3) by (simp add: unsent_def)
  ultimately show ?thesis
    using s send_frame [OF assms] by (simp add: written_def same_core_def fd_ok_def)
qed

lemma written_send_error:
  assumes "send (c_socket c) (drop (c_output_sent c) (c_output c)) = (Inl e, s)"
  shows "written c (c\<lparr>c_socket := s\<rparr>)" and "written c (note_blocked s c)"
  using send_frame [OF assms]
  by (auto simp: written_def same_core_def output_stream_def unsent_def fd_ok_def)

lemma written_send_nothing:
  assumes "send (c_socket c) (drop (c_output_sent c) (c_output c)) = (Inr 0, s)"
  shows "written c (note_blocked s c)"
  using send_frame [OF assms]
  by (auto simp: written_def same_core_def output_stream_def unsent_def fd_ok_def)

lemma fd_ok_close [simp]: "fd_ok c \<Longrightarrow> fd_ok (close_now t c)"
  by (simp add: fd_ok_def close_now_def close_socket_def)

lemma written_close: "written c (close_now t c)"
  by (simp add: written_def same_core_def output_stream_def unsent_def)

lemma flush_loop_written:
  "flush_loop now b c = (early, sent, d) \<Longrightarrow> written c d \<and> (b \<longrightarrow> sent) \<and>
     (sent \<or> unsent d = unsent c) \<and>
     (sent \<and> \<not> b \<longrightarrow> length (sk_tx (c_socket d)) < length (sk_tx (c_socket c))) \<and>
     (early \<longrightarrow> c_state d = Closed)"
proof (induction rule: flush_loop_rule)
  case (sent b c n s early sent d)
  then show ?case
    using written_note_sent [of c n s now] by (auto intro: written_trans dest: written_tx)
next
  case (retry b c s early sent d)
  moreover have "unsent (c\<lparr>c_socket := s\<rparr>) = unsent c" by (simp add: unsent_def)
  ultimately show ?case
    using written_send_error(1) [of c EINTR s] by (auto intro: written_trans dest: written_tx)
next
  case (blocked b c out s)
  then show ?case
    using written_send_error(2) [of c _ s] written_send_nothing [of c s] by (auto simp: unsent_def)
next
  case (failed b c e s t)
  then show ?case
    using written_trans [OF written_send_error(1) written_close, of c e s t] by (auto simp: unsent_def)
qed simp

lemma written_reclaim: "written c (reclaim_output c)"
  by (auto simp: reclaim_output_def written_def same_core_def output_stream_def unsent_def fd_ok_def)

lemma flush_output_written:
  assumes "flush_output now c = (sent, d)"
  shows "written c d" and "sent \<Longrightarrow> length (sk_tx (c_socket d)) < length (sk_tx (c_socket c))"
    and "\<not> sent \<Longrightarrow> unsent d = unsent c"
proof -
  obtain early b e where loop: "flush_loop now False c = (early, b, e)" by (metis prod_cases3)
  with assms have d: "sent = b" "d = (if early then e else reclaim_output e)"
    by (auto simp: flush_output_def split: bool.splits)
  note w = flush_loop_written [OF loop] written_reclaim [of e]
  then show "written c d" using d by (auto intro: written_trans)
  show "sent \<Longrightarrow> length (sk_tx (c_socket d)) < length (sk_tx (c_socket c))"
    using w d written_tx [OF w(2)] by auto
  show "\<not> sent \<Longrightarrow> unsent d = unsent c"
    using w(1) d by (auto simp: reclaim_output_def unsent_def)
qed

lemma flush_output_weight:
  assumes "flush_output now c = (sent, d)"
  shows "conn_weight d \<le> conn_weight c \<and> (sent \<longrightarrow> conn_weight d < conn_weight c)"
  using flush_output_written [OF assms]
  by (auto simp: conn_weight_def written_def same_core_def)

section \<open>Driving the connection\<close>

text \<open>One pass of the loop of \<open>advance\<close>: whether it made progress.\<close>

definition advance_pass :: "time_point \<Rightarrow> Connection \<Rightarrow> (bool \<times> Connection) option" where
  "advance_pass now c = do {
     (responded, d) \<leftarrow> (if c_state c = Active then respond_to_buffered_requests c
                        else Some (False, c));
     let (sent, e) = flush_output now d;
     Some (responded \<or> sent, e)
   }"

lemma advance_pass_weight:
  assumes "advance_pass now c = Some (progress, d)"
  shows "conn_weight d \<le> conn_weight c \<and> (progress \<longrightarrow> conn_weight d < conn_weight c)"
proof -
  obtain responded e sent where e: "(if c_state c = Active then respond_to_buffered_requests c
      else Some (False, c)) = Some (responded, e)"
    and flush: "flush_output now e = (sent, d)" and progress: "progress = (responded \<or> sent)"
    using assms by (auto simp: advance_pass_def Let_def split: Option.bind_splits prod.splits)
  have "conn_weight e \<le> conn_weight c \<and> (responded \<longrightarrow> conn_weight e < conn_weight c)"
    using e respond_loop_weight [of False c responded e]
    by (auto simp: respond_to_buffered_requests_def split: if_splits)
  with flush_output_weight [OF flush] progress show ?thesis by auto
qed

function advance_loop :: "time_point \<Rightarrow> Connection \<Rightarrow> Connection option" where
  "advance_loop now c =
     (if c_state c = Active \<or> c_state c = Closing then
        case advance_pass now c of
          None \<Rightarrow> None
        | Some (progress, d) \<Rightarrow> if progress then advance_loop now d else Some d
      else Some c)"
  by pat_completeness auto
termination
  by (relation "measure (\<lambda>(now, c). conn_weight c)") (auto dest: advance_pass_weight)

declare advance_loop.simps [simp del]

lemma advance_pass_cases:
  assumes "advance_pass now c = Some (b, d)"
  obtains (inactive) "c_state c \<noteq> Active" "flush_output now c = (b, d)"
  | (active) r e sent where "c_state c = Active" "respond_loop False c = Some (r, e)"
      "flush_output now e = (sent, d)" "b = (r \<or> sent)"
  using assms
  by (cases "c_state c = Active")
     (auto simp: advance_pass_def respond_to_buffered_requests_def Let_def
       split: Option.bind_splits prod.splits)

lemma advance_loop_rule [consumes 1, case_names stop last again]:
  assumes "advance_loop now c = Some d"
    and "\<And>c. \<not> (c_state c = Active \<or> c_state c = Closing) \<Longrightarrow> P c c"
    and "\<And>c d. c_state c = Active \<or> c_state c = Closing \<Longrightarrow> advance_pass now c = Some (False, d) \<Longrightarrow> P c d"
    and "\<And>c d e. c_state c = Active \<or> c_state c = Closing \<Longrightarrow> advance_pass now c = Some (True, e) \<Longrightarrow>
      P e d \<Longrightarrow> P c d"
  shows "P c d"
proof -
  have "n = now \<Longrightarrow> advance_loop n c = Some d \<Longrightarrow> P c d" for n
  proof (induction n c rule: advance_loop.induct)
    case (1 n c)
    note unfold = advance_loop.simps [of n c]
    show ?case
    proof (cases "c_state c = Active \<or> c_state c = Closing")
      case False
      with "1.prems" unfold assms(2) show ?thesis by auto
    next
      case True
      with "1.prems" unfold obtain b e where e: "advance_pass n c = Some (b, e)"
        by (auto split: option.splits)
      with "1.prems" unfold True "1.IH" [OF True e refl] assms(3,4) [OF True] show ?thesis
        by (cases b) auto
    qed
  qed
  with assms(1) show ?thesis by simp
qed

definition begin_lingering_close :: "time_point \<Rightarrow> Connection \<Rightarrow> Connection" where
  "begin_lingering_close now c =
     (case shutdown_write (c_socket c) of
        (False, s) \<Rightarrow> close_now ''closed after final response'' (c\<lparr>c_socket := s\<rparr>)
      | (True, s) \<Rightarrow>
          (conn_log Debug
             ''final response sent; shutdown(SHUT_WR) queued FIN, discarding input until the client closes''
             (c\<lparr>c_socket := s\<rparr>))
            \<lparr>c_state := Draining,
             c_linger_deadline := now + milliseconds (linger_timeout (c_config c))\<rparr>)"

text \<open>What \<open>advance\<close> does once its loop has stopped.\<close>

definition advance_end :: "time_point \<Rightarrow> Connection \<Rightarrow> Connection" where
  "advance_end now c =
     (if c_state c = Active \<and> c_peer_finished_sending c \<and> pending_output_bytes c = 0 then
        close_now (if has_partial_request (c_parser c)
                   then ''client closed the connection in the middle of a request''
                   else ''client closed the connection'') c
      else if c_state c = Closing \<and> pending_output_bytes c = 0 then
        if c_peer_finished_sending c then close_now ''closed after final response'' c
        else begin_lingering_close now c
      else c)"

definition advance :: "time_point \<Rightarrow> Connection \<Rightarrow> Connection option" where
  "advance now c = map_option (advance_end now) (advance_loop now c)"

definition discard_lingering_input :: "Connection \<Rightarrow> Connection" where
  "discard_lingering_input c =
     (case recv_retry (c_socket c) recv_chunk_bytes of
        (Inr bytes, s) \<Rightarrow>
          if bytes \<noteq> [] then
            let d = c\<lparr>c_socket := s, c_lingered_bytes := c_lingered_bytes c + length bytes\<rparr>
            in if max_linger_bytes (c_config c) < c_lingered_bytes d
               then close_now ''closed after final response (discard limit reached)'' d
               else d
          else close_now ''closed after final response'' (c\<lparr>c_socket := s\<rparr>)
      | (Inl e, s) \<Rightarrow>
          if e = EAGAIN \<or> e = EWOULDBLOCK then c\<lparr>c_socket := s\<rparr>
          else close_now ''closed after final response'' (c\<lparr>c_socket := s\<rparr>))"

definition on_poll_events :: "PollFlag set \<Rightarrow> time_point \<Rightarrow> Connection \<Rightarrow> Connection option" where
  "on_poll_events revents now c =
     (if c_state c = Closed then Some c
      else if POLLNVAL \<in> revents then Some (close_now ''invalid socket descriptor'' c)
      else if POLLERR \<in> revents
      then Some (close_now (''socket error: '' @ conn_errno_message c (sk_error (c_socket c))) c)
      else if c_state c = Draining
      then Some (if POLLIN \<in> revents \<or> POLLHUP \<in> revents then discard_lingering_input c else c)
      else advance now
        (if (POLLIN \<in> revents \<or> POLLHUP \<in> revents) \<and> wants_to_read c
         then read_from_socket now c else c))"

definition deadline :: "Connection \<Rightarrow> time_point" where
  "deadline c =
     (case c_state c of
        Active \<Rightarrow> c_last_activity c + milliseconds (idle_timeout (c_config c))
      | Closing \<Rightarrow> c_last_activity c + milliseconds (idle_timeout (c_config c))
      | Draining \<Rightarrow> c_linger_deadline c
      | Closed \<Rightarrow> time_point_max)"

text \<open>The response to a request that was started and not finished in time.\<close>

definition timeout_response :: Response where
  "timeout_response =
     (text_response 408 ''timed out waiting for the rest of the request'')
       \<lparr>resp_close_connection := True\<rparr>"

definition on_deadline :: "time_point \<Rightarrow> Connection \<Rightarrow> Connection option" where
  "on_deadline now c =
     (case c_state c of
        Active \<Rightarrow>
          if pending_output_bytes c > 0
          then Some (close_now ''idle timeout: client stopped reading responses'' c)
          else if has_partial_request (c_parser c) then
            advance now
              ((queue_response timeout_response
                 (conn_log Info
                   (''#'' @ show_u64 (st_requests (c_stats c) + 1) @
                    '' incomplete request timed out -> 408 Request Timeout | close'') c))
               \<lparr>c_last_activity := now\<rparr>)
          else Some (close_now ''idle timeout (no new request)'' c)
      | Closing \<Rightarrow> Some (close_now ''timed out writing the final response'' c)
      | Draining \<Rightarrow> Some (close_now ''closed after final response (linger timeout)'' c)
      | Closed \<Rightarrow> Some c)"

text \<open>The ways an event can go.\<close>

lemma on_poll_events_cases:
  assumes "on_poll_events revents now c = Some d"
  obtains (idle) "d = c" "c_state c = Draining \<or> c_state c = Closed"
  | (closes) t where "d = close_now t c"
  | (discards) "c_state c = Draining" "d = discard_lingering_input c"
  | (reads) "c_state c = Active" "wants_to_read c" "advance now (read_from_socket now c) = Some d"
  | (advances) "c_state c = Active \<or> c_state c = Closing" "advance now c = Some d"
  using assms
  by (cases "c_state c")
     (auto simp: on_poll_events_def wants_to_read_def split: if_splits)

lemma on_deadline_cases:
  assumes "on_deadline now c = Some d"
  obtains (closes) t where "d = close_now t c"
  | (times_out) t where "c_state c = Active" "pending_output_bytes c = 0"
      "has_partial_request (c_parser c)"
      "advance now ((queue_response timeout_response (conn_log Info t c))\<lparr>c_last_activity := now\<rparr>) = Some d"
proof (cases "c_state c")
  case Closed
  then have "d = close_now [] c" using assms by (simp add: on_deadline_def close_now_def)
  then show ?thesis by (rule closes)
qed (use assms closes times_out in \<open>auto simp: on_deadline_def split: if_splits\<close>)

end
