(* ===== verification/Conn_Output.thy ===== *)
theory Conn_Output
  imports Connection
begin

text \<open>
  What a connection writes. The specification is a function of the received bytes alone: the
  responses to the requests the stream contains, in order, up to the first one that closes
  the connection. Shown here: whatever the socket does (short writes, blocking, interrupts,
  any grouping of the input), the bytes handed to the kernel and those still queued are a
  prefix of that, nothing is lost, repeated or reordered, and every call returns.
\<close>

section \<open>The specification of the output\<close>

text \<open>The response of the handler, or the one that stands for an exception.\<close>

definition handled :: "RequestHandler \<Rightarrow> Request \<Rightarrow> Response" where
  "handled h request =
     (case h request of
        Inr response \<Rightarrow> response
      | Inl exn \<Rightarrow> (text_response 500 ''internal server error'')\<lparr>resp_close_connection := True\<rparr>)"

function replies :: "RequestHandler \<Rightarrow> u64 \<Rightarrow> u64 \<Rightarrow> Framer \<Rightarrow> string" where
  "replies h i n f =
     (case framer_next f of
        (Incomplete, g) \<Rightarrow> []
      | (Error e, g) \<Rightarrow> serialize (stamp_response i (n + 1) (error_response e))
      | (Complete request, g) \<Rightarrow>
          let response = finish_response request (handled h request)
          in serialize (stamp_response i (n + 1) response) @
             (if resp_close_connection response then [] else replies h i (n + 1) g))"
  by pat_completeness auto
termination
  by (relation "measure (\<lambda>(h, i, n, f). framer_weight f)") (auto dest: framer_next_weight [OF sym])

declare replies.simps [simp del]

text \<open>What a connection has to answer to a stream of bytes, from its first byte on.\<close>

definition promised :: "Connection \<Rightarrow> string \<Rightarrow> string" where
  "promised c stream =
     replies (c_handler c) (c_id c) 0
       (framer_push (new_framer (cfg_limits (c_config c))) stream)"

text \<open>What it still has to answer when the bytes \<open>bs\<close> arrive.\<close>

definition still_due :: "Connection \<Rightarrow> string \<Rightarrow> string" where
  "still_due c bs =
     replies (c_handler c) (c_id c) (st_requests (c_stats c)) (framer_push (view (c_parser c)) bs)"

abbreviation delivered :: "Connection \<Rightarrow> string" where
  "delivered c \<equiv> sk_delivered (c_socket c)"

definition timeout_text :: "Connection \<Rightarrow> u64 \<Rightarrow> string" where
  "timeout_text c n = serialize (stamp_response (c_id c) n timeout_response)"

text \<open>The final answer has been queued: the promised responses, or those and the timeout.\<close>

definition answered :: "Connection \<Rightarrow> bool" where
  "answered c \<longleftrightarrow>
     (\<forall>bs. output_stream c = promised c (delivered c @ bs)) \<or>
     (\<exists>s n. prefix s (delivered c) \<and> output_stream c = promised c s @ timeout_text c n)"

text \<open>The first of the two: no byte that may still arrive changes what the connection owes.\<close>

definition all_answered :: "Connection \<Rightarrow> bool" where
  "all_answered c \<longleftrightarrow> (\<forall>bs. output_stream c = promised c (delivered c @ bs))"

definition cut_short :: "Connection \<Rightarrow> bool" where
  "cut_short c \<longleftrightarrow>
     (\<exists>s. prefix s (delivered c) \<and>
        (prefix (output_stream c) (promised c s) \<or>
         (\<exists>n. output_stream c = promised c s @ timeout_text c n)))"

definition on_track :: "Connection \<Rightarrow> bool" where
  "on_track c \<longleftrightarrow>
     (case c_state c of
        Active \<Rightarrow> (\<forall>bs. output_stream c @ still_due c bs = promised c (delivered c @ bs))
      | Closing \<Rightarrow> answered c
      | Draining \<Rightarrow> answered c
      | Closed \<Rightarrow> cut_short c)"

section \<open>Steps of the specification\<close>

lemma replies_push:
  assumes "0 < max_header_bytes (fr_limits f)"
  shows "framer_next f = (Incomplete, g) \<Longrightarrow>
      replies h i n (framer_push f bs) = replies h i n (framer_push g bs)"
    and "framer_next f = (Error e, g) \<Longrightarrow>
      replies h i n (framer_push f bs) = serialize (stamp_response i (n + 1) (error_response e))"
    and "framer_next f = (Complete r, g) \<Longrightarrow>
      replies h i n (framer_push f bs) =
        (let response = finish_response r (handled h r)
         in serialize (stamp_response i (n + 1) response) @
            (if resp_close_connection response then [] else replies h i (n + 1) (framer_push g bs)))"
proof -
  note later = framer_next_push [OF assms, of bs]
  show "replies h i n (framer_push f bs) = replies h i n (framer_push g bs)"
    if "framer_next f = (Incomplete, g)"
    using later that
    by (simp add: framer_later_def replies.simps [of h i n "framer_push f bs"]
        replies.simps [of h i n "framer_push g bs"])
  show "replies h i n (framer_push f bs) = serialize (stamp_response i (n + 1) (error_response e))"
    if "framer_next f = (Error e, g)"
    using later that by (simp add: framer_later_def replies.simps [of h i n "framer_push f bs"])
  show "replies h i n (framer_push f bs) =
        (let response = finish_response r (handled h r)
         in serialize (stamp_response i (n + 1) response) @
            (if resp_close_connection response then [] else replies h i (n + 1) (framer_push g bs)))"
    if "framer_next f = (Complete r, g)"
    using later that by (simp add: framer_later_def replies.simps [of h i n "framer_push f bs"])
qed

lemma answer_request_sel:
  "output_stream (answer_request r c) = output_stream c @
     serialize (stamp_response (c_id c) (st_requests (c_stats c) + 1)
       (finish_response r (handled (c_handler c) r)))" if "c_output_sent c \<le> length (c_output c)"
  using that
  by (simp add: output_stream_def unsent_def answer_request_def Let_def case_prod_beta)
     (simp add: run_handler_def handled_def split: sum.splits)

lemma answer_error_sel:
  "output_stream (answer_error e c) = output_stream c @
     serialize (stamp_response (c_id c) (st_requests (c_stats c) + 1) (error_response e))"
  if "c_output_sent c \<le> length (c_output c)"
  using that by (simp add: output_stream_def unsent_def answer_error_def Let_def)

lemma answer_frame:
  "c_handler (answer_request r c) = c_handler c" "c_handler (answer_error e c) = c_handler c"
  "c_id (answer_request r c) = c_id c" "c_id (answer_error e c) = c_id c"
  "c_config (answer_request r c) = c_config c" "c_config (answer_error e c) = c_config c"
  "st_requests (c_stats (answer_request r c)) = st_requests (c_stats c) + 1"
  "c_state (answer_request r c) =
     (if resp_close_connection (finish_response r (handled (c_handler c) r)) then Closing else c_state c)"
  "c_output_sent (answer_request r c) = c_output_sent c"
  "c_output_sent (answer_error e c) = c_output_sent c"
  "length (c_output c) \<le> length (c_output (answer_request r c))"
  "length (c_output c) \<le> length (c_output (answer_error e c))"
  "c_peer_finished_sending (answer_request r c) = c_peer_finished_sending c"
  "c_peer_finished_sending (answer_error e c) = c_peer_finished_sending c"
  "c_lingered_bytes (answer_request r c) = c_lingered_bytes c"
  "c_lingered_bytes (answer_error e c) = c_lingered_bytes c"
  by (simp_all add: answer_request_def answer_error_def Let_def case_prod_beta)
     (simp add: run_handler_def handled_def split: sum.splits)

section \<open>The invariant\<close>

definition conn_inv :: "Connection \<Rightarrow> bool" where
  "conn_inv c \<longleftrightarrow>
     fd_ok c \<and> c_output_sent c \<le> length (c_output c) \<and>
     buffered_bytes (c_parser c) \<le> max_request_bytes (cfg_limits (c_config c)) \<and>
     (\<exists>s. parser_reachable (cfg_limits (c_config c)) s (c_parser c) \<and> prefix s (delivered c) \<and>
        (c_state c = Active \<longrightarrow> s = delivered c))"

definition conn_ok :: "Connection \<Rightarrow> bool" where
  "conn_ok c \<longleftrightarrow> conn_inv c \<and> on_track c"

text \<open>Limits under which a head can be received at all.\<close>

abbreviation head_allowed :: "Connection \<Rightarrow> bool" where
  "head_allowed c \<equiv> 0 < max_header_bytes (cfg_limits (c_config c))"

lemma conn_inv_parser:
  assumes "conn_inv c"
  shows "rp_inv (c_parser c)" and "rp_limits (c_parser c) = cfg_limits (c_config c)"
  using assms parser_reachable_inv by (auto simp: conn_inv_def)

lemma conn_parser_next:
  assumes "conn_inv c"
  obtains out p where "parser_next (c_parser c) = Some (out, p)"
    and "framer_next (view (c_parser c)) = (out, view p)"
    and "buffered_bytes p \<le> buffered_bytes (c_parser c)"
    and "\<And>s. parser_reachable (cfg_limits (c_config c)) s (c_parser c) \<Longrightarrow>
      parser_reachable (cfg_limits (c_config c)) s p"
proof -
  from conn_inv_parser(1) [OF assms] obtain out p where
    out: "parser_next (c_parser c) = Some (out, p)" "framer_next (view (c_parser c)) = (out, view p)"
    using parser_next_refines by metis
  moreover have "buffered_bytes p \<le> buffered_bytes (c_parser c)"
    using parser_next_weight_le [OF out(1)] by (auto simp: parser_weight_def split: if_splits)
  ultimately show ?thesis
    using that parser_reachable.asked by blast
qed

lemma head_allowed_view:
  "conn_inv c \<Longrightarrow> head_allowed c \<Longrightarrow> 0 < max_header_bytes (fr_limits (view (c_parser c)))"
  by (simp add: conn_inv_parser(2))

text \<open>One answer of the connection follows one step of the specification.\<close>

lemma incomplete_ok:
  assumes c: "conn_ok c" "head_allowed c" "c_state c = Active"
    and out: "parser_next (c_parser c) = Some (Incomplete, p)"
  shows "conn_ok (c\<lparr>c_parser := p\<rparr>)" and "framer_next (view p) = (Incomplete, view p)"
proof -
  from c(1) have inv: "conn_inv c" and track: "on_track c" by (auto simp: conn_ok_def)
  obtain step: "framer_next (view (c_parser c)) = (Incomplete, view p)"
    and room: "buffered_bytes p \<le> buffered_bytes (c_parser c)"
    and reach: "\<And>s. parser_reachable (cfg_limits (c_config c)) s (c_parser c) \<Longrightarrow>
      parser_reachable (cfg_limits (c_config c)) s p"
    using conn_parser_next [OF inv] out by (metis Pair_inject option.inject)
  have "still_due (c\<lparr>c_parser := p\<rparr>) bs = still_due c bs" for bs
    using replies_push(1) [OF head_allowed_view [OF inv c(2)] step] by (simp add: still_due_def)
  then have "on_track (c\<lparr>c_parser := p\<rparr>)"
    using track c(3) by (simp add: on_track_def promised_def output_stream_def unsent_def)
  moreover have "conn_inv (c\<lparr>c_parser := p\<rparr>)"
    using inv room reach unfolding conn_inv_def fd_ok_def by auto
  ultimately show "conn_ok (c\<lparr>c_parser := p\<rparr>)" by (simp add: conn_ok_def)
  show "framer_next (view p) = (Incomplete, view p)"
    using framer.next_incomplete [OF _ step] head_allowed_view [OF inv c(2)] by simp
qed

lemma answer_request_ok:
  assumes c: "conn_ok c" "head_allowed c" "c_state c = Active"
    and out: "parser_next (c_parser c) = Some (Complete r, p)"
  shows "conn_ok (answer_request r (c\<lparr>c_parser := p\<rparr>))"
    and "c_state (answer_request r (c\<lparr>c_parser := p\<rparr>)) = Closing \<Longrightarrow>
      all_answered (answer_request r (c\<lparr>c_parser := p\<rparr>))"
proof -
  let ?d = "answer_request r (c\<lparr>c_parser := p\<rparr>)"
  let ?resp = "finish_response r (handled (c_handler c) r)"
  from c(1) have inv: "conn_inv c" and track: "on_track c" by (auto simp: conn_ok_def)
  obtain step: "framer_next (view (c_parser c)) = (Complete r, view p)"
    and room: "buffered_bytes p \<le> buffered_bytes (c_parser c)"
    and reach: "\<And>s. parser_reachable (cfg_limits (c_config c)) s (c_parser c) \<Longrightarrow>
      parser_reachable (cfg_limits (c_config c)) s p"
    using conn_parser_next [OF inv] out by (metis Pair_inject option.inject)
  have sent: "c_output_sent (c\<lparr>c_parser := p\<rparr>) \<le> length (c_output (c\<lparr>c_parser := p\<rparr>))"
    using inv by (simp add: conn_inv_def)
  have inv': "conn_inv ?d"
    using inv room reach c(3) answer_frame(11) [of "c\<lparr>c_parser := p\<rparr>" r]
    by (auto simp: conn_inv_def fd_ok_def answer_frame answer_sel)
  have eq: "output_stream ?d @ (if resp_close_connection ?resp then [] else still_due ?d bs) =
      promised ?d (delivered ?d @ bs)" for bs
  proof -
    have "still_due c bs = serialize (stamp_response (c_id c) (st_requests (c_stats c) + 1) ?resp) @
        (if resp_close_connection ?resp then [] else still_due ?d bs)"
      using replies_push(3) [OF head_allowed_view [OF inv c(2)] step]
      by (simp add: still_due_def answer_frame Let_def)
    moreover have "output_stream c @ still_due c bs = promised c (delivered c @ bs)"
      using track c(3) by (simp add: on_track_def)
    moreover have "output_stream ?d = output_stream c @
        serialize (stamp_response (c_id c) (st_requests (c_stats c) + 1) ?resp)"
      using answer_request_sel [OF sent, of r] by (simp add: output_stream_def unsent_def)
    ultimately show ?thesis
      by (simp add: promised_def answer_frame answer_sel)
  qed
  then have "on_track ?d"
    using c(3) by (cases "resp_close_connection ?resp")
      (simp_all add: on_track_def answer_frame answered_def)
  with inv' show "conn_ok ?d" by (simp add: conn_ok_def)
  show "all_answered ?d" if "c_state ?d = Closing"
    using that c(3) eq by (simp add: answer_frame all_answered_def split: if_splits)
qed

lemma answer_error_ok:
  assumes c: "conn_ok c" "head_allowed c" "c_state c = Active"
    and out: "parser_next (c_parser c) = Some (Error e, p)"
  shows "conn_ok (answer_error e (c\<lparr>c_parser := p\<rparr>))"
    and "all_answered (answer_error e (c\<lparr>c_parser := p\<rparr>))"
proof -
  let ?d = "answer_error e (c\<lparr>c_parser := p\<rparr>)"
  from c(1) have inv: "conn_inv c" and track: "on_track c" by (auto simp: conn_ok_def)
  obtain step: "framer_next (view (c_parser c)) = (Error e, view p)"
    and room: "buffered_bytes p \<le> buffered_bytes (c_parser c)"
    and reach: "\<And>s. parser_reachable (cfg_limits (c_config c)) s (c_parser c) \<Longrightarrow>
      parser_reachable (cfg_limits (c_config c)) s p"
    using conn_parser_next [OF inv] out by (metis Pair_inject option.inject)
  have sent: "c_output_sent (c\<lparr>c_parser := p\<rparr>) \<le> length (c_output (c\<lparr>c_parser := p\<rparr>))"
    using inv by (simp add: conn_inv_def)
  have inv': "conn_inv ?d"
    using inv room reach c(3) answer_frame(12) [of "c\<lparr>c_parser := p\<rparr>" e]
    by (auto simp: conn_inv_def fd_ok_def answer_frame answer_sel)
  have eq: "output_stream ?d = promised ?d (delivered ?d @ bs)" for bs
  proof -
    have "output_stream c @ still_due c bs = promised c (delivered c @ bs)"
      using track c(3) by (simp add: on_track_def)
    moreover have "still_due c bs =
        serialize (stamp_response (c_id c) (st_requests (c_stats c) + 1) (error_response e))"
      using replies_push(2) [OF head_allowed_view [OF inv c(2)] step] by (simp add: still_due_def)
    moreover have "output_stream ?d = output_stream c @
        serialize (stamp_response (c_id c) (st_requests (c_stats c) + 1) (error_response e))"
      using answer_error_sel [OF sent, of e] by (simp add: output_stream_def unsent_def)
    ultimately show ?thesis by (simp add: promised_def answer_frame answer_sel)
  qed
  with inv' show "conn_ok ?d" by (simp add: conn_ok_def on_track_def answer_sel answered_def)
  show "all_answered ?d" unfolding all_answered_def using eq by blast
qed

section \<open>The loops keep the invariant and return\<close>

text \<open>No complete request is waiting, unless too much output is.\<close>

definition settled :: "Connection \<Rightarrow> bool" where
  "settled c \<longleftrightarrow>
     (c_state c = Active \<and> pending_output_bytes c < output_high_water (c_config c) \<longrightarrow>
        framer_next (view (c_parser c)) = (Incomplete, view (c_parser c)))"

definition kept :: "Connection \<Rightarrow> Connection \<Rightarrow> bool" where
  "kept c d \<longleftrightarrow>
     c_config d = c_config c \<and> c_handler d = c_handler c \<and> c_id d = c_id c \<and>
     c_peer_finished_sending d = c_peer_finished_sending c \<and>
     c_lingered_bytes d = c_lingered_bytes c \<and> delivered d = delivered c"

lemma kept_refl [simp]: "kept c c"
  by (simp add: kept_def)

lemma kept_trans: "kept c d \<Longrightarrow> kept d e \<Longrightarrow> kept c e"
  by (simp add: kept_def)

lemma kept_answers [simp]:
  "kept c (answer_request r (c\<lparr>c_parser := p\<rparr>))" "kept c (answer_error e (c\<lparr>c_parser := p\<rparr>))"
  "kept c (c\<lparr>c_parser := p\<rparr>)"
  by (simp_all add: kept_def answer_frame answer_sel)

lemma respond_loop_ok:
  "conn_ok c \<Longrightarrow> head_allowed c \<Longrightarrow>
     \<exists>r d. respond_loop b c = Some (r, d) \<and> conn_ok d \<and> kept c d \<and> settled d"
proof (induction b c rule: respond_loop.induct)
  case (1 b c)
  show ?case
  proof (cases "c_state c = Active \<and> pending_output_bytes c < output_high_water (c_config c)")
    case False
    then have "respond_loop b c = Some (b, c)"
      by (subst respond_loop.simps) (simp only: if_False)
    moreover have "settled c" using False by (auto simp: settled_def)
    ultimately show ?thesis using "1.prems" by simp
  next
    case True
    have "conn_inv c" using "1.prems" by (simp add: conn_ok_def)
    then obtain out p where out: "parser_next (c_parser c) = Some (out, p)"
      using conn_parser_next by blast
    show ?thesis
    proof (cases out)
      case Incomplete
      with "1.prems" True out incomplete_ok [of c p] show ?thesis
        by (simp add: respond_loop.simps [of b c] settled_def)
    next
      case (Error e)
      with "1.prems" True out answer_error_ok [of c e p] show ?thesis
        by (auto simp: respond_loop.simps [of b c] settled_def answer_sel)
    next
      case (Complete q)
      let ?d = "answer_request q (c\<lparr>c_parser := p\<rparr>)"
      have "conn_ok ?d"
        using "1.prems" True out Complete answer_request_ok [of c q p] by simp
      moreover have "head_allowed ?d" using "1.prems" by (simp add: answer_frame)
      ultimately obtain r e where "respond_loop True ?d = Some (r, e)" "conn_ok e" "kept ?d e"
        "settled e"
        using "1.IH" [OF True out refl Complete] by blast
      with True out Complete kept_trans [OF kept_answers(1)] show ?thesis
        by (simp add: respond_loop.simps [of b c])
    qed
  qed
qed

lemma answered_cut_short: "answered c \<Longrightarrow> cut_short c"
proof -
  assume "answered c"
  then consider "output_stream c = promised c (delivered c)"
    | s n where "prefix s (delivered c)" "output_stream c = promised c s @ timeout_text c n"
    unfolding answered_def by (metis append_Nil2)
  then show ?thesis
    unfolding cut_short_def by cases (metis prefix_order.refl, blast)
qed

lemma on_track_cut_short: "on_track c \<Longrightarrow> cut_short c"
proof (cases "c_state c")
  case Active
  assume "on_track c"
  with Active have "output_stream c @ still_due c [] = promised c (delivered c)"
    by (metis (mono_tags) on_track_def ConnState.simps(13) append_Nil2)
  then have "prefix (output_stream c) (promised c (delivered c))" by (metis prefixI)
  then show ?thesis unfolding cut_short_def by blast
qed (auto simp: on_track_def intro: answered_cut_short)

lemma written_kept: "written c d \<Longrightarrow> kept c d"
  by (simp add: written_def same_core_def kept_def)

lemma written_ok:
  assumes w: "written c d" and ok: "conn_ok c"
  shows "conn_ok d"
proof -
  from w have same: "output_stream d = output_stream c" "c_parser d = c_parser c"
    "c_handler d = c_handler c" "c_id d = c_id c" "c_config d = c_config c"
    "st_requests (c_stats d) = st_requests (c_stats c)" "delivered d = delivered c"
    "c_output_sent c \<le> length (c_output c) \<longrightarrow> c_output_sent d \<le> length (c_output d)"
    "c_state d = c_state c \<or> c_state d = Closed" "fd_ok c \<longrightarrow> fd_ok d"
    by (auto simp: written_def same_core_def)
  have spec: "promised d = promised c" "still_due d = still_due c" "timeout_text d = timeout_text c"
    by (simp_all add: promised_def still_due_def timeout_text_def same fun_eq_iff)
  have "conn_inv d"
    using ok same unfolding conn_ok_def conn_inv_def by auto
  moreover have "on_track d"
  proof (cases "c_state d = c_state c")
    case True
    then show ?thesis
      using ok unfolding conn_ok_def on_track_def answered_def cut_short_def
      by (cases "c_state c") (simp_all add: same(1,7) spec)
  next
    case False
    then have "c_state d = Closed" using same(9) by simp
    moreover have "cut_short c" using ok on_track_cut_short by (simp add: conn_ok_def)
    ultimately show ?thesis unfolding on_track_def cut_short_def by (simp add: same(1,7) spec)
  qed
  ultimately show ?thesis by (simp add: conn_ok_def)
qed

lemma advance_pass_ok:
  assumes "conn_ok c" and "head_allowed c"
  shows "\<exists>progress d. advance_pass now c = Some (progress, d) \<and> conn_ok d \<and> kept c d \<and>
     (\<not> progress \<longrightarrow> settled d)"
proof -
  obtain r e where e: "(if c_state c = Active then respond_to_buffered_requests c
      else Some (False, c)) = Some (r, e)" "conn_ok e" "kept c e" "settled e"
    using respond_loop_ok [OF assms, of False] assms(1)
    by (cases "c_state c = Active") (auto simp: respond_to_buffered_requests_def settled_def)
  obtain sent d where d: "flush_output now e = (sent, d)" by fastforce
  note w = flush_output_written [OF d]
  have "settled d" if "\<not> sent"
    using e(4) w(1) w(3) [OF that] that
    by (auto simp: settled_def pending_unsent written_def same_core_def)
  with e d w(1) written_ok kept_trans written_kept show ?thesis
    by (auto simp: advance_pass_def)
qed

lemma advance_loop_ok:
  "conn_ok c \<Longrightarrow> head_allowed c \<Longrightarrow>
     \<exists>d. advance_loop now c = Some d \<and> conn_ok d \<and> kept c d \<and> settled d"
proof (induction now c rule: advance_loop.induct)
  case (1 now c)
  show ?case
  proof (cases "c_state c = Active \<or> c_state c = Closing")
    case False
    with "1.prems" show ?thesis by (auto simp: advance_loop.simps [of now c] settled_def)
  next
    case True
    from advance_pass_ok [OF "1.prems"] obtain progress d where
      d: "advance_pass now c = Some (progress, d)" "conn_ok d" "kept c d"
      "\<not> progress \<longrightarrow> settled d" by blast
    show ?thesis
    proof (cases progress)
      case True
      have "head_allowed d" using d(3) "1.prems"(2) by (simp add: kept_def)
      with "1.IH" [OF \<open>c_state c = Active \<or> c_state c = Closing\<close> d(1) refl True d(2)] obtain e
        where "advance_loop now d = Some e" "conn_ok e" "kept d e" "settled e" by blast
      with d True \<open>c_state c = Active \<or> c_state c = Closing\<close> kept_trans show ?thesis
        by (subst advance_loop.simps) auto
    next
      case False
      with d \<open>c_state c = Active \<or> c_state c = Closing\<close> show ?thesis
        by (subst advance_loop.simps) auto
    qed
  qed
qed

lemma close_now_ok: "conn_ok c \<Longrightarrow> conn_ok (close_now t c)"
  using written_ok written_close by blast

lemma close_now_settled [simp]: "settled (close_now t c)"
  by (simp add: settled_def)

lemma draining_ok:
  assumes "conn_ok c" and "c_state c = Closing"
  shows "conn_ok (begin_lingering_close now c)" and "settled (begin_lingering_close now c)"
proof -
  let ?s = "(c_socket c)\<lparr>sk_fin_sent := True\<rparr>"
  have "conn_ok ((conn_log l t (c\<lparr>c_socket := ?s\<rparr>))\<lparr>c_state := Draining, c_linger_deadline := x\<rparr>)"
    for l t x
    using assms unfolding conn_ok_def conn_inv_def on_track_def answered_def promised_def
      timeout_text_def output_stream_def unsent_def fd_ok_def
    by auto
  moreover have "c\<lparr>c_socket := c_socket c\<rparr> = c" by simp
  ultimately show "conn_ok (begin_lingering_close now c)"
    using close_now_ok [OF assms(1)]
    by (simp add: begin_lingering_close_def shutdown_write_def)
  show "settled (begin_lingering_close now c)"
    by (auto simp: begin_lingering_close_def settled_def split: prod.splits bool.splits)
qed

lemma advance_ok:
  assumes "conn_ok c" and "head_allowed c"
  shows "\<exists>d. advance now c = Some d \<and> conn_ok d \<and> settled d"
proof -
  from advance_loop_ok [OF assms] obtain d where d: "advance_loop now c = Some d" "conn_ok d"
    "settled d" by blast
  then have "conn_ok (advance_end now d) \<and> settled (advance_end now d)"
    using close_now_ok draining_ok by (simp add: advance_end_def)
  with d show ?thesis by (simp add: advance_def)
qed

section \<open>The events keep the invariant and return\<close>

lemma conn_ok_cong:
  assumes "c_parser d = c_parser c" "c_output d = c_output c" "c_output_sent d = c_output_sent c"
    "c_state d = c_state c" "c_config d = c_config c" "c_handler d = c_handler c" "c_id d = c_id c"
    "st_requests (c_stats d) = st_requests (c_stats c)" "delivered d = delivered c"
    "sk_wire (c_socket d) = sk_wire (c_socket c)" "sk_open (c_socket d) = sk_open (c_socket c)"
  shows "conn_ok d \<longleftrightarrow> conn_ok c"
proof -
  have "promised d = promised c" "still_due d = still_due c" "timeout_text d = timeout_text c"
    by (simp_all add: promised_def still_due_def timeout_text_def assms fun_eq_iff)
  then show ?thesis
    unfolding conn_ok_def conn_inv_def on_track_def answered_def cut_short_def output_stream_def
      unsent_def fd_ok_def by (cases "c_state c") (simp_all add: assms)
qed

lemmas conn_ok_sameI = conn_ok_cong [THEN iffD2]

lemma buffered_feed_le:
  assumes "rp_inv p"
  shows "buffered_bytes (feed p bytes) \<le> buffered_bytes p + length bytes"
  using assms by (simp add: buffered_view view_feed) (simp add: framer_push_def split: Phase.split)

lemma feed_ok:
  assumes "conn_ok c" and "c_state c = Active" and "c_state d = Active"
    and "c_parser d = feed (c_parser c) bytes" and "delivered d = delivered c @ bytes"
    and "buffered_bytes (c_parser c) + length bytes \<le> max_request_bytes (cfg_limits (c_config c))"
    and "c_output d = c_output c" "c_output_sent d = c_output_sent c"
    "c_config d = c_config c" "c_handler d = c_handler c" "c_id d = c_id c"
    "st_requests (c_stats d) = st_requests (c_stats c)" "sk_wire (c_socket d) = sk_wire (c_socket c)"
    "sk_open (c_socket d) = sk_open (c_socket c)"
  shows "conn_ok d"
proof -
  from assms(1) have inv: "conn_inv c" and track: "on_track c" by (auto simp: conn_ok_def)
  note p = conn_inv_parser(1) [OF inv]
  have "still_due d bs = still_due c (bytes @ bs)" for bs
    using p by (simp add: still_due_def assms view_feed framer_push_push)
  moreover have "output_stream d = output_stream c" "promised d = promised c"
    by (simp_all add: output_stream_def unsent_def promised_def assms fun_eq_iff)
  ultimately have "on_track d"
    using track assms(2,3,5) by (simp add: on_track_def)
  moreover have "buffered_bytes (c_parser d) \<le> max_request_bytes (cfg_limits (c_config c))"
    using buffered_feed_le [OF p, of bytes] assms(4,6) by simp
  then have "conn_inv d"
    using inv assms parser_reachable.fed unfolding conn_inv_def fd_ok_def by auto
  ultimately show ?thesis by (simp add: conn_ok_def)
qed

lemma read_from_socket_ok:
  assumes "conn_ok c" and "wants_to_read c"
  shows "conn_ok (read_from_socket now c)" and "c_config (read_from_socket now c) = c_config c"
proof -
  have active: "c_state c = Active"
    and room: "buffered_bytes (c_parser c) < max_request_bytes (cfg_limits (c_config c))"
    using assms(2) by (auto simp: wants_to_read_def)
  obtain out s where out: "recv_retry (c_socket c) (read_size c) = (out, s)" by fastforce
  note frame = recv_retry_frame [OF out]
  show "conn_ok (read_from_socket now c)"
  proof (cases out)
    case (Inr bytes)
    with frame room have "buffered_bytes (c_parser c) + length bytes \<le>
        max_request_bytes (cfg_limits (c_config c))"
      by (auto simp: read_size_def)
    then show ?thesis
    proof (cases "bytes = []")
      case True
      show ?thesis
        by (rule conn_ok_sameI [OF _ _ _ _ _ _ _ _ _ _ _ assms(1)])
           (use frame Inr out True in \<open>simp_all add: read_from_socket_def Let_def\<close>)
    next
      case False
      show ?thesis
        by (rule feed_ok [OF assms(1) active, of _ bytes])
           (use frame Inr out False active \<open>_ + length bytes \<le> _\<close>
            in \<open>simp_all add: read_from_socket_def Let_def\<close>)
    qed
  next
    case (Inl e)
    have "conn_ok (c\<lparr>c_socket := s\<rparr>)"
      by (rule conn_ok_sameI [OF _ _ _ _ _ _ _ _ _ _ _ assms(1)]) (use frame Inl in simp_all)
    with out Inl close_now_ok show ?thesis by (simp add: read_from_socket_def Let_def)
  qed
  show "c_config (read_from_socket now c) = c_config c"
    by (auto simp: read_from_socket_def Let_def split: prod.splits sum.splits)
qed

lemma discard_ok:
  assumes "conn_ok c" and "c_state c = Draining"
  shows "conn_ok (discard_lingering_input c)" and "settled (discard_lingering_input c)"
proof -
  obtain out s where out: "recv_retry (c_socket c) recv_chunk_bytes = (out, s)" by fastforce
  note frame = recv_retry_frame [OF out]
  have ok: "conn_ok (c\<lparr>c_socket := s, c_lingered_bytes := n\<rparr>)" for n
  proof -
    let ?d = "c\<lparr>c_socket := s, c_lingered_bytes := n\<rparr>"
    obtain more where more: "delivered ?d = delivered c @ more" using frame by auto
    then have longer: "prefix t (delivered c) \<Longrightarrow> prefix t (delivered ?d)" for t
      by (auto simp: prefix_def)
    have same: "output_stream ?d = output_stream c" "promised ?d = promised c"
      "timeout_text ?d = timeout_text c"
      using frame by (simp_all add: output_stream_def unsent_def promised_def timeout_text_def fun_eq_iff)
    have "answered c" using assms by (simp add: conn_ok_def on_track_def)
    then consider "\<forall>bs. output_stream c = promised c (delivered c @ bs)"
      | t k where "prefix t (delivered c)" "output_stream c = promised c t @ timeout_text c k"
      unfolding answered_def by blast
    then have "answered ?d"
    proof cases
      case 1
      then have "output_stream ?d = promised ?d (delivered ?d @ bs)" for bs
        unfolding same more by simp
      then show ?thesis unfolding answered_def by blast
    next
      case 2
      then show ?thesis using longer unfolding answered_def same by blast
    qed
    moreover have "conn_inv ?d"
      using assms longer frame unfolding conn_ok_def conn_inv_def fd_ok_def by auto
    ultimately show ?thesis using assms(2) by (simp add: conn_ok_def on_track_def)
  qed
  have plain: "conn_ok (c\<lparr>c_socket := s\<rparr>)" using ok [of "c_lingered_bytes c"] by simp
  show "conn_ok (discard_lingering_input c)"
    using out ok plain close_now_ok
    by (auto simp: discard_lingering_input_def Let_def split: sum.splits)
  show "settled (discard_lingering_input c)"
    using assms(2) by (auto simp: discard_lingering_input_def settled_def Let_def
        split: prod.splits sum.splits)
qed

lemma on_poll_events_ok:
  assumes "conn_ok c" and "settled c" and "head_allowed c"
  shows "\<exists>d. on_poll_events revents now c = Some d \<and> conn_ok d \<and> settled d"
proof -
  let ?reads = "(POLLIN \<in> revents \<or> POLLHUP \<in> revents) \<and> wants_to_read c"
  let ?c = "if ?reads then read_from_socket now c else c"
  have "conn_ok ?c" "head_allowed ?c"
    using assms read_from_socket_ok [OF assms(1)] by simp_all
  from advance_ok [OF this] show ?thesis
    using assms close_now_ok discard_ok by (auto simp: on_poll_events_def)
qed

lemma timeout_ok:
  assumes ok: "conn_ok c" and settled: "settled c" and active: "c_state c = Active"
    and idle: "pending_output_bytes c = 0" and hw: "0 < output_high_water (c_config c)"
  shows "conn_ok ((queue_response timeout_response (conn_log l t c))\<lparr>c_last_activity := now\<rparr>)"
proof -
  let ?d = "(queue_response timeout_response (conn_log l t c))\<lparr>c_last_activity := now\<rparr>"
  let ?n = "st_requests (c_stats c) + 1"
  have inv: "conn_inv c" and track: "on_track c" using ok by (auto simp: conn_ok_def)
  have "framer_next (view (c_parser c)) = (Incomplete, view (c_parser c))"
    using settled active idle hw by (simp add: settled_def)
  then have "still_due c [] = []" by (simp add: still_due_def replies.simps)
  moreover have "output_stream c @ still_due c [] = promised c (delivered c @ [])"
    using track active by (simp add: on_track_def)
  ultimately have "output_stream c = promised c (delivered c)" by simp
  moreover have "output_stream ?d = output_stream c @ timeout_text c ?n"
    using inv by (simp add: conn_inv_def output_stream_def unsent_def timeout_text_def)
  moreover have "promised ?d = promised c" "timeout_text ?d = timeout_text c" "delivered ?d = delivered c"
    by (simp_all add: promised_def timeout_text_def fun_eq_iff)
  ultimately have "answered ?d" unfolding answered_def by auto
  moreover have "c_state ?d = Closing" by (simp add: timeout_response_def)
  moreover have "conn_inv ?d"
    using inv active by (auto simp: conn_inv_def fd_ok_def timeout_response_def)
  ultimately show ?thesis by (simp add: conn_ok_def on_track_def)
qed

lemma on_deadline_ok:
  assumes "conn_ok c" and "settled c" and "head_allowed c" and "0 < output_high_water (c_config c)"
  shows "\<exists>d. on_deadline now c = Some d \<and> conn_ok d \<and> settled d"
proof (cases "c_state c = Active \<and> pending_output_bytes c = 0 \<and> has_partial_request (c_parser c)")
  case True
  let ?t = "''#'' @ show_u64 (st_requests (c_stats c) + 1) @
      '' incomplete request timed out -> 408 Request Timeout | close''"
  let ?d = "(queue_response timeout_response (conn_log Info ?t c))\<lparr>c_last_activity := now\<rparr>"
  have "conn_ok ?d" using True assms by (intro timeout_ok) auto
  moreover have "head_allowed ?d" using assms(3) by simp
  ultimately show ?thesis
    using True advance_ok [of ?d now] by (simp add: on_deadline_def)
next
  case False
  then show ?thesis
    using assms close_now_ok [OF assms(1)] by (cases "c_state c") (auto simp: on_deadline_def)
qed

section \<open>Reachable connections\<close>

text \<open>The configuration, handler and number a connection was created with never change.\<close>

definition same_setup :: "Connection \<Rightarrow> Connection \<Rightarrow> bool" where
  "same_setup c d \<longleftrightarrow> c_config d = c_config c \<and> c_handler d = c_handler c \<and> c_id d = c_id c"

lemma same_setup_refl [simp]: "same_setup c c"
  by (simp add: same_setup_def)

lemma same_setup_trans: "same_setup c d \<Longrightarrow> same_setup d e \<Longrightarrow> same_setup c e"
  by (simp add: same_setup_def)

lemma same_setup_simps [simp]:
  "same_setup c (close_now t d) = same_setup c d" "same_setup c (conn_log l t d) = same_setup c d"
  "same_setup c (d\<lparr>c_socket := s\<rparr>) = same_setup c d"
  "same_setup c (queue_response r d) = same_setup c d"
  "same_setup c (d\<lparr>c_last_activity := now\<rparr>) = same_setup c d"
  by (simp_all add: same_setup_def)

lemma respond_loop_setup: "respond_loop b c = Some (r, d) \<Longrightarrow> same_setup c d"
  by (induction rule: respond_loop_rule) (auto simp: same_setup_def answer_frame)

lemma flush_output_setup: "flush_output now c = (sent, d) \<Longrightarrow> same_setup c d"
  using flush_output_written(1) by (auto simp: written_def same_core_def same_setup_def)

lemma advance_pass_setup: "advance_pass now c = Some (b, d) \<Longrightarrow> same_setup c d"
  by (erule advance_pass_cases)
     (auto dest!: respond_loop_setup flush_output_setup intro: same_setup_trans)

lemma advance_loop_setup: "advance_loop now c = Some d \<Longrightarrow> same_setup c d"
  by (induction rule: advance_loop_rule) (auto dest: advance_pass_setup intro: same_setup_trans)

lemma advance_setup: "advance now c = Some d \<Longrightarrow> same_setup c d"
proof -
  assume "advance now c = Some d"
  then obtain e where e: "advance_loop now c = Some e" "d = advance_end now e"
    by (auto simp: advance_def)
  have "same_setup e (advance_end now e)"
    by (simp add: advance_end_def begin_lingering_close_def shutdown_write_def)
       (simp add: same_setup_def)
  with advance_loop_setup [OF e(1)] e(2) show ?thesis by (blast intro: same_setup_trans)
qed

lemma read_from_socket_setup: "same_setup c (read_from_socket now c)"
  by (auto simp: read_from_socket_def Let_def same_setup_def split: prod.splits sum.splits)

lemma event_setup:
  "on_poll_events revents now c = Some d \<Longrightarrow> same_setup c d"
  "on_deadline now c = Some d \<Longrightarrow> same_setup c d"
proof -
  show "same_setup c d" if "on_poll_events revents now c = Some d"
  proof -
    have "same_setup c (discard_lingering_input c)"
      by (auto simp: discard_lingering_input_def Let_def same_setup_def split: prod.splits sum.splits)
    with that show ?thesis
      by (auto simp: on_poll_events_def split: if_splits dest!: advance_setup
          intro: same_setup_trans [OF read_from_socket_setup])
  qed
  show "same_setup c d" if "on_deadline now c = Some d"
    using that
    by (auto simp: on_deadline_def split: ConnState.splits if_splits dest!: advance_setup)
       (simp add: same_setup_def)
qed

text \<open>A socket just accepted: open, nothing exchanged yet.\<close>

definition fresh_socket :: "Socket \<Rightarrow> bool" where
  "fresh_socket s \<longleftrightarrow> sk_open s \<and> sk_delivered s = [] \<and> sk_wire s = []"

text \<open>
  The states of a connection with a given configuration, handler and number, over any socket,
  under any sequence of poll events, deadlines and a shutdown, while others write to the log.
\<close>

inductive conn_reachable :: "ServerConfig \<Rightarrow> RequestHandler \<Rightarrow> u64 \<Rightarrow> Connection \<Rightarrow> bool"
  for config h i where
  accepted: "fresh_socket s \<Longrightarrow>
    conn_reachable config h i (new_connection s i peer config h lg now)"
| polled: "conn_reachable config h i c \<Longrightarrow> on_poll_events revents now c = Some d \<Longrightarrow>
    conn_reachable config h i d"
| expired: "conn_reachable config h i c \<Longrightarrow> on_deadline now c = Some d \<Longrightarrow>
    conn_reachable config h i d"
| stopped: "conn_reachable config h i c \<Longrightarrow> conn_reachable config h i (close_now reason c)"
| logged: "conn_reachable config h i c \<Longrightarrow> conn_reachable config h i (c\<lparr>c_logger := lg\<rparr>)"

lemma conn_reachable_setup:
  "conn_reachable config h i c \<Longrightarrow> c_config c = config \<and> c_handler c = h \<and> c_id c = i"
proof (induction rule: conn_reachable.induct)
  case (accepted s peer lg now)
  then show ?case by (simp add: new_connection_def)
next
  case (polled c revents now d)
  then show ?case using event_setup(1) by (fastforce simp: same_setup_def)
next
  case (expired c now d)
  then show ?case using event_setup(2) by (fastforce simp: same_setup_def)
qed simp_all

text \<open>Configurations with room for a head and for some output.\<close>

definition config_ok :: "ServerConfig \<Rightarrow> bool" where
  "config_ok config \<longleftrightarrow> 0 < max_header_bytes (cfg_limits config) \<and> 0 < output_high_water config"

lemma new_connection_ok:
  assumes "fresh_socket s"
  shows "conn_ok (new_connection s i peer config h lg now)"
    and "settled (new_connection s i peer config h lg now)"
proof -
  let ?c = "new_connection s i peer config h lg now"
  have "parser_reachable (cfg_limits config) [] (new_parser (cfg_limits config))"
    by (rule parser_reachable.start)
  then have "conn_inv ?c"
    using assms by (auto simp: fresh_socket_def fd_ok_def conn_inv_def new_connection_def
        new_parser_def buffered_bytes_def)
  moreover have "on_track ?c"
    using assms
    by (simp add: fresh_socket_def on_track_def new_connection_def output_stream_def unsent_def
        still_due_def promised_def no_stats_def)
  ultimately show "conn_ok ?c" by (simp add: conn_ok_def)
  have "framer_next (new_framer l) = (Incomplete, new_framer l)" for l
    by (simp add: new_framer_def framer_next_def framer_skip_def framer_take_def framer_head_def)
  then show "settled ?c" by (simp add: settled_def new_connection_def)
qed

lemma conn_reachable_ok:
  "conn_reachable config h i c \<Longrightarrow> config_ok config \<Longrightarrow> conn_ok c \<and> settled c"
proof (induction rule: conn_reachable.induct)
  case (accepted s peer lg now)
  then show ?case using new_connection_ok by simp
next
  case (polled c revents now d)
  with on_poll_events_ok [of c revents now] conn_reachable_setup [OF polled(1)] show ?case
    by (auto simp: config_ok_def)
next
  case (expired c now d)
  with on_deadline_ok [of c now] conn_reachable_setup [OF expired(1)] show ?case
    by (auto simp: config_ok_def)
next
  case (stopped c reason)
  then show ?case using close_now_ok by simp
next
  case (logged c lg)
  then have "conn_ok (c\<lparr>c_logger := lg\<rparr>)" by (subst conn_ok_cong [of _ c]) simp_all
  moreover have "settled (c\<lparr>c_logger := lg\<rparr>)"
    using logged by (simp add: settled_def pending_output_bytes_def)
  ultimately show ?case by simp
qed

end
