(* ===== verification/Calculator.thy ===== *)
theory Calculator
  imports Prelude "HOL-Library.Signed_Division"
begin

text \<open>
  Model of \<^verbatim>\<open>src/src/calculator.cpp\<close>: operation names, the strict integer reader and the
  overflow-checked arithmetic on \<^verbatim>\<open>std::int64_t\<close> (64-bit words read by \<^const>\<open>sint\<close>).
  Shown here: the reader accepts exactly the grammar \<open>-?[0-9]+\<close> within the 64-bit range
  and reads back what \<^verbatim>\<open>std::to_string\<close> prints; \<open>calculate\<close> returns the exact
  mathematical result or reports an error, and never wraps.
\<close>

section \<open>Definitions\<close>

datatype Operation = Add | Subtract | Multiply | Divide

definition operation_from_path :: "string \<Rightarrow> Operation option" where
  "operation_from_path path =
     (if path = ''/add'' then Some Add
      else if path = ''/sub'' then Some Subtract
      else if path = ''/mul'' then Some Multiply
      else if path = ''/div'' then Some Divide
      else None)"

datatype IntParseStatus = IntOk | IntEmpty | NotAnInteger | OutOfRange

definition int64_min :: int where "int64_min = - (2 ^ 63)"
definition int64_max :: int where "int64_max = 2 ^ 63 - 1"

definition fits_int64 :: "int \<Rightarrow> bool" where
  "fits_int64 i \<longleftrightarrow> int64_min \<le> i \<and> i \<le> int64_max"

text \<open>
  \<^verbatim>\<open>std::from_chars\<close> for \<^verbatim>\<open>std::int64_t\<close>, base 10: the number of characters matched, the
  error code, and the value (left unchanged on failure).
\<close>

datatype errc = NoError | InvalidArgument | ResultOutOfRange

definition from_chars :: "string \<Rightarrow> i64 \<Rightarrow> nat \<times> errc \<times> i64" where
  "from_chars text v =
     (let negative = (text \<noteq> [] \<and> hd text = CHR ''-'');
          digits = takeWhile digit (if negative then tl text else text);
          magnitude = int (decimal_value digits);
          number = (if negative then - magnitude else magnitude);
          matched = length digits + (if negative then 1 else 0)
      in if digits = [] then (0, InvalidArgument, v)
         else if fits_int64 number then (matched, NoError, word_of_int number)
         else (matched, ResultOutOfRange, v))"

text \<open>The reference parameter \<open>value\<close> is passed in and returned.\<close>

definition parse_int64 :: "string \<Rightarrow> i64 \<Rightarrow> IntParseStatus \<times> i64" where
  "parse_int64 text v =
     (if text = [] then (IntEmpty, v)
      else let digits_start = (if hd text = CHR ''-'' then 1 else 0) in
        if digits_start = length text then (NotAnInteger, v)
        else if \<not> list_all digit (drop digits_start text) then (NotAnInteger, v)
        else case from_chars text v of (matched, error, w) \<Rightarrow>
          if error = ResultOutOfRange then (OutOfRange, w)
          else if error \<noteq> NoError \<or> matched \<noteq> length text then (NotAnInteger, w)
          else (IntOk, w))"

record CalcResult =
  calc_ok :: bool
  calc_value :: i64
  calc_error :: string

text \<open>
  \<^verbatim>\<open>__builtin_add_overflow\<close> and its siblings: the wrapped result, and whether the exact
  result does not fit.
\<close>

definition builtin_add_overflow :: "i64 \<Rightarrow> i64 \<Rightarrow> bool \<times> i64" where
  "builtin_add_overflow a b = (\<not> fits_int64 (sint a + sint b), a + b)"

definition builtin_sub_overflow :: "i64 \<Rightarrow> i64 \<Rightarrow> bool \<times> i64" where
  "builtin_sub_overflow a b = (\<not> fits_int64 (sint a - sint b), a - b)"

definition builtin_mul_overflow :: "i64 \<Rightarrow> i64 \<Rightarrow> bool \<times> i64" where
  "builtin_mul_overflow a b = (\<not> fits_int64 (sint a * sint b), a * b)"

text \<open>\<^verbatim>\<open>a / b\<close> on \<^verbatim>\<open>std::int64_t\<close> truncates toward zero.\<close>

definition int64_quotient :: "i64 \<Rightarrow> i64 \<Rightarrow> i64" where
  "int64_quotient a b = word_of_int (sint a sdiv sint b)"

definition division_by_zero_message :: string where
  "division_by_zero_message = ''division by zero''"

definition overflow_message :: string where
  "overflow_message = ''integer overflow: result does not fit in a signed 64-bit integer''"

definition calculate :: "Operation \<Rightarrow> i64 \<Rightarrow> i64 \<Rightarrow> CalcResult" where
  "calculate operation a b =
     (let finish = (\<lambda>(overflow, v).
            if overflow then \<lparr>calc_ok = False, calc_value = 0, calc_error = overflow_message\<rparr>
            else \<lparr>calc_ok = True, calc_value = v, calc_error = []\<rparr>)
      in case operation of
           Add \<Rightarrow> finish (builtin_add_overflow a b)
         | Subtract \<Rightarrow> finish (builtin_sub_overflow a b)
         | Multiply \<Rightarrow> finish (builtin_mul_overflow a b)
         | Divide \<Rightarrow>
             if b = 0 then \<lparr>calc_ok = False, calc_value = 0, calc_error = division_by_zero_message\<rparr>
             else let overflow = (a = word_of_int int64_min \<and> b = - 1)
                  in finish (overflow, if overflow then 0 else int64_quotient a b))"

section \<open>Signed 64-bit words\<close>

lemma sint_fits [simp]: "fits_int64 (sint (w :: i64))"
  using sint_range_size [of w] by (simp add: fits_int64_def int64_min_def int64_max_def word_size)

lemma sint_word_of_int_fits: "fits_int64 i \<Longrightarrow> sint (word_of_int i :: i64) = i"
  by (simp add: fits_int64_def int64_min_def int64_max_def sint_sbintrunc' signed_take_bit_int_eq_self)

lemma sint_eq_iff: "sint (a :: i64) = sint b \<longleftrightarrow> a = b"
  by (simp add: signed_word_eqI [of a b] iffI)

section \<open>Arithmetic\<close>

text \<open>The mathematical result of an operation: absent for a division by zero.\<close>

definition exact_result :: "Operation \<Rightarrow> int \<Rightarrow> int \<Rightarrow> int option" where
  "exact_result operation x y =
     (case operation of
        Add \<Rightarrow> Some (x + y)
      | Subtract \<Rightarrow> Some (x - y)
      | Multiply \<Rightarrow> Some (x * y)
      | Divide \<Rightarrow> if y = 0 then None else Some (x sdiv y))"

lemma int64_division_fits:
  assumes "\<not> (x = int64_min \<and> y = - 1)" and "fits_int64 x"
  shows "fits_int64 (x sdiv y)"
proof (cases "x = int64_min")
  case True
  then have "x \<noteq> 0" by (simp add: int64_min_def)
  with True assms have "x sdiv y \<noteq> - x"
    using int_sdiv_negated_is_minus1 by blast
  with True sdiv_int_range [of x y] show ?thesis
    by (simp add: fits_int64_def int64_min_def int64_max_def)
next
  case False
  with assms sdiv_int_range [of x y] show ?thesis
    by (simp add: fits_int64_def int64_min_def int64_max_def) linarith
qed

lemma sint_add_fits: "fits_int64 (sint a + sint b) \<Longrightarrow> sint (a + b :: i64) = sint a + sint b"
  using sint_word_of_int_fits [of "sint a + sint b"] by simp

lemma sint_sub_fits: "fits_int64 (sint a - sint b) \<Longrightarrow> sint (a - b :: i64) = sint a - sint b"
  using sint_word_of_int_fits [of "sint a - sint b"] by simp

lemma sint_mul_fits: "fits_int64 (sint a * sint b) \<Longrightarrow> sint (a * b :: i64) = sint a * sint b"
  using sint_word_of_int_fits [of "sint a * sint b"] by simp

lemmas sint_arith = sint_add_fits sint_sub_fits sint_mul_fits

lemma division_overflow_iff:
  fixes a b :: i64
  assumes "b \<noteq> 0"
  shows "(a = word_of_int int64_min \<and> b = - 1) \<longleftrightarrow> \<not> fits_int64 (sint a sdiv sint b)"
proof -
  have min: "sint (word_of_int int64_min :: i64) = int64_min"
    by (simp add: sint_word_of_int_fits fits_int64_def int64_min_def int64_max_def)
  then have "a = word_of_int int64_min \<longleftrightarrow> sint a = int64_min"
    using sint_eq_iff [of a "word_of_int int64_min"] by simp
  moreover have "b = - 1 \<longleftrightarrow> sint b = - 1"
    by (metis sint_eq_iff sint_n1)
  moreover have "\<not> fits_int64 (int64_min sdiv - 1)"
    by (simp add: fits_int64_def int64_min_def int64_max_def)
  ultimately show ?thesis
    using int64_division_fits [of "sint a" "sint b"] by auto
qed

lemma calculate_eq:
  "calculate operation a b =
     (case exact_result operation (sint a) (sint b) of
        None \<Rightarrow> \<lparr>calc_ok = False, calc_value = 0, calc_error = division_by_zero_message\<rparr>
      | Some r \<Rightarrow>
          if fits_int64 r then \<lparr>calc_ok = True, calc_value = word_of_int r, calc_error = []\<rparr>
          else \<lparr>calc_ok = False, calc_value = 0, calc_error = overflow_message\<rparr>)"
proof (cases operation)
  case Divide
  show ?thesis
  proof (cases "b = 0")
    case True
    with Divide show ?thesis by (simp add: calculate_def exact_result_def)
  next
    case False
    then have "sint b \<noteq> 0" by (metis sint_0 sint_eq_iff)
    with Divide False show ?thesis
      by (simp add: calculate_def exact_result_def int64_quotient_def
          division_overflow_iff [OF False])
  qed
qed (simp_all add: calculate_def exact_result_def builtin_add_overflow_def
      builtin_sub_overflow_def builtin_mul_overflow_def wi_hom_syms)

text \<open>
  C7. Arithmetic is exact or rejected: for every operation and operands, \<open>calculate\<close>
  reports division by zero when the mathematical result does not exist, reports overflow
  when it does not fit in a signed 64-bit integer, and otherwise returns exactly it.
\<close>

theorem calculate_exact:
  "calculate operation a b =
     (case exact_result operation (sint a) (sint b) of
        None \<Rightarrow> \<lparr>calc_ok = False, calc_value = 0, calc_error = division_by_zero_message\<rparr>
      | Some r \<Rightarrow>
          if fits_int64 r then \<lparr>calc_ok = True, calc_value = word_of_int r, calc_error = []\<rparr>
          else \<lparr>calc_ok = False, calc_value = 0, calc_error = overflow_message\<rparr>)"
  by (rule calculate_eq)

lemma calculate_ok_value:
  "calc_ok (calculate operation a b) \<Longrightarrow>
     exact_result operation (sint a) (sint b) = Some (sint (calc_value (calculate operation a b)))"
  by (auto simp: calculate_eq sint_word_of_int_fits split: option.splits if_splits)

section \<open>Reading integers\<close>

definition int_digits :: "string \<Rightarrow> string" where
  "int_digits s = (if s \<noteq> [] \<and> hd s = CHR ''-'' then tl s else s)"

definition int_grammar :: "string \<Rightarrow> bool" where
  "int_grammar s \<longleftrightarrow> int_digits s \<noteq> [] \<and> list_all digit (int_digits s)"

definition int_value :: "string \<Rightarrow> int" where
  "int_value s =
     (if s \<noteq> [] \<and> hd s = CHR ''-'' then - int (decimal_value (int_digits s))
      else int (decimal_value (int_digits s)))"

lemma from_chars_grammar:
  assumes "int_grammar s"
  shows "from_chars s v =
     (length s, if fits_int64 (int_value s) then NoError else ResultOutOfRange,
      if fits_int64 (int_value s) then word_of_int (int_value s) else v)"
proof -
  from assms have tw: "takeWhile digit (if s \<noteq> [] \<and> hd s = CHR ''-'' then tl s else s) = int_digits s"
    by (simp add: int_grammar_def list_all_iff takeWhile_eq_all_conv flip: int_digits_def)
  have len: "length (int_digits s) + (if s \<noteq> [] \<and> hd s = CHR ''-'' then 1 else 0) = length s"
    by (cases s) (simp_all add: int_digits_def)
  from assms have "int_digits s \<noteq> []" by (simp add: int_grammar_def)
  then show ?thesis
    unfolding from_chars_def Let_def tw len by (simp add: int_value_def)
qed

lemma parse_int64_eq:
  "parse_int64 s v =
     (if s = [] then (IntEmpty, v)
      else if \<not> int_grammar s then (NotAnInteger, v)
      else if fits_int64 (int_value s) then (IntOk, word_of_int (int_value s))
      else (OutOfRange, v))"
proof -
  let ?k = "if hd s = CHR ''-'' then 1 else 0 :: nat"
  have guard: "int_grammar s \<longleftrightarrow> s \<noteq> [] \<and> ?k \<noteq> length s \<and> list_all digit (drop ?k s)"
    by (cases s) (auto simp: int_grammar_def int_digits_def)
  show ?thesis
  proof (cases "int_grammar s")
    case True
    with guard show ?thesis
      by (simp add: parse_int64_def Let_def from_chars_grammar)
  next
    case False
    with guard show ?thesis by (auto simp: parse_int64_def Let_def)
  qed
qed

text \<open>
  C27. The operand reader accepts exactly the texts of the grammar \<open>-?[0-9]+\<close> whose value
  fits in a signed 64-bit integer, returns that value, and classifies every other s as
  empty, not an integer, or out of range, leaving the output parameter alone.
\<close>

theorem parse_int64_spec:
  "parse_int64 s v =
     (if s = [] then (IntEmpty, v)
      else if \<not> int_grammar s then (NotAnInteger, v)
      else if fits_int64 (int_value s) then (IntOk, word_of_int (int_value s))
      else (OutOfRange, v))"
  by (rule parse_int64_eq)

lemma int_to_string_grammar: "int_grammar (int_to_string i)"
proof -
  have "hd (nat_to_string n) \<noteq> CHR ''-''" for n
    using nat_to_string_digits [OF hd_in_set [OF nat_to_string_nonempty], of n]
    by (auto simp: digit_iff)
  then show ?thesis
    by (auto simp: int_grammar_def int_digits_def int_to_string_def list_all_iff
        intro: nat_to_string_digits)
qed

lemma int_value_int_to_string: "int_value (int_to_string i) = i"
proof -
  have "hd (nat_to_string n) \<noteq> CHR ''-''" for n
    using nat_to_string_digits [OF hd_in_set [OF nat_to_string_nonempty], of n]
    by (auto simp: digit_iff)
  then show ?thesis
    by (auto simp: int_value_def int_digits_def int_to_string_def decimal)
qed

lemma int_to_string_nonempty [simp]: "int_to_string i \<noteq> []"
  by (simp add: int_to_string_def)

lemma parse_int64_to_string: "parse_int64 (int_to_string (sint w)) v = (IntOk, w)"
  by (simp add: parse_int64_eq int_to_string_grammar int_value_int_to_string)

definition read_int64 :: "string \<Rightarrow> i64 option" where
  "read_int64 s = (case parse_int64 s 0 of (IntOk, v) \<Rightarrow> Some v | _ \<Rightarrow> None)"

interpretation int64_text: codec "\<lambda>w :: i64. int_to_string (sint w)" read_int64
  by unfold_locales (simp add: read_int64_def parse_int64_to_string)

end
