(* ===== verification/Query.thy ===== *)
theory Query
  imports Text
begin

text \<open>
  Model of \<^verbatim>\<open>src/src/query.cpp\<close>: percent decoding and the strict split of a query string
  into decoded name/value pairs. Shown here: decoding inverts percent encoding, and the
  query loop is the segment-wise parse of the pieces between ampersands, so that an
  encoded parameter list is read back exactly.
\<close>

section \<open>Definitions\<close>

definition hex_value :: "char \<Rightarrow> int" where
  "hex_value c =
     (if in_range (CHR ''0'') (CHR ''9'') c then int (byte c) - int (byte (CHR ''0''))
      else if in_range (CHR ''a'') (CHR ''f'') c then int (byte c) - int (byte (CHR ''a'')) + 10
      else if in_range (CHR ''A'') (CHR ''F'') c then int (byte c) - int (byte (CHR ''A'')) + 10
      else - 1)"

fun percent_decode :: "string \<Rightarrow> string option" where
  "percent_decode [] = Some []"
| "percent_decode (c # cs) =
     (if c \<noteq> CHR ''%'' then map_option ((#) c) (percent_decode cs)
      else case cs of
             h # l # rest \<Rightarrow>
               if hex_value h < 0 \<or> hex_value l < 0 then None
               else map_option ((#) (char_of (nat (hex_value h * 16 + hex_value l))))
                      (percent_decode rest)
           | _ \<Rightarrow> None)"

record QueryParseResult =
  qp_parameters :: "(string \<times> string) list"
  qp_error :: string

definition qp_ok :: "QueryParseResult \<Rightarrow> bool" where
  "qp_ok r \<longleftrightarrow> qp_error r = []"

definition stray_ampersand_message :: string where
  "stray_ampersand_message =
     ''malformed query string: empty parameter (stray '' @ quoted ''&'' @ '')''"

definition no_value_message :: "string \<Rightarrow> string" where
  "no_value_message segment =
     ''malformed query string: parameter '' @ quoted (excerpt segment) @
     '' has no value (expected name=value)''"

definition bad_escape_message :: "string \<Rightarrow> string" where
  "bad_escape_message segment =
     ''malformed query string: invalid percent-escape in '' @ quoted (excerpt segment)"

text \<open>One iteration's work on a segment: an error message, or the decoded pair.\<close>

definition parse_segment :: "string \<Rightarrow> string + (string \<times> string)" where
  "parse_segment segment =
     (if segment = [] then Inl stray_ampersand_message
      else case find_char (CHR ''='') segment of
        None \<Rightarrow> Inl (no_value_message segment)
      | Some eq \<Rightarrow>
          (case (percent_decode (take eq segment), percent_decode (drop (eq + 1) segment)) of
             (Some name, Some v) \<Rightarrow> Inr (name, v)
           | _ \<Rightarrow> Inl (bad_escape_message segment)))"

function parse_query_loop :: "string \<Rightarrow> QueryParseResult \<Rightarrow> QueryParseResult" where
  "parse_query_loop q result =
     (let amp = find_char (CHR ''&'') q;
          segment = prefix_to q amp
      in case parse_segment segment of
           Inl message \<Rightarrow> result\<lparr>qp_error := message\<rparr>
         | Inr parameter \<Rightarrow>
             let result' = result\<lparr>qp_parameters := qp_parameters result @ [parameter]\<rparr>
             in case amp of
                  None \<Rightarrow> result'
                | Some k \<Rightarrow> parse_query_loop (drop (k + 1) q) result')"
  by pat_completeness auto
termination
  by (relation "measure (\<lambda>(q, result). length q)") (auto dest: find_char_SomeD [OF sym])

declare parse_query_loop.simps [simp del]

definition parse_query :: "string \<Rightarrow> QueryParseResult" where
  "parse_query q =
     (let result = \<lparr>qp_parameters = [], qp_error = []\<rparr>
      in if q = [] then result else parse_query_loop q result)"

section \<open>Percent encoding\<close>

definition hex_char :: "nat \<Rightarrow> char" where
  "hex_char d = (if d < 10 then char_of (48 + d) else char_of (55 + d))"

definition percent_encode :: "string \<Rightarrow> string" where
  "percent_encode s =
     concat (map (\<lambda>c. [CHR ''%'', hex_char (byte c div 16), hex_char (byte c mod 16)]) s)"

lemma hex_value_hex_char: "d < 16 \<Longrightarrow> hex_value (hex_char d) = int d"
  by (auto simp: hex_value_def hex_char_def in_range_def)

lemma byte_less: "byte c < 256"
  by (simp add: of_char_def)

lemma percent_decode_encode: "percent_decode (percent_encode s) = Some s"
proof (induction s)
  case Nil
  then show ?case by (simp add: percent_encode_def)
next
  case (Cons c s)
  have "byte c div 16 < 16" using byte_less [of c] by linarith
  then have "percent_decode (CHR ''%'' # hex_char (byte c div 16) # hex_char (byte c mod 16) # rest) =
      map_option ((#) c) (percent_decode rest)" for rest
    by (simp add: hex_value_hex_char nat_add_distrib nat_mult_distrib)
  with Cons show ?case by (simp add: percent_encode_def)
qed

lemma percent_decode_plain: "CHR ''%'' \<notin> set s \<Longrightarrow> percent_decode s = Some s"
  by (induction s) auto

lemma percent_encode_chars:
  "c \<in> set (percent_encode s) \<Longrightarrow>
     c = CHR ''%'' \<or> digit c \<or> in_range (CHR ''A'') (CHR ''F'') c"
proof -
  assume "c \<in> set (percent_encode s)"
  then obtain x where "c \<in> {CHR ''%'', hex_char (byte x div 16), hex_char (byte x mod 16)}"
    by (auto simp: percent_encode_def split: if_splits)
  moreover have "byte x div 16 < 16" using byte_less [of x] by linarith
  moreover have "byte x mod 16 < 16" by simp
  moreover have "d < 16 \<Longrightarrow> digit (hex_char d) \<or> in_range (CHR ''A'') (CHR ''F'') (hex_char d)" for d
    by (auto simp: hex_char_def in_range_def)
  ultimately show ?thesis by blast
qed

lemma percent_encode_separators:
  "CHR ''&'' \<notin> set (percent_encode s)" "CHR ''='' \<notin> set (percent_encode s)"
  by (auto dest!: percent_encode_chars simp: in_range_def)

section \<open>The query loop\<close>

fun collect_segments :: "string list \<Rightarrow> QueryParseResult \<Rightarrow> QueryParseResult" where
  "collect_segments [] result = result"
| "collect_segments (seg # segs) result =
     (case parse_segment seg of
        Inl message \<Rightarrow> result\<lparr>qp_error := message\<rparr>
      | Inr p \<Rightarrow> collect_segments segs (result\<lparr>qp_parameters := qp_parameters result @ [p]\<rparr>))"

lemma parse_query_loop_collect:
  "parse_query_loop q result = collect_segments (split_on (CHR ''&'') q) result"
proof (induction q result rule: parse_query_loop.induct)
  case (1 q result)
  show ?case
  proof (cases "find_char (CHR ''&'') q")
    case None
    then show ?thesis
      by (simp add: parse_query_loop.simps [of q] split_on_find [of _ q] prefix_to_def
          split: sum.splits)
  next
    case (Some k)
    show ?thesis
    proof (cases "parse_segment (take k q)")
      case (Inl m)
      with Some show ?thesis
        by (simp add: parse_query_loop.simps [of q] split_on_find [of _ q] prefix_to_def)
    next
      case (Inr p)
      with Some 1 show ?thesis
        by (simp add: parse_query_loop.simps [of q] split_on_find [of _ q] prefix_to_def Let_def)
    qed
  qed
qed

definition render_parameter :: "string \<times> string \<Rightarrow> string" where
  "render_parameter p = percent_encode (fst p) @ CHR ''='' # percent_encode (snd p)"

fun render_query :: "(string \<times> string) list \<Rightarrow> string" where
  "render_query [] = []"
| "render_query [p] = render_parameter p"
| "render_query (p # ps) = render_parameter p @ CHR ''&'' # render_query ps"

lemma parse_segment_pair:
  assumes "CHR ''='' \<notin> set n" and "percent_decode n = Some name" and "percent_decode v = Some val"
  shows "parse_segment (n @ CHR ''='' # v) = Inr (name, val)"
  using assms by (simp add: parse_segment_def framing)

lemma parse_segment_render: "parse_segment (render_parameter p) = Inr p"
  by (simp add: render_parameter_def parse_segment_pair percent_encode_separators
      percent_decode_encode)

lemma render_parameter_no_amp: "CHR ''&'' \<notin> set (render_parameter p)"
  by (simp add: render_parameter_def percent_encode_separators)

lemma split_render_query:
  "ps \<noteq> [] \<Longrightarrow> split_on (CHR ''&'') (render_query ps) = map render_parameter ps"
  by (induction ps rule: render_query.induct) (simp_all add: render_parameter_no_amp framing)

lemma collect_rendered:
  "collect_segments (map render_parameter ps) result =
     result\<lparr>qp_parameters := qp_parameters result @ ps\<rparr>"
  by (induction ps arbitrary: result) (simp_all add: parse_segment_render)

text \<open>
  C29. Query strings round-trip: for any list of names and values (any bytes, in any
  number, duplicates included), percent-encoding them, joining them with \<open>=\<close> and \<open>&\<close>
  and parsing the result gives back exactly that list in order, with no error.
\<close>

theorem parse_query_roundtrip:
  "parse_query (render_query ps) = \<lparr>qp_parameters = ps, qp_error = []\<rparr>"
proof (cases "render_query ps = []")
  case True
  then have "ps = []"
    by (cases ps rule: render_query.cases) (auto simp: render_parameter_def)
  then show ?thesis by (simp add: parse_query_def)
next
  case False
  then have "ps \<noteq> []" by auto
  with False show ?thesis
    by (simp add: parse_query_def parse_query_loop_collect split_render_query collect_rendered)
qed

end
