(* ===== verification/Router.thy ===== *)
theory Router
  imports Calculator Query Response
begin

text \<open>
  Model of \<^verbatim>\<open>src/src/router.cpp\<close>: host validation, operand extraction and
  \<open>handle_request\<close>, the pure function from a framed request to a response. Shown here: the
  order of the checks and the status each failure gives, that a success carries exactly the
  mathematical result, that no answer of the router closes the connection, and that no
  client-supplied byte can break a response line.
\<close>

section \<open>Definitions\<close>

definition is_ascii_digit :: "char \<Rightarrow> bool" where
  "is_ascii_digit c \<longleftrightarrow> in_range (CHR ''0'') (CHR ''9'') c"

definition is_ascii_alnum :: "char \<Rightarrow> bool" where
  "is_ascii_alnum c \<longleftrightarrow>
     is_ascii_digit c \<or> in_range (CHR ''a'') (CHR ''z'') c \<or> in_range (CHR ''A'') (CHR ''Z'') c"

definition is_ascii_hex :: "char \<Rightarrow> bool" where
  "is_ascii_hex c \<longleftrightarrow>
     is_ascii_digit c \<or> in_range (CHR ''a'') (CHR ''f'') c \<or> in_range (CHR ''A'') (CHR ''F'') c"

text \<open>The inner \<^const>\<open>None\<close> is an early \<^verbatim>\<open>return false\<close>; \<^term>\<open>Some port\<close> goes on to the port check.\<close>

definition is_valid_host :: "string \<Rightarrow> bool" where
  "is_valid_host host =
     (if host = [] then False
      else
        case (if hd host = CHR ''['' then
                (case find_char (CHR '']'') host of
                   None \<Rightarrow> None
                 | Some close \<Rightarrow>
                     if close = 1 then None
                     else if \<not> list_all (\<lambda>c. is_ascii_hex c \<or> c = CHR '':'' \<or> c = CHR ''.'')
                                (substr host 1 (close - 1)) then None
                     else let rest = drop (close + 1) host in
                       if rest = [] then Some []
                       else if hd rest \<noteq> CHR '':'' then None
                       else Some (tl rest))
              else
                let colon = find_char (CHR '':'') host;
                    name = prefix_to host colon
                in if name = [] then None
                   else if \<not> list_all (\<lambda>c. is_ascii_alnum c \<or> c = CHR ''-'' \<or> c = CHR ''.'' \<or>
                                            c = CHR ''_'' \<or> c = CHR ''~'') name then None
                   else Some (case colon of None \<Rightarrow> [] | Some k \<Rightarrow> drop (k + 1) host))
        of None \<Rightarrow> False
         | Some port \<Rightarrow> list_all is_ascii_digit port)"

definition parse_operand :: "string \<Rightarrow> string \<Rightarrow> i64 \<Rightarrow> string option \<times> i64" where
  "parse_operand name txt v =
     (let what = ''query parameter '' @ quoted name
      in case parse_int64 txt v of (status, w) \<Rightarrow>
        (case status of
           IntOk \<Rightarrow> None
         | IntEmpty \<Rightarrow> Some (what @ '' is empty'')
         | NotAnInteger \<Rightarrow> Some (what @ '' is not an integer: '' @ quoted (excerpt txt))
         | OutOfRange \<Rightarrow> Some (what @ '' is out of range for a signed 64-bit integer''), w))"

definition unknown_parameter_message :: "string \<Rightarrow> string" where
  "unknown_parameter_message name =
     ''unknown query parameter '' @ quoted (excerpt name) @ ''; only a and b are accepted''"

definition duplicate_parameter_message :: "string \<Rightarrow> string" where
  "duplicate_parameter_message name = ''duplicate query parameter '' @ quoted name"

definition missing_parameter_message :: "string \<Rightarrow> string" where
  "missing_parameter_message name = ''missing query parameter '' @ quoted name"

definition missing_parameters_message :: string where
  "missing_parameters_message =
     ''missing query parameters '' @ quoted ''a'' @ '' and '' @ quoted ''b''"

text \<open>The loop that fills the two slots; \<open>Inl\<close> is the error returned from it.\<close>

fun fill_slots ::
  "(string \<times> string) list \<Rightarrow> string option \<times> string option \<Rightarrow> string + (string option \<times> string option)"
where
  "fill_slots [] slots = Inr slots"
| "fill_slots ((name, v) # params) (a_text, b_text) =
     (if name \<noteq> ''a'' \<and> name \<noteq> ''b'' then Inl (unknown_parameter_message name)
      else if (if name = ''a'' then a_text else b_text) \<noteq> None
      then Inl (duplicate_parameter_message name)
      else fill_slots params (if name = ''a'' then (Some v, b_text) else (a_text, Some v)))"

definition parse_operands :: "string \<Rightarrow> string + (i64 \<times> i64)" where
  "parse_operands q =
     (let parsed = parse_query q
      in if \<not> qp_ok parsed then Inl (qp_error parsed)
         else case fill_slots (qp_parameters parsed) (None, None) of
           Inl message \<Rightarrow> Inl message
         | Inr (None, None) \<Rightarrow> Inl missing_parameters_message
         | Inr (None, Some _) \<Rightarrow> Inl (missing_parameter_message ''a'')
         | Inr (Some _, None) \<Rightarrow> Inl (missing_parameter_message ''b'')
         | Inr (Some a_text, Some b_text) \<Rightarrow>
             (case parse_operand ''a'' a_text 0 of
                (Some message, _) \<Rightarrow> Inl message
              | (None, a) \<Rightarrow>
                  (case parse_operand ''b'' b_text 0 of
                     (Some message, _) \<Rightarrow> Inl message
                   | (None, b) \<Rightarrow> Inr (a, b))))"

definition unknown_operation_message :: "string \<Rightarrow> string" where
  "unknown_operation_message p =
     ''unknown operation '' @ quoted (excerpt p) @ ''; supported: /add /sub /mul /div''"

definition method_not_allowed_message :: "string \<Rightarrow> string" where
  "method_not_allowed_message m = ''method '' @ excerpt m @ '' not allowed; use GET''"

definition invalid_host_message :: "string \<Rightarrow> string" where
  "invalid_host_message h = ''invalid Host header '' @ quoted (excerpt h)"

definition handle_request :: "Request \<Rightarrow> Response" where
  "handle_request request =
     (let host_headers = header_count request ''Host'' in
      if host_headers > 1 then text_response 400 ''multiple Host headers''
      else if host_headers = 0 \<and> req_version request = Http11
      then text_response 400 ''missing Host header (required in HTTP/1.1)''
      else if host_headers = 1 \<and> \<not> is_valid_host (the (header request ''Host''))
      then text_response 400 (invalid_host_message (the (header request ''Host'')))
      else case operation_from_path (path request) of
        None \<Rightarrow> text_response 404 (unknown_operation_message (path request))
      | Some operation \<Rightarrow>
          if req_method request \<noteq> ''GET'' then
            let response = text_response 405 (method_not_allowed_message (req_method request))
            in response\<lparr>resp_headers :=
                 resp_headers response @ [\<lparr>hdr_name = ''Allow'', hdr_value = ''GET''\<rparr>]\<rparr>
          else case parse_operands (query request) of
            Inl message \<Rightarrow> text_response 400 message
          | Inr (a, b) \<Rightarrow>
              let result = calculate operation a b
              in if \<not> calc_ok result then text_response 400 (calc_error result)
                 else text_response 200 (int_to_string (sint (calc_value result))))"

section \<open>Order of the checks\<close>

lemma text_response_sel [simp]:
  "resp_status (text_response n t) = n"
  "resp_body (text_response n t) = t @ [LF]"
  "resp_headers (text_response n t) = []"
  "\<not> resp_close_connection (text_response n t)"
  "\<not> resp_omit_body (text_response n t)"
  by (simp_all add: text_response_def)

text \<open>HTTP/1.1 needs exactly one \<^verbatim>\<open>Host\<close>, HTTP/1.0 at most one, and it must be valid.\<close>

definition host_ok :: "Request \<Rightarrow> bool" where
  "host_ok r \<longleftrightarrow>
     header_count r ''Host'' = 0 \<and> req_version r = Http10 \<or>
     header_count r ''Host'' = 1 \<and> is_valid_host (the (header r ''Host''))"

lemma handle_request_host_error:
  "\<not> host_ok r \<Longrightarrow> \<exists>message. handle_request r = text_response 400 message"
  by (cases "req_version r") (auto simp: handle_request_def host_ok_def Let_def)

lemma handle_request_host_ok:
  assumes "host_ok r"
  shows "handle_request r =
     (case operation_from_path (path r) of
        None \<Rightarrow> text_response 404 (unknown_operation_message (path r))
      | Some operation \<Rightarrow>
          if req_method r \<noteq> ''GET'' then
            (text_response 405 (method_not_allowed_message (req_method r)))
              \<lparr>resp_headers := [\<lparr>hdr_name = ''Allow'', hdr_value = ''GET''\<rparr>]\<rparr>
          else case parse_operands (query r) of
            Inl message \<Rightarrow> text_response 400 message
          | Inr (a, b) \<Rightarrow>
              (case exact_result operation (sint a) (sint b) of
                 None \<Rightarrow> text_response 400 division_by_zero_message
               | Some v \<Rightarrow>
                   if fits_int64 v then text_response 200 (int_to_string v)
                   else text_response 400 overflow_message))"
  using assms
  by (auto simp: handle_request_def host_ok_def Let_def calculate_eq sint_word_of_int_fits
      split: option.splits sum.splits)

text \<open>The status by the first check that fails, whatever the method.\<close>

lemma handle_request_first_failure:
  "resp_status (handle_request r) =
     (if \<not> host_ok r then 400
      else case operation_from_path (path r) of
        None \<Rightarrow> 404
      | Some operation \<Rightarrow>
          if req_method r \<noteq> ''GET'' then 405
          else case parse_operands (query r) of
            Inl message \<Rightarrow> 400
          | Inr (a, b) \<Rightarrow>
              (case exact_result operation (sint a) (sint b) of
                 None \<Rightarrow> 400
               | Some v \<Rightarrow> if fits_int64 v then 200 else 400))"
proof (cases "host_ok r")
  case True
  then show ?thesis
    by (auto simp: handle_request_host_ok split: option.splits sum.splits)
next
  case False
  with handle_request_host_error [OF False] show ?thesis by auto
qed

text \<open>
  C8. The status of an answer to a method other than \<^verbatim>\<open>HEAD\<close> is decided by the first failing check,
  in this order: a bad or missing Host gives 400, an unknown path 404, a method other than GET
  405, bad operands 400, division by zero or overflow 400, and only then is the answer 200.
\<close>

theorem handle_request_status:
  assumes "req_method r \<noteq> ''HEAD''"
  shows "resp_status (handle_request r) =
     (if \<not> host_ok r then 400
      else case operation_from_path (path r) of
        None \<Rightarrow> 404
      | Some operation \<Rightarrow>
          if req_method r \<noteq> ''GET'' then 405
          else case parse_operands (query r) of
            Inl message \<Rightarrow> 400
          | Inr (a, b) \<Rightarrow>
              (case exact_result operation (sint a) (sint b) of
                 None \<Rightarrow> 400
               | Some v \<Rightarrow> if fits_int64 v then 200 else 400))"
  by (rule handle_request_first_failure)

definition status_request :: "string \<Rightarrow> string \<Rightarrow> Request" where
  "status_request m target =
     new_request\<lparr>req_method := m, req_target := target, req_headers := [\<lparr>hdr_name = ''Host'', hdr_value = ''h''\<rparr>]\<rparr>"

theorem handle_request_status_witness:
  "resp_status (handle_request (status_request ''PUT'' ''/pow'')) = 404 \<and>
   resp_status (handle_request (status_request ''PUT'' ''/add?a=1&b=2'')) = 405 \<and>
   resp_status (handle_request (status_request ''GET'' ''/div?a=1&b=0'')) = 400"
proof -
  let ?pow = "status_request ''PUT'' ''/pow''" and ?put = "status_request ''PUT'' ''/add?a=1&b=2''"
    and ?div = "status_request ''GET'' ''/div?a=1&b=0''"
  have "host_ok ?pow" "operation_from_path (path ?pow) = None" "req_method ?pow = ''PUT''" by code_simp+
  moreover have "host_ok ?put" "operation_from_path (path ?put) = Some Add" "req_method ?put = ''PUT''" by code_simp+
  moreover have "host_ok ?div" "operation_from_path (path ?div) = Some Divide" "req_method ?div = ''GET''"
    "parse_operands (query ?div) = Inr (1, 0)" by code_simp+
  ultimately show ?thesis
    using handle_request_status [of ?pow] handle_request_status [of ?put] handle_request_status [of ?div]
    by (simp add: exact_result_def)
qed

text \<open>
  Where the code and \<^verbatim>\<open>docs/protocol.md\<close> disagree: the document says that a response to \<^verbatim>\<open>HEAD\<close> is always
  a 405, but Host and path are checked first.
\<close>

lemma head_not_always_405:
  "resp_status (handle_request (status_request ''HEAD'' ''/pow'')) = 404"
  by code_simp

section \<open>Operands\<close>

lemma int_to_string_chars: "c \<in> set (int_to_string i) \<Longrightarrow> digit c \<or> c = CHR ''-''"
  by (auto simp: int_to_string_def split: if_splits dest: nat_to_string_digits)

lemma int_to_string_separators:
  "CHR ''%'' \<notin> set (int_to_string i)"
  "CHR ''&'' \<notin> set (int_to_string i)"
  "CHR ''='' \<notin> set (int_to_string i)"
  "CHR ''?'' \<notin> set (int_to_string i)"
  by (auto dest!: int_to_string_chars simp: digit_iff)

definition operand_query :: "i64 \<Rightarrow> i64 \<Rightarrow> string" where
  "operand_query a b =
     ''a='' @ int_to_string (sint a) @ ''&b='' @ int_to_string (sint b)"

lemma parse_operand_printed:
  "parse_operand name (int_to_string (sint w)) v = (None, w)"
  by (simp add: parse_operand_def parse_int64_to_string)

lemma parse_operands_printed: "parse_operands (operand_query a b) = Inr (a, b)"
proof -
  let ?sa = "''a='' @ int_to_string (sint a)" and ?sb = "''b='' @ int_to_string (sint b)"
  have split: "split_on (CHR ''&'') (operand_query a b) = [?sa, ?sb]"
    using split_on_append [of "CHR ''&''" ?sa ?sb]
    by (simp add: operand_query_def split_on_absent int_to_string_separators)
  have seg: "parse_segment ([n] @ CHR ''='' # int_to_string i) = Inr ([n], int_to_string i)"
    if "n = CHR ''a'' \<or> n = CHR ''b''" for n i
    by (rule parse_segment_pair)
       (use that in \<open>auto simp: percent_decode_plain int_to_string_separators\<close>)
  have "parse_query (operand_query a b) =
      \<lparr>qp_parameters = [(''a'', int_to_string (sint a)), (''b'', int_to_string (sint b))],
       qp_error = []\<rparr>"
    using seg [of "CHR ''a''" "sint a"] seg [of "CHR ''b''" "sint b"] split
    by (simp add: parse_query_def parse_query_loop_collect operand_query_def)
  then show ?thesis
    by (simp add: parse_operands_def qp_ok_def parse_operand_printed)
qed

lemma operation_path_no_mark: "operation_from_path p = Some operation \<Longrightarrow> CHR ''?'' \<notin> set p"
  by (auto simp: operation_from_path_def split: if_splits)

text \<open>
  C5. The calculator answers: for a GET request with an acceptable Host whose target is an
  operation's path with any two 64-bit operands in decimal, the response is 200 with the
  exact mathematical result in decimal when it fits in 64 bits, and 400 naming division by
  zero or overflow otherwise.
\<close>

theorem handle_request_answers:
  assumes "host_ok r" and "req_method r = ''GET''"
    and "operation_from_path p = Some operation"
    and "req_target r = p @ CHR ''?'' # operand_query a b"
  shows "handle_request r =
     (case exact_result operation (sint a) (sint b) of
        None \<Rightarrow> text_response 400 division_by_zero_message
      | Some v \<Rightarrow>
          if fits_int64 v then text_response 200 (int_to_string v)
          else text_response 400 overflow_message)"
proof -
  from assms(3) have "CHR ''?'' \<notin> set p" by (rule operation_path_no_mark)
  with assms(4) have "path r = p" and "query r = operand_query a b"
    by (simp_all add: path_def query_def prefix_to_def framing)
  with assms(1-3) show ?thesis
    by (simp add: handle_request_host_ok parse_operands_printed)
qed

definition sample_request :: Request where
  "sample_request =
     new_request\<lparr>req_method := ''GET'', req_target := ''/mul?a=6&b=-7'',
       req_headers := [\<lparr>hdr_name = ''host'', hdr_value = ''localhost:8080''\<rparr>]\<rparr>"

lemma sample_request_host_ok: "host_ok sample_request"
  by code_simp

theorem handle_request_answers_witness:
  "handle_request sample_request = text_response 200 ''-42''"
proof -
  have target: "req_target sample_request = ''/mul'' @ CHR ''?'' # operand_query 6 (-7)"
    by code_simp
  have "handle_request sample_request =
      (case exact_result Multiply (sint (6 :: i64)) (sint (- 7 :: i64)) of
        None \<Rightarrow> text_response 400 division_by_zero_message
      | Some v \<Rightarrow>
          if fits_int64 v then text_response 200 (int_to_string v)
          else text_response 400 overflow_message)"
    by (rule handle_request_answers [OF sample_request_host_ok _ _ target])
       (simp_all add: sample_request_def operation_from_path_def)
  also have "\<dots> = text_response 200 ''-42''" by code_simp
  finally show ?thesis .
qed

section \<open>Safety of the answers\<close>

lemma quoted_printable [simp]: "list_all printable (quoted s) \<longleftrightarrow> list_all printable s"
  by (simp add: quoted_def printable_def)

lemma int_to_string_printable [simp]: "list_all printable (int_to_string i)"
  by (auto simp: list_all_iff printable_def digit_iff dest!: int_to_string_chars)

lemma message_printable [simp]:
  "list_all printable division_by_zero_message"
  "list_all printable overflow_message"
  "list_all printable (unknown_operation_message p)"
  "list_all printable (unknown_parameter_message n)"
  "list_all printable stray_ampersand_message"
  "list_all printable (no_value_message seg)"
  "list_all printable (bad_escape_message seg)"
  "list_all printable (duplicate_parameter_message n) \<longleftrightarrow> list_all printable n"
  "list_all printable (missing_parameter_message n) \<longleftrightarrow> list_all printable n"
  "list_all printable missing_parameters_message"
  "list_all printable (method_not_allowed_message n)"
  "list_all printable (invalid_host_message n)"
  "list_all printable ''a''" "list_all printable ''b''"
  by (simp_all add: division_by_zero_message_def overflow_message_def printable_def
      unknown_operation_message_def unknown_parameter_message_def stray_ampersand_message_def
      no_value_message_def bad_escape_message_def duplicate_parameter_message_def
      missing_parameter_message_def missing_parameters_message_def
      method_not_allowed_message_def invalid_host_message_def)

lemma parse_segment_error_printable: "parse_segment seg = Inl m \<Longrightarrow> list_all printable m"
  by (auto simp: parse_segment_def split: if_splits option.splits)

lemma collect_segments_error_printable:
  "list_all printable (qp_error result) \<Longrightarrow>
     list_all printable (qp_error (collect_segments segs result))"
  by (induction segs arbitrary: result)
     (auto split: sum.splits dest: parse_segment_error_printable)

lemma parse_query_error_printable: "list_all printable (qp_error (parse_query q))"
  by (simp add: parse_query_def parse_query_loop_collect collect_segments_error_printable Let_def)

lemma fill_slots_error_printable:
  "fill_slots params slots = Inl m \<Longrightarrow> list_all printable m"
proof (induction params slots rule: fill_slots.induct)
  case (1 slots)
  then show ?case by simp
next
  case (2 name v params a_text b_text)
  then show ?case
    by (auto simp del: list.pred_inject split: if_splits)
qed

lemma parse_operand_error_printable:
  "parse_operand name txt v = (Some m, w) \<Longrightarrow> list_all printable name \<Longrightarrow> list_all printable m"
  by (auto simp: parse_operand_def Let_def printable_def [of "CHR 0x20"] split: prod.splits IntParseStatus.splits)
     (auto simp: printable_def)

lemma parse_operands_error_printable: "parse_operands q = Inl m \<Longrightarrow> list_all printable m"
  using parse_query_error_printable [of q]
  by (auto simp: parse_operands_def Let_def simp del: list.pred_inject
      split: if_splits sum.splits option.splits prod.splits
      dest: fill_slots_error_printable parse_operand_error_printable)

text \<open>
  The shapes of the router's answers: a printable line with one of the router's statuses, or
  the 405 with its \<^verbatim>\<open>Allow\<close> header.
\<close>

definition router_answer :: "Response \<Rightarrow> bool" where
  "router_answer x \<longleftrightarrow>
     (\<exists>status m. status \<in> {200, 400, 404} \<and> list_all printable m \<and> x = text_response status m) \<or>
     (\<exists>m. list_all printable m \<and>
        x = (text_response 405 m)\<lparr>resp_headers := [\<lparr>hdr_name = ''Allow'', hdr_value = ''GET''\<rparr>]\<rparr>)"

lemma router_answer_text [intro]:
  "list_all printable m \<Longrightarrow> status \<in> {200, 400, 404} \<Longrightarrow> router_answer (text_response status m)"
  unfolding router_answer_def by blast

lemma router_answer_405 [intro]:
  "list_all printable m \<Longrightarrow> router_answer
     ((text_response 405 m)\<lparr>resp_headers := [\<lparr>hdr_name = ''Allow'', hdr_value = ''GET''\<rparr>]\<rparr>)"
  unfolding router_answer_def by blast

lemma handle_request_router_answer: "router_answer (handle_request r)"
proof (cases "host_ok r")
  case True
  have "router_answer (case parse_operands (query r) of
      Inl message \<Rightarrow> text_response 400 message
    | Inr (a, b) \<Rightarrow> (case exact_result operation (sint a) (sint b) of
          None \<Rightarrow> text_response 400 division_by_zero_message
        | Some v \<Rightarrow> if fits_int64 v then text_response 200 (int_to_string v)
            else text_response 400 overflow_message))" for operation
    by (auto split: option.splits sum.splits dest: parse_operands_error_printable)
  then show ?thesis
    by (auto simp: handle_request_host_ok [OF True] split: option.splits)
next
  case False
  have "list_all printable ''multiple Host headers''"
    "list_all printable ''missing Host header (required in HTTP/1.1)''"
    by (simp_all add: printable_def)
  with False show ?thesis
    by (cases "req_version r")
       (auto simp: handle_request_def host_ok_def Let_def simp del: list.pred_inject)
qed

text \<open>
  C30. No answer of the router can be used to split or forge a response: whatever bytes the
  client sent, the body is one line of printable ASCII followed by a newline, the only extra
  header is \<^verbatim>\<open>Allow: GET\<close> on a 405, and the router itself never closes the connection or
  suppresses the body.
\<close>

theorem handle_request_safe:
  "(\<exists>line. resp_body (handle_request r) = line @ [LF] \<and> list_all printable line) \<and>
   resp_headers (handle_request r) =
     (if resp_status (handle_request r) = 405
      then [\<lparr>hdr_name = ''Allow'', hdr_value = ''GET''\<rparr>] else []) \<and>
   resp_status (handle_request r) \<in> {200, 400, 404, 405} \<and>
   \<not> resp_close_connection (handle_request r) \<and> \<not> resp_omit_body (handle_request r)"
  using handle_request_router_answer [of r] unfolding router_answer_def by auto

end
