(* ===== verification/Conn_Properties.thy ===== *)
theory Conn_Properties
  imports Conn_Output Router
begin

text \<open>
  The properties of the class \<^verbatim>\<open>Connection\<close> as a whole, over any sequence of events and any
  behaviour of the socket: every event is handled, the output is the specified one, buffers
  stay bounded, and the state follows the documented lifecycle.
\<close>

section \<open>Components driven by events\<close>

fun run_events :: "('e \<Rightarrow> 's \<Rightarrow> 's option) \<Rightarrow> 'e list \<Rightarrow> 's \<Rightarrow> 's option" where
  "run_events step [] s = Some s"
| "run_events step (e # es) s =
     (case step e s of None \<Rightarrow> None | Some t \<Rightarrow> run_events step es t)"

locale event_driven =
  fixes step :: "'e \<Rightarrow> 's \<Rightarrow> 's option"
    and inv :: "'s \<Rightarrow> bool"
    and ident :: "'s \<Rightarrow> 'a"
  assumes step_returns: "inv s \<Longrightarrow> \<exists>t. step e s = Some t \<and> inv t"
    and step_setup: "step e s = Some t \<Longrightarrow> ident t = ident s"
begin

lemma run_returns: "inv s \<Longrightarrow> \<exists>t. run_events step es s = Some t \<and> inv t"
proof (induction es arbitrary: s)
  case (Cons e es)
  from step_returns [OF Cons.prems, of e] obtain t where "step e s = Some t" "inv t" by blast
  with Cons.IH [of t] show ?case by simp
qed simp

lemma run_setup: "run_events step es s = Some t \<Longrightarrow> ident t = ident s"
  by (induction es arbitrary: s) (auto split: option.splits dest: step_setup)

end

datatype ConnEvent =
    Polled "PollFlag set" time_point
  | Expired time_point
  | Stopped string

fun conn_event :: "ConnEvent \<Rightarrow> Connection \<Rightarrow> Connection option" where
  "conn_event (Polled revents now) c = on_poll_events revents now c"
| "conn_event (Expired now) c = on_deadline now c"
| "conn_event (Stopped reason) c = Some (close_now reason c)"

definition conn_setup :: "Connection \<Rightarrow> ServerConfig \<times> RequestHandler \<times> u64" where
  "conn_setup c = (c_config c, c_handler c, c_id c)"

definition conn_good :: "Connection \<Rightarrow> bool" where
  "conn_good c \<longleftrightarrow> conn_ok c \<and> settled c \<and> config_ok (c_config c)"

lemma conn_event_setup: "conn_event e c = Some d \<Longrightarrow> conn_setup d = conn_setup c"
  by (cases e) (auto simp: conn_setup_def dest!: event_setup, auto simp: same_setup_def)

interpretation conn: event_driven conn_event conn_good conn_setup
proof
  fix c e d
  show "conn_setup d = conn_setup c" if "conn_event e c = Some d"
    using that by (rule conn_event_setup)
  assume good: "conn_good c"
  have "\<exists>d. conn_event e c = Some d \<and> conn_ok d \<and> settled d"
  proof (cases e)
    case (Polled revents now)
    with good on_poll_events_ok [of c revents now] show ?thesis
      by (simp add: conn_good_def config_ok_def)
  next
    case (Expired now)
    with good on_deadline_ok [of c now] show ?thesis by (simp add: conn_good_def config_ok_def)
  next
    case (Stopped reason)
    with good show ?thesis by (simp add: conn_good_def close_now_ok)
  qed
  with good conn_event_setup show "\<exists>d. conn_event e c = Some d \<and> conn_good d"
    by (fastforce simp: conn_good_def conn_setup_def)
qed

lemma new_connection_good:
  assumes "config_ok config" and "fresh_socket s"
  shows "conn_good (new_connection s i peer config h lg now)"
  using new_connection_ok [OF assms(2)] assms(1) by (simp add: conn_good_def new_connection_def)

lemma new_connection_run:
  assumes "config_ok config" and "fresh_socket s"
  obtains c where "run_events conn_event es (new_connection s i peer config h lg now) = Some c"
    and "conn_good c" and "c_config c = config" and "c_handler c = h" and "c_id c = i"
proof -
  let ?new = "new_connection s i peer config h lg now"
  from conn.run_returns [OF new_connection_good [OF assms]] obtain c where
    c: "run_events conn_event es ?new = Some c" "conn_good c" by blast
  from conn.run_setup [OF c(1)] have "c_config c = config" "c_handler c = h" "c_id c = i"
    by (simp_all add: conn_setup_def new_connection_def)
  with c show ?thesis by (rule that)
qed

section \<open>The lifecycle\<close>

text \<open>How one call may change the state before the end of \<open>advance\<close>.\<close>

definition moves :: "Connection \<Rightarrow> Connection \<Rightarrow> bool" where
  "moves c d \<longleftrightarrow>
     c_state d = c_state c \<or> c_state c = Active \<and> c_state d = Closing \<or> c_state d = Closed"

lemma moves_refl [simp]: "moves c c"
  by (simp add: moves_def)

lemma moves_trans: "moves c d \<Longrightarrow> moves d e \<Longrightarrow> moves c e"
  by (auto simp: moves_def)

lemma respond_loop_moves:
  "respond_loop b c = Some (r, d) \<Longrightarrow> moves c d \<and> (c_state c \<noteq> Active \<longrightarrow> d = c)"
proof (induction rule: respond_loop_rule)
  case (complete b c q p r d)
  then have "moves c (answer_request q (c\<lparr>c_parser := p\<rparr>))" by (simp add: moves_def answer_frame)
  with complete show ?case by (auto intro: moves_trans)
qed (auto simp: moves_def answer_sel)

text \<open>Once the final response is queued, no call changes what is to be written.\<close>

definition same_answers :: "Connection \<Rightarrow> Connection \<Rightarrow> bool" where
  "same_answers c d \<longleftrightarrow>
     output_stream d = output_stream c \<and> st_requests (c_stats d) = st_requests (c_stats c)"

lemma written_moves: "written c d \<Longrightarrow> moves c d \<and> same_answers c d"
  by (auto simp: written_def same_core_def moves_def same_answers_def)

lemma advance_pass_moves:
  "advance_pass now c = Some (b, d) \<Longrightarrow> moves c d \<and> (c_state c \<noteq> Active \<longrightarrow> same_answers c d)"
  by (erule advance_pass_cases)
     (auto dest!: respond_loop_moves flush_output_written(1) written_moves intro: moves_trans)

lemma advance_loop_moves:
  "advance_loop now c = Some d \<Longrightarrow> moves c d \<and> (c_state c \<noteq> Active \<longrightarrow> same_answers c d)"
proof (induction rule: advance_loop_rule)
  case (again c d e)
  with advance_pass_moves [OF again(2)] show ?case by (auto simp: moves_def same_answers_def)
qed (auto simp: same_answers_def dest: advance_pass_moves)

text \<open>The position of a state in the documented lifecycle.\<close>

fun state_rank :: "ConnState \<Rightarrow> nat" where
  "state_rank Active = 0"
| "state_rank Closing = 1"
| "state_rank Draining = 2"
| "state_rank Closed = 3"

definition follows :: "Connection \<Rightarrow> Connection \<Rightarrow> bool" where
  "follows c d \<longleftrightarrow>
     state_rank (c_state c) \<le> state_rank (c_state d) \<and>
     (c_state c \<noteq> Active \<longrightarrow> same_answers c d) \<and>
     (c_state d = Draining \<longrightarrow> unsent d = [] \<or> c_state c = Draining \<and> unsent d = unsent c)"

lemma follows_refl [simp]: "follows c c"
  by (auto simp: follows_def same_answers_def)

lemma follows_close [simp]: "follows c (close_now t c)"
  using written_moves [OF written_close, of c t] by (cases "c_state c") (auto simp: follows_def)

lemma advance_follows:
  assumes "advance now c = Some d" and "c_state c = Active \<or> c_state c = Closing"
  shows "follows c d"
proof -
  from assms obtain e where e: "advance_loop now c = Some e" "d = advance_end now e"
    by (auto simp: advance_def)
  from advance_loop_moves [OF e(1)] have m: "moves c e" "c_state c \<noteq> Active \<longrightarrow> same_answers c e"
    by auto
  have rank: "state_rank (c_state c) \<le> state_rank (c_state e)" and not: "c_state e \<noteq> Draining"
    using m(1) assms(2) by (auto simp: moves_def)
  have close: "same_answers e (close_now t e)" for t using written_moves [OF written_close] by blast
  have linger: "same_answers e (begin_lingering_close now e) \<and>
      (c_state (begin_lingering_close now e) = Draining \<or> c_state (begin_lingering_close now e) = Closed) \<and>
      unsent (begin_lingering_close now e) = unsent e"
    using close by (auto simp: begin_lingering_close_def shutdown_write_def same_answers_def
        output_stream_def unsent_def)
  have "same_answers e d \<and> state_rank (c_state e) \<le> state_rank (c_state d) \<and>
      (c_state d = Draining \<longrightarrow> unsent d = [])"
    unfolding e(2) advance_end_def
    using close linger not by (cases "c_state e") (auto simp: pending_unsent same_answers_def)
  with m(2) rank show ?thesis by (auto simp: follows_def same_answers_def)
qed

lemma read_from_socket_state:
  "c_state (read_from_socket now c) = c_state c \<or> c_state (read_from_socket now c) = Closed"
  by (auto simp: read_from_socket_def Let_def split: prod.splits sum.splits)

lemma discard_follows:
  assumes "c_state c = Draining"
  shows "follows c (discard_lingering_input c)"
proof -
  obtain out s where out: "recv_retry (c_socket c) recv_chunk_bytes = (out, s)" by fastforce
  have base: "follows c (c\<lparr>c_socket := s, c_lingered_bytes := n\<rparr>)" for n
    using recv_retry_frame [OF out] assms
    by (simp add: follows_def same_answers_def output_stream_def unsent_def)
  have closed: "follows c (close_now t (c\<lparr>c_socket := s, c_lingered_bytes := n\<rparr>))" for t n
    using base [of n] follows_close [of "c\<lparr>c_socket := s, c_lingered_bytes := n\<rparr>" t] assms
    by (auto simp: follows_def same_answers_def)
  have plain: "follows c (c\<lparr>c_socket := s\<rparr>)" "follows c (close_now t (c\<lparr>c_socket := s\<rparr>))" for t
    using base [of "c_lingered_bytes c"] closed [of t "c_lingered_bytes c"] by simp_all
  show ?thesis
    using out base closed plain by (auto simp: discard_lingering_input_def Let_def split: sum.split)
qed

lemma on_poll_events_follows:
  assumes "on_poll_events revents now c = Some d"
  shows "follows c d"
  using assms
proof (cases rule: on_poll_events_cases)
  case reads
  consider "c_state (read_from_socket now c) = Active" | "c_state (read_from_socket now c) = Closed"
    using read_from_socket_state [of now c] reads(1) by auto
  then show ?thesis
  proof cases
    case 1
    with advance_follows [OF reads(3)] reads(1) show ?thesis by (simp add: follows_def)
  next
    case 2
    with reads show ?thesis
      by (auto simp: advance_def advance_loop.simps advance_end_def follows_def)
  qed
qed (auto simp: discard_follows advance_follows)

lemma on_deadline_follows:
  assumes "on_deadline now c = Some d"
  shows "follows c d"
  using assms
proof (cases rule: on_deadline_cases)
  case (times_out t)
  from advance_follows [OF times_out(4)] times_out(1) show ?thesis
    by (simp add: follows_def timeout_response_def)
qed simp

lemma conn_event_follows: "conn_event e c = Some d \<Longrightarrow> follows c d"
  by (cases e) (auto dest: on_poll_events_follows on_deadline_follows)

lemma conn_event_closed: "conn_event e c = Some d \<Longrightarrow> c_state c = Closed \<Longrightarrow> d = c"
  by (cases e) (simp_all add: on_poll_events_def on_deadline_def close_now_def)

lemma conn_reachable_event:
  "conn_reachable config h i c \<Longrightarrow> conn_event e c = Some d \<Longrightarrow> conn_reachable config h i d"
  by (cases e) (auto intro: conn_reachable.intros)

lemma conn_reachable_drained:
  "conn_reachable config h i c \<Longrightarrow> c_state c = Draining \<Longrightarrow> unsent c = []"
proof (induction rule: conn_reachable.induct)
  case (accepted s peer lg now)
  then show ?case by (simp add: new_connection_def)
next
  case (polled c revents now d)
  then show ?case using on_poll_events_follows [OF polled(2)] by (auto simp: follows_def)
next
  case (expired c now d)
  then show ?case using on_deadline_follows [OF expired(2)] by (auto simp: follows_def)
next
  case (logged c lg)
  then show ?case by (simp add: unsent_def)
qed simp

text \<open>Between events an active connection that is not held back has answered everything.\<close>

lemma conn_reachable_answers:
  assumes "conn_reachable config h i c" and "config_ok config"
    and "c_state c = Active" and "pending_output_bytes c < output_high_water config"
  shows "sk_wire (c_socket c) @ drop (c_output_sent c) (c_output c) =
     replies h i 0 (framer_push (new_framer (cfg_limits config)) (sk_delivered (c_socket c)))"
proof -
  note c = conn_reachable_ok [OF assms(1,2)] conn_reachable_setup [OF assms(1)]
  have "framer_next (view (c_parser c)) = (Incomplete, view (c_parser c))"
    using c assms(3,4) by (simp add: settled_def)
  then have "still_due c [] = []" by (simp add: still_due_def replies.simps)
  moreover have "output_stream c @ still_due c [] = promised c (delivered c @ [])"
    using c assms(3) by (simp add: conn_ok_def on_track_def)
  ultimately show ?thesis
    using c by (simp add: output_stream_def unsent_def promised_def)
qed

section \<open>Properties\<close>

text \<open>A socket on which two requests arrive in pieces and the output is accepted in pieces.\<close>

definition sample_socket :: Socket where
  "sample_socket =
     \<lparr>sk_open = True,
      sk_rx = [Arrived ''GET /add?a=2&b'', RecvError EINTR, Arrived (''=40 HTTP/1.1'' @ CRLF),
               Arrived (''Host: x'' @ CRLF @ CRLF @ ''GET /nope HTTP/1.1'' @ CRLF @ ''Host: x'' @ CRLF @
                 ''Connection: close'' @ CRLF @ CRLF), PeerFin],
      sk_tx = [Accepts 10, SendError EINTR, SendError EAGAIN, Accepts 1000, Accepts 7, Accepts 1000],
      sk_shutdown_ok = True, sk_error = EAGAIN, sk_strerror = (\<lambda>e. ''error''),
      sk_delivered = [], sk_wire = [], sk_fin_sent = False\<rparr>"

definition calc_handler :: RequestHandler where
  "calc_handler request = Inr (handle_request request)"

definition sample_connection :: Connection where
  "sample_connection =
     new_connection sample_socket 7 ''peer'' default_config calc_handler
       \<lparr>lg_level = Notice, lg_lines = []\<rparr> 0"

definition sample_events :: "ConnEvent list" where
  "sample_events = [Polled {POLLIN} 1, Polled {POLLIN} 2, Polled {POLLIN} 3, Polled {POLLOUT} 4,
     Polled {POLLIN, POLLHUP} 5]"

lemma sample_config_ok: "config_ok default_config"
  by (simp add: config_ok_def default_config_def default_limits_def)

lemma sample_socket_fresh: "fresh_socket sample_socket"
  by (simp add: fresh_socket_def sample_socket_def)

definition keep_alive_socket :: Socket where
  "keep_alive_socket =
     sample_socket\<lparr>sk_rx := [Arrived (''GET /div?a=7&b=2 HTTP/1.1'' @ CRLF @ ''Host: x'' @ CRLF @ CRLF @ ''GET'')],
       sk_tx := [Accepts 10]\<rparr>"

definition keep_alive_connection :: Connection where
  "keep_alive_connection =
     new_connection keep_alive_socket 7 ''peer'' default_config calc_handler
       \<lparr>lg_level = Notice, lg_lines = []\<rparr> 0"

lemma sample_reachable_new:
  "conn_reachable default_config calc_handler 7 sample_connection"
  "conn_reachable default_config calc_handler 7 keep_alive_connection"
  unfolding sample_connection_def keep_alive_connection_def
  by (rule conn_reachable.accepted; simp add: fresh_socket_def keep_alive_socket_def sample_socket_def)+

lemma conn_reachable_run:
  "run_events conn_event es c = Some d \<Longrightarrow> conn_reachable config h i c \<Longrightarrow> conn_reachable config h i d"
  by (induction es arbitrary: c) (auto split: option.splits intro: conn_reachable_event)

text \<open>
  C1. The life of a connection: whatever the socket does and whatever events arrive, every
  event is handled to its end, and the bytes accepted by the kernel are always a prefix of the
  responses to the requests contained in the received bytes, in request order, up to the first
  that closes the connection (or of those and the 408 answer after a timeout). No response
  byte is lost, repeated, altered or reordered by short writes, blocking or interrupts.
\<close>

theorem connection_output:
  assumes "config_ok config" and "fresh_socket s"
  shows "\<exists>c stream. run_events conn_event es (new_connection s i peer config h lg now) = Some c \<and>
     prefix stream (sk_delivered (c_socket c)) \<and>
     (let answers = replies h i 0 (framer_push (new_framer (cfg_limits config)) stream)
      in prefix (sk_wire (c_socket c)) answers \<or>
         (\<exists>n. prefix (sk_wire (c_socket c))
                 (answers @ serialize (stamp_response i n timeout_response))))"
proof -
  obtain c where c: "run_events conn_event es (new_connection s i peer config h lg now) = Some c"
    "conn_good c" "c_config c = config" "c_handler c = h" "c_id c = i"
    using new_connection_run [OF assms] by blast
  then have "cut_short c" using on_track_cut_short by (simp add: conn_good_def conn_ok_def)
  then obtain stream where stream: "prefix stream (delivered c)"
    "prefix (output_stream c) (promised c stream) \<or>
      (\<exists>n. output_stream c = promised c stream @ timeout_text c n)" by (auto simp: cut_short_def)
  have "prefix (sk_wire (c_socket c)) (output_stream c)" by (simp add: output_stream_def)
  with stream(2) have "prefix (sk_wire (c_socket c)) (promised c stream) \<or>
      (\<exists>n. prefix (sk_wire (c_socket c)) (promised c stream @ timeout_text c n))"
    by (metis prefix_order.trans)
  with c stream(1) show ?thesis
    by (auto simp: promised_def timeout_text_def Let_def)
qed

theorem connection_output_witness:
  "\<exists>c stream. run_events conn_event sample_events sample_connection = Some c \<and>
     prefix stream (sk_delivered (c_socket c)) \<and>
     (let answers = replies calc_handler 7 0 (framer_push (new_framer (cfg_limits default_config)) stream)
      in prefix (sk_wire (c_socket c)) answers \<or>
         (\<exists>n. prefix (sk_wire (c_socket c))
                 (answers @ serialize (stamp_response 7 n timeout_response))))"
  unfolding sample_connection_def
  by (rule connection_output [OF sample_config_ok sample_socket_fresh])

text \<open>
  C14. Every complete request is answered: between events, a connection that is still active
  and not held back by unsent output has written or queued exactly the responses to all
  complete requests received so far.
\<close>

theorem connection_answers_all:
  assumes "conn_reachable config h i c" and "config_ok config"
    and "c_state c = Active" and "pending_output_bytes c < output_high_water config"
  shows "sk_wire (c_socket c) @ drop (c_output_sent c) (c_output c) =
     replies h i 0 (framer_push (new_framer (cfg_limits config)) (sk_delivered (c_socket c)))"
  using conn_reachable_answers [OF assms] .

theorem connection_answers_all_witness:
  "\<exists>c. run_events conn_event [Polled {POLLIN} 1] keep_alive_connection = Some c \<and>
     sk_wire (c_socket c) @ drop (c_output_sent c) (c_output c) =
       replies calc_handler 7 0
         (framer_push (new_framer (cfg_limits default_config)) (sk_delivered (c_socket c)))"
proof -
  have "case run_events conn_event [Polled {POLLIN} 1] keep_alive_connection of
      Some c \<Rightarrow> c_state c = Active \<and> pending_output_bytes c < output_high_water default_config
    | None \<Rightarrow> False" by code_simp
  then obtain c where c: "run_events conn_event [Polled {POLLIN} 1] keep_alive_connection = Some c"
    "c_state c = Active" "pending_output_bytes c < output_high_water default_config"
    by (auto split: option.splits)
  from connection_answers_all [OF conn_reachable_run [OF c(1) sample_reachable_new(2)]
      sample_config_ok c(2,3)] c(1) show ?thesis by blast
qed

text \<open>
  C15. The final response is never lost to the close: once a connection has shut down its
  sending side and only discards input, the kernel has accepted every byte of the responses
  owed to the received requests (and of the 408 answer, if there was one).
\<close>

theorem connection_final_response:
  assumes "conn_reachable config h i c" and "config_ok config" and "c_state c = Draining"
  shows "sk_wire (c_socket c) =
       replies h i 0 (framer_push (new_framer (cfg_limits config)) (sk_delivered (c_socket c))) \<or>
     (\<exists>stream n. prefix stream (sk_delivered (c_socket c)) \<and> sk_wire (c_socket c) =
       replies h i 0 (framer_push (new_framer (cfg_limits config)) stream) @
       serialize (stamp_response i n timeout_response))"
proof -
  note c = conn_reachable_ok [OF assms(1,2)] conn_reachable_setup [OF assms(1)]
  have wire: "output_stream c = sk_wire (c_socket c)"
    using conn_reachable_drained [OF assms(1,3)] by (simp add: output_stream_def)
  have "answered c" using c assms(3) by (simp add: conn_ok_def on_track_def)
  then consider "output_stream c = promised c (delivered c @ [])"
    | s n where "prefix s (delivered c)" "output_stream c = promised c s @ timeout_text c n"
    unfolding answered_def by blast
  then show ?thesis
    using c by cases (auto simp: wire promised_def timeout_text_def)
qed

theorem connection_final_response_witness:
  "\<exists>c. run_events conn_event (take 4 sample_events) sample_connection = Some c \<and>
     (sk_wire (c_socket c) = replies calc_handler 7 0
        (framer_push (new_framer (cfg_limits default_config)) (sk_delivered (c_socket c))) \<or>
      (\<exists>stream n. prefix stream (sk_delivered (c_socket c)) \<and> sk_wire (c_socket c) =
        replies calc_handler 7 0 (framer_push (new_framer (cfg_limits default_config)) stream) @
        serialize (stamp_response 7 n timeout_response)))"
proof -
  have "case run_events conn_event (take 4 sample_events) sample_connection of
      Some c \<Rightarrow> c_state c = Draining | None \<Rightarrow> False" by code_simp
  then obtain c where c: "run_events conn_event (take 4 sample_events) sample_connection = Some c"
    "c_state c = Draining"
    by (auto split: option.splits)
  from connection_final_response [OF conn_reachable_run [OF c(1) sample_reachable_new(1)]
      sample_config_ok c(2)] c(1) show ?thesis by blast
qed

text \<open>
  C17. Input stays bounded: a connection never holds more unparsed bytes than one request of
  maximal size, and a read never asks for zero bytes (which would look like the end of the
  stream) nor for more than fit.
\<close>

theorem connection_input_bound:
  assumes "conn_reachable config h i c" and "config_ok config"
  shows "buffered_bytes (c_parser c) \<le> max_request_bytes (cfg_limits config) \<and>
     (wants_to_read c \<longrightarrow> 0 < read_size c \<and>
        buffered_bytes (c_parser c) + read_size c \<le> max_request_bytes (cfg_limits config))"
proof -
  note c = conn_reachable_ok [OF assms] conn_reachable_setup [OF assms(1)]
  then have "buffered_bytes (c_parser c) \<le> max_request_bytes (cfg_limits config)"
    by (auto simp: conn_ok_def conn_inv_def)
  with c show ?thesis by (auto simp: wants_to_read_def read_size_def recv_chunk_bytes_def)
qed

theorem connection_input_bound_witness:
  "0 < read_size sample_connection \<and>
   buffered_bytes (c_parser sample_connection) + read_size sample_connection \<le>
     max_request_bytes (cfg_limits default_config)"
proof -
  have "wants_to_read sample_connection" by code_simp
  with connection_input_bound [OF sample_reachable_new(1) sample_config_ok] show ?thesis by blast
qed

text \<open>
  C18. The lifecycle: an event moves a connection only forward from Active through Closing and
  Draining to Closed; after the final response is queued nothing more is answered or written
  than was already queued; Draining is entered only with all output sent; and a closed
  connection never changes.
\<close>

theorem connection_lifecycle:
  assumes "conn_event e c = Some d"
  shows "state_rank (c_state c) \<le> state_rank (c_state d) \<and>
     (c_state c \<noteq> Active \<longrightarrow>
        sk_wire (c_socket d) @ drop (c_output_sent d) (c_output d) =
          sk_wire (c_socket c) @ drop (c_output_sent c) (c_output c) \<and>
        st_requests (c_stats d) = st_requests (c_stats c)) \<and>
     (c_state c \<noteq> Draining \<and> c_state d = Draining \<longrightarrow> drop (c_output_sent d) (c_output d) = []) \<and>
     (c_state c = Closed \<longrightarrow> d = c)"
  using conn_event_follows [OF assms] conn_event_closed [OF assms]
  by (auto simp: follows_def same_answers_def output_stream_def unsent_def)

theorem connection_lifecycle_witness:
  "\<exists>d. conn_event (Polled {POLLIN} 1) keep_alive_connection = Some d \<and>
     state_rank (c_state keep_alive_connection) \<le> state_rank (c_state d)"
proof -
  have "case conn_event (Polled {POLLIN} 1) keep_alive_connection of Some d \<Rightarrow> True | None \<Rightarrow> False"
    by code_simp
  then obtain d where d: "conn_event (Polled {POLLIN} 1) keep_alive_connection = Some d"
    by (auto split: option.splits)
  from d connection_lifecycle [OF d] show ?thesis by blast
qed

end
