(* ===== verification/Session.thy ===== *)
theory Session
  imports Conn_Properties
begin

text \<open>
  A client's session with the calculator, end to end: the handler contract that a connection
  relies on for keeping a session open, that the router provides it, and the bytes such a
  session produces.
\<close>

section \<open>Handlers that keep sessions open\<close>

text \<open>
  What the connection assumes of a handler whose answers never end a session: it returns, it
  leaves the decision to close to the connection, and it does not look at where the request
  lay in the stream.
\<close>

locale session_handler =
  fixes h :: RequestHandler
    and answer :: "Request \<Rightarrow> Response"
  assumes returns: "h r = Inr (answer r)"
    and keeps_open: "\<not> resp_close_connection (answer r)"
    and position: "answer (r\<lparr>req_stream_begin := b, req_stream_end := e, req_head_bytes := n\<rparr>) = answer r"
begin

lemma handled_place: "handled h (place offset r) = answer r"
  by (simp add: handled_def returns place_def position)

lemma stays_open: "wants_keep_alive r \<Longrightarrow> \<not> resp_close_connection (finish_response r (answer r))"
  by (simp add: finish_response_def keeps_open Let_def)

end

text \<open>The answers to a list of requests, with their numbers.\<close>

fun session_answers :: "(Request \<Rightarrow> Response) \<Rightarrow> u64 \<Rightarrow> u64 \<Rightarrow> Request list \<Rightarrow> string" where
  "session_answers answer i n [] = []"
| "session_answers answer i n (r # rs) =
     serialize (stamp_response i (n + 1) (finish_response r (answer r))) @
     session_answers answer i (n + 1) rs"

lemma place_fields:
  "wants_keep_alive (place offset r) = wants_keep_alive r"
  "finish_response (place offset r) x = finish_response r x"
  by (simp_all add: wants_keep_alive_def finish_response_def place_def Let_def)

context session_handler
begin

lemma replies_session:
  assumes "list_all (wf_request limits) rs" and "list_all wants_keep_alive rs"
    and "length_limit_ok (max_body_bytes limits)"
    and "fr_phase f = AwaitHead" "fr_limits f = limits" "fr_bytes f = concat (map render_request rs)"
  shows "replies h i n f = session_answers answer i n rs"
  using assms
proof (induction rs arbitrary: f n)
  case Nil
  then have "framer_next f = (Incomplete, f)"
    by (simp add: framer_next_def framer_skip_def framer_take_def framer_head_def)
  then show ?case by (simp add: replies.simps)
next
  case (Cons r rs)
  let ?g = "framer_take f (length (render_request r))"
  have "framer_next f = (Complete (place (fr_offset f) r), ?g)"
    using Cons.prems by (intro framer_next_render) simp_all
  moreover have "replies h i (n + 1) ?g = session_answers answer i (n + 1) rs"
    using Cons.prems by (intro Cons.IH) (simp_all add: framer_take_def)
  moreover have "\<not> resp_close_connection (finish_response r (answer r))"
    using Cons.prems stays_open by simp
  ultimately show ?case
    by (simp add: replies.simps [of h i n f] handled_place place_fields Let_def)
qed

end

section \<open>The router as the handler\<close>

lemma handle_request_position:
  "handle_request (r\<lparr>req_stream_begin := b, req_stream_end := e, req_head_bytes := n\<rparr>) = handle_request r"
  (is "handle_request ?r = _")
proof -
  have "header_count ?r = header_count r" "header ?r = header r" "path ?r = path r"
    "query ?r = query r" "req_version ?r = req_version r" "req_method ?r = req_method r"
    by (simp_all add: header_count_def header_def path_def query_def fun_eq_iff split: option.split)
  then show ?thesis unfolding handle_request_def by (simp only:)
qed

interpretation calc: session_handler calc_handler handle_request
proof
  show "calc_handler r = Inr (handle_request r)" for r by (simp add: calc_handler_def)
  show "\<not> resp_close_connection (handle_request r)" for r
    using handle_request_router_answer [of r] by (auto simp: router_answer_def)
qed (rule handle_request_position)

text \<open>The output of a connection over which well-formed requests came that keep it open.\<close>

lemma session_output:
  assumes "conn_reachable config calc_handler i c" and "config_ok config" and "c_state c = Active"
    and "pending_output_bytes c < output_high_water config"
    and "length_limit_ok (max_body_bytes (cfg_limits config))"
    and "list_all (wf_request (cfg_limits config)) rs" and "list_all wants_keep_alive rs"
    and "sk_delivered (c_socket c) = concat (map render_request rs)"
  shows "sk_wire (c_socket c) @ drop (c_output_sent c) (c_output c) = session_answers handle_request i 0 rs"
proof -
  have "replies calc_handler i 0
      (framer_push (new_framer (cfg_limits config)) (concat (map render_request rs))) =
    session_answers handle_request i 0 rs"
    using assms(5-7) by (intro calc.replies_session) (simp_all add: new_framer_def framer_push_def)
  with conn_reachable_answers [OF assms(1-4)] assms(8) show ?thesis by simp
qed

section \<open>Property\<close>

text \<open>
  C2. A persistent session, end to end: when a client has sent any list of well-formed requests
  that keep the connection open, in any pieces, an active connection that is not held back by
  unsent output has written or queued, in order and with the numbers 1, 2, 3 and so on, exactly
  the serialized answers of the router to those requests, and nothing else.
\<close>

theorem session_answered:
  assumes "conn_reachable config calc_handler i c" and "config_ok config" and "c_state c = Active"
    and "pending_output_bytes c < output_high_water config"
    and "length_limit_ok (max_body_bytes (cfg_limits config))"
    and "list_all (wf_request (cfg_limits config)) rs" and "list_all wants_keep_alive rs"
    and "sk_delivered (c_socket c) = concat (map render_request rs)"
  shows "sk_wire (c_socket c) @ drop (c_output_sent c) (c_output c) = session_answers handle_request i 0 rs"
  using session_output [OF assms] .

definition sample_session :: "Request list" where
  "sample_session =
     [new_request\<lparr>req_method := ''GET'', req_target := ''/mul?a=6&b=7'',
        req_headers := [\<lparr>hdr_name = ''Host'', hdr_value = ''x''\<rparr>]\<rparr>,
      new_request\<lparr>req_method := ''POST'', req_target := ''/add'',
        req_headers := [\<lparr>hdr_name = ''Host'', hdr_value = ''x''\<rparr>,
          \<lparr>hdr_name = ''Content-Length'', hdr_value = ''3''\<rparr>], req_body := ''abc''\<rparr>]"

definition session_connection :: Connection where
  "session_connection =
     new_connection (sample_socket\<lparr>sk_rx :=
         [Arrived (take 30 (concat (map render_request sample_session))), RecvError EINTR,
          Arrived (drop 30 (concat (map render_request sample_session)))], sk_tx := [Accepts 9]\<rparr>)
       3 ''peer'' default_config calc_handler \<lparr>lg_level = Notice, lg_lines = []\<rparr> 0"

lemma session_connection_reachable: "conn_reachable default_config calc_handler 3 session_connection"
  unfolding session_connection_def
  by (rule conn_reachable.accepted) (simp add: fresh_socket_def sample_socket_def)

theorem session_answered_witness:
  "\<exists>c. run_events conn_event [Polled {POLLIN} 1, Polled {POLLIN} 2] session_connection = Some c \<and>
     sk_wire (c_socket c) @ drop (c_output_sent c) (c_output c) =
       session_answers handle_request 3 0 sample_session"
proof -
  let ?run = "run_events conn_event [Polled {POLLIN} 1, Polled {POLLIN} 2] session_connection"
  have "case ?run of
      Some c \<Rightarrow> c_state c = Active \<and> pending_output_bytes c < output_high_water default_config \<and>
        sk_delivered (c_socket c) = concat (map render_request sample_session)
    | None \<Rightarrow> False" by code_simp
  then obtain c where c: "?run = Some c" "c_state c = Active"
    "pending_output_bytes c < output_high_water default_config"
    "sk_delivered (c_socket c) = concat (map render_request sample_session)"
    by (auto split: option.splits)
  have "length_limit_ok (max_body_bytes (cfg_limits default_config))"
    "list_all (wf_request (cfg_limits default_config)) sample_session"
    "list_all wants_keep_alive sample_session" by code_simp+
  from session_answered [OF conn_reachable_run [OF c(1) session_connection_reachable]
      sample_config_ok c(2,3) this c(4)] c(1) show ?thesis by blast
qed

end
