(* ===== verification/Descriptors.thy ===== *)
theory Descriptors
  imports Sockets "HOL-Library.Multiset"
begin

text \<open>
  The class \<^verbatim>\<open>FileDescriptor\<close> of \<^verbatim>\<open>src/include/calc/file_descriptor.hpp\<close> and the functions of
  \<^verbatim>\<open>src/src/socket_utils.cpp\<close>: who owns a descriptor, and how the listening socket is made. The
  kernel is the list of open descriptors and the calls of \<^verbatim>\<open>close()\<close> so far; what the calls on
  an address do is part of the address in the script.
\<close>

section \<open>Descriptors\<close>

record Kernel =
  k_open :: "int list"
  k_closed :: "int list"

definition k_close :: "int \<Rightarrow> Kernel \<Rightarrow> Kernel" where
  "k_close fd k = k\<lparr>k_open := remove1 fd (k_open k), k_closed := k_closed k @ [fd]\<rparr>"

text \<open>The member \<^verbatim>\<open>fd_\<close>; the default constructor and the one that takes ownership.\<close>

type_synonym FileDescriptor = int

definition fd_none :: FileDescriptor where
  "fd_none = -1"

definition fd_valid :: "FileDescriptor \<Rightarrow> bool" where
  "fd_valid fd \<longleftrightarrow> fd \<ge> 0"

text \<open>\<^verbatim>\<open>release()\<close>: the descriptor, and the object without it.\<close>

definition fd_release :: "FileDescriptor \<Rightarrow> int \<times> FileDescriptor" where
  "fd_release fd = (fd, -1)"

definition fd_reset :: "int \<Rightarrow> FileDescriptor \<Rightarrow> Kernel \<Rightarrow> FileDescriptor \<times> Kernel" where
  "fd_reset new fd k = (new, if fd \<ge> 0 then k_close fd k else k)"

text \<open>The destructor, the move constructor (target, source) and move assignment.\<close>

definition fd_destroy :: "FileDescriptor \<Rightarrow> Kernel \<Rightarrow> Kernel" where
  "fd_destroy fd k = snd (fd_reset (-1) fd k)"

definition fd_move :: "FileDescriptor \<Rightarrow> FileDescriptor \<times> FileDescriptor" where
  "fd_move other = fd_release other"

definition fd_assign ::
  "FileDescriptor \<Rightarrow> FileDescriptor \<Rightarrow> Kernel \<Rightarrow> (FileDescriptor \<times> FileDescriptor) \<times> Kernel"
where
  "fd_assign fd other k =
     (let (released, other') = fd_release other;
          (fd', k') = fd_reset released fd k
      in ((fd', other'), k'))"

text \<open>
  A program of such objects: they are created around a new descriptor, moved, assigned (with the
  guard of \<^verbatim>\<open>operator=\<close> against self-assignment), reset and destroyed.
\<close>

datatype FdOp = Adopt int | MoveNew nat | Assign nat nat | Reset nat | Destroy nat

fun fd_op :: "FdOp \<Rightarrow> FileDescriptor list \<times> Kernel \<Rightarrow> FileDescriptor list \<times> Kernel" where
  "fd_op (Adopt n) (fds, k) = (fds @ [n], if n \<ge> 0 then k\<lparr>k_open := n # k_open k\<rparr> else k)"
| "fd_op (MoveNew i) (fds, k) =
     (if i < length fds then let (new, old) = fd_move (fds ! i) in (fds[i := old] @ [new], k) else (fds, k))"
| "fd_op (Assign i j) (fds, k) =
     (if i < length fds \<and> j < length fds \<and> i \<noteq> j then
        let ((new, old), k') = fd_assign (fds ! i) (fds ! j) k in (fds[i := new, j := old], k')
      else (fds, k))"
| "fd_op (Reset i) (fds, k) =
     (if i < length fds then let (new, k') = fd_reset (-1) (fds ! i) k in (fds[i := new], k') else (fds, k))"
| "fd_op (Destroy i) (fds, k) =
     (if i < length fds then (take i fds @ drop (Suc i) fds, fd_destroy (fds ! i) k) else (fds, k))"

section \<open>Socket utilities\<close>

text \<open>What the calls on one address of \<^verbatim>\<open>getaddrinfo()\<close> do.\<close>

record Candidate =
  cd_socket :: "Errno + int"
  cd_bind :: "Errno option"
  cd_listen :: "Errno option"
  cd_getfl :: "Errno + int"
  cd_setfl :: "int \<Rightarrow> Errno option"

text \<open>
  \<^verbatim>\<open>set_nonblocking\<close>: the error left in \<^verbatim>\<open>errno\<close> when it returns false. The flag is added to those
  that are set.
\<close>

definition set_nonblocking :: "Errno + int \<Rightarrow> (int \<Rightarrow> Errno option) \<Rightarrow> Errno option" where
  "set_nonblocking getfl setfl =
     (case getfl of Inl e \<Rightarrow> Some e | Inr flags \<Rightarrow> setfl (or flags 2048))"

text \<open>What is wrong with an address, as the text kept in \<^verbatim>\<open>last_error\<close>, once it has a socket.\<close>

definition candidate_error :: "(Errno \<Rightarrow> string) \<Rightarrow> string \<Rightarrow> Candidate \<Rightarrow> string option" where
  "candidate_error strerror at_address cd =
     (case cd_bind cd of
        Some e \<Rightarrow> Some (''bind '' @ at_address @ '': '' @ strerror e)
      | None \<Rightarrow>
          (case cd_listen cd of
             Some e \<Rightarrow> Some (''listen '' @ at_address @ '': '' @ strerror e)
           | None \<Rightarrow>
               (case set_nonblocking (cd_getfl cd) (cd_setfl cd) of
                  Some e \<Rightarrow> Some (''fcntl(O_NONBLOCK): '' @ strerror e)
                | None \<Rightarrow> None)))"

text \<open>
  The loop over the addresses. The local \<^verbatim>\<open>fd\<close> owns the new socket; leaving the loop body by
  \<^verbatim>\<open>continue\<close> destroys it, success moves it into \<^verbatim>\<open>listener\<close>.
\<close>

fun try_candidates ::
  "(Errno \<Rightarrow> string) \<Rightarrow> string \<Rightarrow> string \<Rightarrow> Candidate list \<Rightarrow> Kernel \<Rightarrow> (string + FileDescriptor) \<times> Kernel"
where
  "try_candidates strerror at_address last_error [] k = (Inl last_error, k)"
| "try_candidates strerror at_address last_error (cd # cds) k =
     (case cd_socket cd of
        Inl e \<Rightarrow> try_candidates strerror at_address (''socket: '' @ strerror e) cds k
      | Inr n \<Rightarrow>
          let k1 = k\<lparr>k_open := n # k_open k\<rparr>
          in (case candidate_error strerror at_address cd of
                Some err \<Rightarrow> try_candidates strerror at_address err cds (fd_destroy n k1)
              | None \<Rightarrow>
                  let ((listener, fd), k2) = fd_assign fd_none n k1
                  in (Inr listener, fd_destroy fd k2)))"

definition create_listening_socket ::
  "(Errno \<Rightarrow> string) \<Rightarrow> string + Candidate list \<Rightarrow> string \<Rightarrow> 16 word \<Rightarrow> Kernel \<Rightarrow>
   (string + FileDescriptor) \<times> Kernel"
where
  "create_listening_socket strerror resolved host port k =
     (let at_address = host @ '':'' @ nat_to_string (unat port)
      in case resolved of
           Inl gai_error \<Rightarrow> (Inl (''resolve '' @ at_address @ '': '' @ gai_error), k)
         | Inr candidates \<Rightarrow> try_candidates strerror at_address ''no usable address'' candidates k)"

text \<open>
  Addresses as text and the local port: from the answers of \<^verbatim>\<open>getnameinfo()\<close> and \<^verbatim>\<open>getsockname()\<close>,
  with the port in network byte order.
\<close>

datatype Family = AF_INET | AF_INET6 | AF_OTHER

definition format_address :: "Family \<Rightarrow> (string \<times> string) option \<Rightarrow> string" where
  "format_address family names =
     (case names of
        None \<Rightarrow> ''<unknown>''
      | Some (host, serv) \<Rightarrow>
          if family = AF_INET6 then ''['' @ host @ '']:'' @ serv else host @ '':'' @ serv)"

definition local_address :: "(Family \<times> (string \<times> string) option) option \<Rightarrow> string" where
  "local_address sockname =
     (case sockname of None \<Rightarrow> ''<unknown>'' | Some (family, names) \<Rightarrow> format_address family names)"

definition ntohs :: "16 word \<Rightarrow> 16 word" where
  "ntohs w = or (push_bit 8 w) (drop_bit 8 w)"

definition local_port :: "(Family \<times> 16 word) option \<Rightarrow> 16 word" where
  "local_port sockname =
     (case sockname of
        None \<Rightarrow> 0
      | Some (family, net_port) \<Rightarrow>
          if family = AF_INET \<or> family = AF_INET6 then ntohs net_port else 0)"

section \<open>Ownership\<close>

text \<open>Every open descriptor has exactly one owner.\<close>

definition owned :: "FileDescriptor list \<times> Kernel \<Rightarrow> bool" where
  "owned st \<longleftrightarrow> mset (filter fd_valid (fst st)) = mset (k_open (snd st))"

lemma fd_valid_none [simp]: "\<not> fd_valid (-1)"
  by (simp add: fd_valid_def)

lemma mset_remove_nth:
  "i < length xs \<Longrightarrow> filter_mset P (mset (take i xs)) + filter_mset P (mset (drop (Suc i) xs)) =
     filter_mset P (mset xs) - (if P (xs ! i) then {#xs ! i#} else {#})"
  by (subst (3) id_take_nth_drop [of i xs]) auto

lemma mset_filter_update:
  assumes "i < length xs"
  shows "filter_mset P (mset (xs[i := x])) =
     filter_mset P (mset xs) - (if P (xs ! i) then {#xs ! i#} else {#}) + (if P x then {#x#} else {#})"
  unfolding upd_conv_take_nth_drop [OF assms]
  by (subst (3) id_take_nth_drop [OF assms]) auto

lemma fd_reset_open:
  "fd_reset new fd k = (new, k') \<Longrightarrow>
     mset (k_open k') = mset (k_open k) - (if fd_valid fd then {#fd#} else {#})"
  by (auto simp: fd_reset_def k_close_def fd_valid_def)

lemma fd_op_owned:
  assumes "owned st"
  shows "owned (fd_op op st)"
proof -
  obtain fds k where st: "st = (fds, k)" by (cases st)
  have own: "mset (filter fd_valid fds) = mset (k_open k)" using assms by (simp add: owned_def st)
  show ?thesis
  proof (cases op)
    case (Adopt n)
    then show ?thesis using own by (auto simp: owned_def st fd_valid_def)
  next
    case (MoveNew i)
    have "{#fds ! i#} \<subseteq># mset (filter fd_valid fds)" if "i < length fds" "fd_valid (fds ! i)"
      using that by (simp add: mset_subset_eq_single)
    with MoveNew own show ?thesis
      by (auto simp: owned_def st fd_move_def fd_release_def mset_filter_update)
  next
    case (Assign i j)
    show ?thesis
    proof (cases "i < length fds \<and> j < length fds \<and> i \<noteq> j")
      case True
      then have ij: "i < length fds" "j < length fds" "i \<noteq> j" by auto
      obtain k' where k': "fd_reset (fds ! j) (fds ! i) k = (fds ! j, k')"
        by (simp add: fd_reset_def)
      have "mset (filter fd_valid (fds[i := fds ! j, j := -1])) =
          mset (filter fd_valid fds) - (if fd_valid (fds ! i) then {#fds ! i#} else {#})"
        using ij by (auto simp: mset_filter_update)
      with k' fd_reset_open [OF k'] own ij Assign show ?thesis
        by (simp add: owned_def st fd_assign_def fd_release_def)
    qed (use own Assign st in \<open>auto simp: owned_def\<close>)
  next
    case (Reset i)
    obtain k' where k': "fd_reset (-1) (fds ! i) k = (-1, k')" by (simp add: fd_reset_def)
    with Reset own fd_reset_open [OF k'] show ?thesis
      by (auto simp: owned_def st mset_filter_update)
  next
    case (Destroy i)
    obtain k' where k': "fd_reset (-1) (fds ! i) k = (-1, k')" by (simp add: fd_reset_def)
    with Destroy own fd_reset_open [OF k'] show ?thesis
      by (auto simp: owned_def st fd_destroy_def mset_remove_nth)
  qed
qed

lemma fd_ops_owned: "owned st \<Longrightarrow> owned (fold fd_op ops st)"
  by (induction ops arbitrary: st) (simp_all add: fd_op_owned)

section \<open>Trying addresses\<close>

text \<open>
  The contract of a loop that tries addresses until one works: where an address works its
  descriptor is returned and stays open; where it does not, a descriptor it had is closed and the
  error text is replaced. The server's listening socket and the client's connection are made by
  such loops.
\<close>

locale address_search =
  fixes attempt :: "string \<Rightarrow> 'c list \<Rightarrow> Kernel \<Rightarrow> (string + int) \<times> Kernel"
    and works :: "'c \<Rightarrow> bool"
    and descriptor :: "'c \<Rightarrow> int option"
    and complain :: "'c \<Rightarrow> string \<Rightarrow> string"
    and sane :: "'c \<Rightarrow> bool"
  assumes none_left: "attempt err [] k = (Inl err, k)"
    and found: "sane c \<Longrightarrow> works c \<Longrightarrow> attempt err (c # cs) k =
      (Inr (the (descriptor c)), k\<lparr>k_open := the (descriptor c) # k_open k\<rparr>)"
    and next_one: "sane c \<Longrightarrow> \<not> works c \<Longrightarrow> attempt err (c # cs) k =
      attempt (complain c err) cs
        (k\<lparr>k_closed := k_closed k @ (case descriptor c of None \<Rightarrow> [] | Some n \<Rightarrow> [n])\<rparr>)"
begin

definition used :: "'c list \<Rightarrow> int list" where
  "used cs = List.map_filter descriptor cs"

lemma used_Cons: "used (c # cs) = (case descriptor c of None \<Rightarrow> [] | Some n \<Rightarrow> [n]) @ used cs"
  by (simp add: used_def map_filter_simps split: option.split)

lemma attempt_first:
  "list_all sane cs \<Longrightarrow> attempt err cs k =
     (let failed = takeWhile (\<lambda>c. \<not> works c) cs;
          k' = k\<lparr>k_closed := k_closed k @ used failed\<rparr>
      in case drop (length failed) cs of
           [] \<Rightarrow> (Inl (fold complain cs err), k')
         | c # rest \<Rightarrow> (Inr (the (descriptor c)), k'\<lparr>k_open := the (descriptor c) # k_open k\<rparr>))"
proof (induction cs arbitrary: err k)
  case Nil
  show ?case by (simp add: none_left used_def map_filter_simps)
next
  case (Cons c cs)
  show ?case
  proof (cases "works c")
    case True
    with Cons.prems show ?thesis by (simp add: found Let_def used_def map_filter_simps)
  next
    case False
    with Cons show ?thesis by (simp add: next_one Let_def used_Cons split: list.split)
  qed
qed

end

section \<open>The listening socket\<close>

text \<open>
  What the calls have to do for an address to be usable, call by call: there is a socket, \<^verbatim>\<open>bind()\<close>
  and \<^verbatim>\<open>listen()\<close> succeed, the flags can be read, and setting them together with \<^verbatim>\<open>O_NONBLOCK\<close>
  succeeds. The descriptor an address gives, and the message for the first call that fails.
\<close>

definition candidate_fd :: "Candidate \<Rightarrow> int option" where
  "candidate_fd cd = (case cd_socket cd of Inl e \<Rightarrow> None | Inr n \<Rightarrow> Some n)"

definition usable :: "Candidate \<Rightarrow> bool" where
  "usable cd \<longleftrightarrow>
     \<not> isl (cd_socket cd) \<and> cd_bind cd = None \<and> cd_listen cd = None \<and>
     \<not> isl (cd_getfl cd) \<and> cd_setfl cd (or (projr (cd_getfl cd)) 2048) = None"

definition failure :: "(Errno \<Rightarrow> string) \<Rightarrow> string \<Rightarrow> Candidate \<Rightarrow> string" where
  "failure strerror a cd =
     (if isl (cd_socket cd) then ''socket: '' @ strerror (projl (cd_socket cd))
      else if cd_bind cd \<noteq> None then ''bind '' @ a @ '': '' @ strerror (the (cd_bind cd))
      else if cd_listen cd \<noteq> None then ''listen '' @ a @ '': '' @ strerror (the (cd_listen cd))
      else ''fcntl(O_NONBLOCK): '' @ strerror
        (if isl (cd_getfl cd) then projl (cd_getfl cd)
         else the (cd_setfl cd (or (projr (cd_getfl cd)) 2048))))"

text \<open>The checks of the code find exactly that.\<close>

lemma candidate_error_usable:
  "cd_socket cd = Inr n \<Longrightarrow>
     candidate_error strerror a cd = (if usable cd then None else Some (failure strerror a cd))"
  by (cases "cd_getfl cd")
     (auto simp: candidate_error_def usable_def failure_def set_nonblocking_def split: option.splits)

lemma socket_error_unusable: "cd_socket cd = Inl e \<Longrightarrow> \<not> usable cd \<and> failure strerror a cd = ''socket: '' @ strerror e"
  by (simp add: usable_def failure_def)

definition fd_sane :: "Candidate \<Rightarrow> bool" where
  "fd_sane cd \<longleftrightarrow> (case cd_socket cd of Inl e \<Rightarrow> True | Inr n \<Rightarrow> 0 \<le> n)"

interpretation listening: address_search "try_candidates strerror a" usable candidate_fd
    "\<lambda>cd err. failure strerror a cd" fd_sane for strerror a
proof
  show "try_candidates strerror a err [] k = (Inl err, k)" for err k by simp
  show "try_candidates strerror a err (cd # cds) k =
      (Inr (the (candidate_fd cd)), k\<lparr>k_open := the (candidate_fd cd) # k_open k\<rparr>)"
    if "fd_sane cd" "usable cd" for cd err cds k
    using that socket_error_unusable [of cd]
    by (cases "cd_socket cd")
       (auto simp: candidate_error_usable candidate_fd_def Let_def fd_assign_def fd_release_def fd_reset_def
          fd_none_def fd_destroy_def)
  show "try_candidates strerror a err (cd # cds) k =
      try_candidates strerror a (failure strerror a cd) cds
        (k\<lparr>k_closed := k_closed k @ (case candidate_fd cd of None \<Rightarrow> [] | Some n \<Rightarrow> [n])\<rparr>)"
    if "fd_sane cd" "\<not> usable cd" for cd err cds k
    using that socket_error_unusable [of cd]
    by (cases "cd_socket cd")
       (auto simp: candidate_error_usable candidate_fd_def fd_sane_def Let_def fd_reset_def
          fd_destroy_def k_close_def)
qed

lemma fold_last: "fold (\<lambda>x err. f x) xs e = last (e # map f xs)"
  by (induction xs arbitrary: e) simp_all

text \<open>What is returned, apart from the descriptors.\<close>

lemma try_candidates_result:
  "fst (try_candidates strerror a err cds k) =
     (case dropWhile (\<lambda>cd. \<not> usable cd) cds of
        [] \<Rightarrow> Inl (last (err # map (failure strerror a) cds))
      | cd # rest \<Rightarrow> Inr (the (candidate_fd cd)))"
proof (induction cds arbitrary: err k)
  case (Cons cd cds)
  then show ?case
    using socket_error_unusable [of cd]
    by (cases "cd_socket cd")
       (auto simp: candidate_error_usable candidate_fd_def Let_def fd_assign_def fd_release_def
          fd_reset_def fd_none_def simp del: dropWhile_eq_Nil_conv split: list.split)
qed simp

section \<open>Properties\<close>

text \<open>
  C39. No descriptor is leaked or closed twice: whatever objects are created, moved, assigned
  (also to themselves), reset and destroyed, every open descriptor has exactly one owning
  object; so when the last object is gone no descriptor is open.
\<close>

theorem descriptor_ownership:
  assumes "fold fd_op ops ([], \<lparr>k_open = [], k_closed = []\<rparr>) = (fds, k)"
  shows "mset (filter fd_valid fds) = mset (k_open k) \<and> (fds = [] \<longrightarrow> k_open k = [])"
proof -
  have "owned (fold fd_op ops ([], \<lparr>k_open = [], k_closed = []\<rparr>))"
    by (rule fd_ops_owned) (simp add: owned_def)
  with assms show ?thesis by (auto simp: owned_def)
qed

theorem descriptor_ownership_witness:
  "k_open (snd (fold fd_op [Adopt 3, Adopt 4, MoveNew 0, Assign 1 1, Assign 1 2, Destroy 0, Destroy 0, Destroy 0]
     ([], \<lparr>k_open = [], k_closed = []\<rparr>))) = []"
proof -
  have "fold fd_op [Adopt 3, Adopt 4, MoveNew 0, Assign 1 1, Assign 1 2, Destroy 0, Destroy 0, Destroy 0]
      ([], \<lparr>k_open = [], k_closed = []\<rparr>) = ([], \<lparr>k_open = [], k_closed = [4, 3]\<rparr>)" by code_simp
  from this descriptor_ownership [OF this] show ?thesis by simp
qed

text \<open>
  C40. The listening socket: \<^verbatim>\<open>create_listening_socket\<close> returns the descriptor of the first address
  on which socket, bind, listen and O_NONBLOCK all succeed, and then owns exactly that one; the
  sockets of the addresses tried before are closed once each and later addresses are not
  touched. If no address works, all are closed and the error names the first call that failed
  on the last one.
\<close>

theorem create_listening_socket_first:
  assumes "list_all fd_sane cds"
  shows "let a = host @ '':'' @ nat_to_string (unat port);
             failed = takeWhile (\<lambda>cd. \<not> usable cd) cds;
             (out, k') = create_listening_socket strerror (Inr cds) host port k
         in k_closed k' = k_closed k @ List.map_filter candidate_fd failed \<and>
            (case drop (length failed) cds of
               [] \<Rightarrow> out = Inl (last (''no usable address'' # map (failure strerror a) cds)) \<and>
                 k_open k' = k_open k
             | cd # rest \<Rightarrow> out = Inr (the (candidate_fd cd)) \<and>
                 k_open k' = the (candidate_fd cd) # k_open k)"
  using listening.attempt_first [OF assms]
  by (simp add: create_listening_socket_def Let_def listening.used_def fold_last split: list.splits)

text \<open>On the first address the port is in use, on the second \<^verbatim>\<open>listen()\<close> fails, the third works.\<close>

definition sample_candidates :: "Candidate list" where
  "sample_candidates =
     [\<lparr>cd_socket = Inr 6, cd_bind = Some (OtherErrno 98), cd_listen = None, cd_getfl = Inr 2,
       cd_setfl = (\<lambda>flags. None)\<rparr>,
      \<lparr>cd_socket = Inr 7, cd_bind = None, cd_listen = Some (OtherErrno 98), cd_getfl = Inr 2,
       cd_setfl = (\<lambda>flags. None)\<rparr>,
      \<lparr>cd_socket = Inr 8, cd_bind = None, cd_listen = None, cd_getfl = Inr 2, cd_setfl = (\<lambda>flags. None)\<rparr>]"

theorem create_listening_socket_first_witness:
  "create_listening_socket (\<lambda>e. ''in use'') (Inr sample_candidates) ''::'' 80
     \<lparr>k_open = [], k_closed = []\<rparr> = (Inr 8, \<lparr>k_open = [8], k_closed = [6, 7]\<rparr>)"
proof -
  have "list_all fd_sane sample_candidates" by code_simp
  moreover have "takeWhile (\<lambda>cd. \<not> usable cd) sample_candidates = take 2 sample_candidates"
    by (simp add: sample_candidates_def usable_def numeral_2_eq_2)
  ultimately show ?thesis
    using create_listening_socket_first [of sample_candidates "''::''" 80 "\<lambda>e. ''in use''"
        "\<lparr>k_open = [], k_closed = []\<rparr>"]
    by (cases "create_listening_socket (\<lambda>e. ''in use'') (Inr sample_candidates) ''::'' 80
          \<lparr>k_open = [], k_closed = []\<rparr>")
       (simp add: sample_candidates_def candidate_fd_def map_filter_simps Let_def numeral_2_eq_2)
qed

end
