(* ===== verification/Client.thy ===== *)
theory Client
  imports Session Descriptors
begin

text \<open>
  Model of \<^verbatim>\<open>src/tools/demo_client.cpp\<close>: the demonstration client, which sends its requests over
  one connection, frames the responses by \<^verbatim>\<open>Content-Length\<close>, and checks them. Its socket is a
  script like the server's; a thrown \<^verbatim>\<open>std::exception\<close> is the \<open>Inl\<close> of its message. The client's
  socket is blocking: the script then stands for all that ever arrives, and waiting beyond it is
  the error the script reports.
\<close>

section \<open>Data\<close>

record Options =
  opt_host :: string
  opt_port :: string
  opt_pipeline :: bool
  opt_show_bytes :: bool

definition default_options :: Options where
  "default_options =
     \<lparr>opt_host = ''127.0.0.1'', opt_port = ''8080'', opt_pipeline = False, opt_show_bytes = False\<rparr>"

record Exchange =
  ex_label :: string
  ex_request :: string
  ex_expected_status :: int
  ex_expected_body :: string

record HttpResponse =
  hr_status :: int
  hr_reason :: string
  hr_headers :: "(string \<times> string) list"
  hr_body :: string
  hr_raw :: string

text \<open>
  \<^verbatim>\<open>HttpResponse::header\<close>: the first field of that name, or nothing. For a name without zero
  bytes \<^verbatim>\<open>strncasecmp\<close> on texts of the same length is the comparison of \<open>iequals\<close>.
\<close>

fun hr_find :: "string \<Rightarrow> (string \<times> string) list \<Rightarrow> string" where
  "hr_find name [] = []"
| "hr_find name ((key, v) # rest) = (if iequals key name then v else hr_find name rest)"

definition hr_header :: "HttpResponse \<Rightarrow> string \<Rightarrow> string" where
  "hr_header response name = hr_find name (hr_headers response)"

section \<open>Text\<close>

definition escape :: "string \<Rightarrow> string" where
  "escape bytes =
     concat (map (\<lambda>c. if c = CR then [CHR 0x5C, CHR ''r''] else if c = LF then [CHR 0x5C, CHR ''n'']
                      else [c]) bytes)"

text \<open>Subtraction of sizes wraps around.\<close>

definition size_minus :: "nat \<Rightarrow> nat \<Rightarrow> nat" where
  "size_minus a b = (a + 2 ^ 64 - b) mod 2 ^ 64"

definition resize :: "string \<Rightarrow> nat \<Rightarrow> char \<Rightarrow> string" where
  "resize s n c = take n s @ replicate (n - length s) c"

definition pad :: "string \<Rightarrow> nat \<Rightarrow> string" where
  "pad content width =
     resize (if width \<le> length content then substr content 0 (size_minus width 4) @ ''...''
             else content) width SP"

function trim_newline :: "string \<Rightarrow> string" where
  "trim_newline content =
     (if content \<noteq> [] \<and> (last content = LF \<or> last content = CR) then trim_newline (butlast content)
      else content)"
  by pat_completeness auto
termination
  by (relation "measure length") auto

declare trim_newline.simps [simp del]

text \<open>\<^verbatim>\<open>s.find(pattern)\<close>.\<close>

fun find_text :: "string \<Rightarrow> string \<Rightarrow> nat option" where
  "find_text pattern [] = (if pattern = [] then Some 0 else None)"
| "find_text pattern (c # s) =
     (if take (length pattern) (c # s) = pattern then Some 0
      else map_option Suc (find_text pattern s))"

text \<open>
  \<^verbatim>\<open>std::stoi\<close> and \<^verbatim>\<open>std::stoul\<close>: leading white space, an optional sign, then digits up to the
  first other character. They throw without a digit and when the value does not fit; a minus
  sign makes \<^verbatim>\<open>std::stoul\<close> negate modulo the width.
\<close>

definition is_space :: "char \<Rightarrow> bool" where
  "is_space c \<longleftrightarrow> c = SP \<or> 9 \<le> byte c \<and> byte c \<le> 13"

definition take_sign :: "string \<Rightarrow> bool \<times> string" where
  "take_sign s =
     (case dropWhile is_space s of
        [] \<Rightarrow> (False, [])
      | c # rest \<Rightarrow>
          if c = CHR ''-'' then (True, rest) else if c = CHR ''+'' then (False, rest)
          else (False, c # rest))"

definition stoi :: "string \<Rightarrow> string + int" where
  "stoi s =
     (let (negative, rest) = take_sign s;
          digits = takeWhile digit rest;
          v = (if negative then - int (decimal_value digits) else int (decimal_value digits))
      in if digits = [] then Inl ''stoi''
         else if v < - (2 ^ 31) \<or> 2 ^ 31 \<le> v then Inl ''stoi'' else Inr v)"

definition stoul :: "string \<Rightarrow> string + nat" where
  "stoul s =
     (let (negative, rest) = take_sign s;
          digits = takeWhile digit rest;
          v = decimal_value digits
      in if digits = [] then Inl ''stoul''
         else if 2 ^ 64 \<le> v then Inl ''stoul''
         else Inr (if negative then size_minus 0 v else v))"

section \<open>The socket\<close>

text \<open>\<^verbatim>\<open>send_all\<close>.\<close>

function send_all :: "Socket \<Rightarrow> string \<Rightarrow> string + Socket" where
  "send_all s data =
     (if data = [] then Inr s
      else case send s data of
        (Inl e, t) \<Rightarrow> if e = EINTR then send_all t data else Inl (''send failed: '' @ sk_strerror t e)
      | (Inr n, t) \<Rightarrow> send_all t (drop n data))"
  by pat_completeness auto
termination
  by (relation "measure (\<lambda>(s, data). length (sk_tx s))") (auto dest!: send_frame [OF sym])

declare send_all.simps [simp del]

record ResponseReader =
  rr_socket :: Socket
  rr_buffer :: string

definition new_reader :: "Socket \<Rightarrow> ResponseReader" where
  "new_reader s = \<lparr>rr_socket = s, rr_buffer = []\<rparr>"

definition fill :: "ResponseReader \<Rightarrow> string + ResponseReader" where
  "fill r =
     (case recv_retry (rr_socket r) 4096 of
        (Inr bytes, s) \<Rightarrow>
          if bytes = [] then Inl ''server closed the connection unexpectedly''
          else Inr (r\<lparr>rr_socket := s, rr_buffer := rr_buffer r @ bytes\<rparr>)
      | (Inl e, s) \<Rightarrow> Inl (''recv failed: '' @ sk_strerror s e))"

text \<open>How much the socket's script still holds: every successful \<^verbatim>\<open>fill()\<close> takes something away.\<close>

fun event_weight :: "RecvEvent \<Rightarrow> nat" where
  "event_weight (Arrived bytes) = Suc (length bytes)"
| "event_weight PeerFin = 1"
| "event_weight (RecvError e) = 1"

definition rx_weight :: "Socket \<Rightarrow> nat" where
  "rx_weight s = sum_list (map event_weight (sk_rx s))"

lemma recv_weight:
  "recv s want = (out, t) \<Longrightarrow>
     rx_weight t \<le> rx_weight s \<and>
     (\<forall>bytes. out = Inr bytes \<and> bytes \<noteq> [] \<longrightarrow> rx_weight t < rx_weight s)"
  by (auto simp: recv_def rx_weight_def split: if_splits list.splits RecvEvent.splits)

lemma recv_retry_weight:
  "recv_retry s want = (out, t) \<Longrightarrow>
     rx_weight t \<le> rx_weight s \<and>
     (\<forall>bytes. out = Inr bytes \<and> bytes \<noteq> [] \<longrightarrow> rx_weight t < rx_weight s)"
proof (induction s want arbitrary: out t rule: recv_retry.induct)
  case (1 s want)
  obtain r u where ru: "recv s want = (r, u)" by fastforce
  note w = recv_weight [OF ru]
  show ?case
  proof (cases "r = Inl EINTR")
    case True
    with "1.prems" ru have "recv_retry u want = (out, t)" by (simp add: recv_retry.simps [of s])
    with "1.IH" [of r u EINTR out t] ru True w show ?thesis by fastforce
  next
    case False
    with "1.prems" ru have "(out, t) = (r, u)"
      by (simp add: recv_retry.simps [of s] split: sum.splits Errno.splits)
    with w show ?thesis by simp
  qed
qed

lemma fill_weight: "fill r = Inr r' \<Longrightarrow> rx_weight (rr_socket r') < rx_weight (rr_socket r)"
  using recv_retry_weight [of "rr_socket r" 4096]
  by (fastforce simp: fill_def split: prod.splits sum.splits if_splits)

text \<open>The loops around \<^verbatim>\<open>fill()\<close>: until the buffer satisfies what the caller waits for.\<close>

function fill_until :: "(string \<Rightarrow> bool) \<Rightarrow> ResponseReader \<Rightarrow> string + ResponseReader" where
  "fill_until enough r =
     (if enough (rr_buffer r) then Inr r
      else case fill r of Inl e \<Rightarrow> Inl e | Inr r' \<Rightarrow> fill_until enough r')"
  by pat_completeness auto
termination
  by (relation "measure (\<lambda>(enough, r). rx_weight (rr_socket r))") (auto dest: fill_weight)

declare fill_until.simps [simp del]

section \<open>Reading a response\<close>

text \<open>
  The header loop of \<^verbatim>\<open>read_one\<close>, on what is left of the head. Without a line end (which a head
  always has) the loop would start over at the second byte, for ever: \<^const>\<open>None\<close>.
\<close>

lemma find_text_bound: "find_text p s = Some k \<Longrightarrow> k + length p \<le> length s"
proof (induction p s arbitrary: k rule: find_text.induct)
  case (2 p c s)
  show ?case
  proof (cases "take (length p) (c # s) = p")
    case True
    with "2.prems" have "length (take (length p) (c # s)) = length p" "k = 0" by simp_all
    then show ?thesis by (simp del: length_Cons)
  next
    case False
    with "2.prems" "2.IH" show ?thesis by auto
  qed
qed (simp split: if_splits)

definition header_field :: "string \<Rightarrow> string \<times> string" where
  "header_field line =
     (let colon = find_char (CHR '':'') line;
          v = (case colon of None \<Rightarrow> line | Some i \<Rightarrow> drop (i + 1) line)
      in (prefix_to line colon, dropWhile (\<lambda>c. c = SP) v))"

function read_headers :: "string \<Rightarrow> (string \<times> string) list option" where
  "read_headers rest =
     (if rest = [] then Some []
      else case find_text CRLF rest of
        None \<Rightarrow> None
      | Some line_end \<Rightarrow>
          map_option (\<lambda>more. header_field (take line_end rest) # more)
            (read_headers (drop (line_end + 2) rest)))"
  by pat_completeness auto
termination
  by (relation "measure length") (auto dest: find_text_bound)

declare read_headers.simps [simp del]

definition read_status :: "string \<Rightarrow> string + int \<times> string" where
  "read_status line =
     (case find_char SP line of
        None \<Rightarrow> Inl (''malformed status line: '' @ line)
      | Some sp1 \<Rightarrow>
          if take 5 line \<noteq> ''HTTP/'' then Inl (''malformed status line: '' @ line)
          else
            let sp2 = find_from SP line (sp1 + 1);
                code = (case sp2 of None \<Rightarrow> drop (sp1 + 1) line
                        | Some k \<Rightarrow> substr line (sp1 + 1) (k - sp1 - 1));
                reason = (case sp2 of None \<Rightarrow> [] | Some k \<Rightarrow> drop (k + 1) line)
            in case stoi code of Inl e \<Rightarrow> Inl e | Inr status \<Rightarrow> Inr (status, reason))"

text \<open>The head, up to and with the line end of the last field, and the end of the whole head.\<close>

definition read_head :: "string \<Rightarrow> (string + HttpResponse) option" where
  "read_head head =
     (case find_text CRLF head of
        None \<Rightarrow> None
      | Some status_line_end \<Rightarrow>
          (case read_status (take status_line_end head) of
             Inl e \<Rightarrow> Some (Inl e)
           | Inr (status, reason) \<Rightarrow>
               map_option (\<lambda>headers. Inr \<lparr>hr_status = status, hr_reason = reason, hr_headers = headers,
                                          hr_body = [], hr_raw = []\<rparr>)
                 (read_headers (drop (status_line_end + 2) head))))"

text \<open>The end of the response in the buffer: the sum of two sizes, which wraps around.\<close>

definition response_end :: "nat \<Rightarrow> nat \<Rightarrow> nat" where
  "response_end head_end body_length = (head_end + body_length) mod 2 ^ 64"

definition take_body :: "nat \<Rightarrow> nat \<Rightarrow> HttpResponse \<Rightarrow> ResponseReader \<Rightarrow> HttpResponse \<times> ResponseReader" where
  "take_body head_end body_length response r =
     (let e = response_end head_end body_length
      in (response\<lparr>hr_body := substr (rr_buffer r) head_end body_length,
                   hr_raw := substr (rr_buffer r) 0 e\<rparr>,
          r\<lparr>rr_buffer := drop e (rr_buffer r)\<rparr>))"

definition read_body ::
  "nat \<Rightarrow> HttpResponse \<Rightarrow> ResponseReader \<Rightarrow> string + HttpResponse \<times> ResponseReader"
where
  "read_body head_end response r =
     (let length_text = hr_header response ''Content-Length''
      in if length_text = [] then Inl ''response has no Content-Length''
         else case stoul length_text of
           Inl e \<Rightarrow> Inl e
         | Inr body_length \<Rightarrow>
             (case fill_until (\<lambda>b. response_end head_end body_length \<le> length b) r of
                Inl e \<Rightarrow> Inl e
              | Inr r' \<Rightarrow> Inr (take_body head_end body_length response r')))"

definition read_one :: "ResponseReader \<Rightarrow> (string + HttpResponse \<times> ResponseReader) option" where
  "read_one r =
     (case fill_until (\<lambda>b. find_text (CRLF @ CRLF) b \<noteq> None) r of
        Inl e \<Rightarrow> Some (Inl e)
      | Inr r' \<Rightarrow>
          let head_end = the (find_text (CRLF @ CRLF) (rr_buffer r')) + 4
          in (case read_head (take (head_end - 2) (rr_buffer r')) of
                None \<Rightarrow> None
              | Some (Inl e) \<Rightarrow> Some (Inl e)
              | Some (Inr response) \<Rightarrow> Some (read_body head_end response r')))"

section \<open>The demonstration\<close>

definition get_request :: "string \<Rightarrow> string \<Rightarrow> string" where
  "get_request target host = ''GET '' @ target @ '' HTTP/1.1'' @ CRLF @ host @ CRLF"

definition build_exchanges :: "string \<Rightarrow> Exchange list" where
  "build_exchanges host_header =
     (let host = ''Host: '' @ host_header @ CRLF
      in [\<lparr>ex_label = ''GET /add?a=2&b=3'', ex_request = get_request ''/add?a=2&b=3'' host,
           ex_expected_status = 200, ex_expected_body = ''5'' @ [LF]\<rparr>,
          \<lparr>ex_label = ''GET /sub?a=10&b=4'', ex_request = get_request ''/sub?a=10&b=4'' host,
           ex_expected_status = 200, ex_expected_body = ''6'' @ [LF]\<rparr>,
          \<lparr>ex_label = ''GET /mul?a=6&b=7'', ex_request = get_request ''/mul?a=6&b=7'' host,
           ex_expected_status = 200, ex_expected_body = ''42'' @ [LF]\<rparr>,
          \<lparr>ex_label = ''GET /div?a=1&b=0'', ex_request = get_request ''/div?a=1&b=0'' host,
           ex_expected_status = 400, ex_expected_body = []\<rparr>,
          \<lparr>ex_label = ''GET /pow?a=2&b=8'', ex_request = get_request ''/pow?a=2&b=8'' host,
           ex_expected_status = 404, ex_expected_body = []\<rparr>,
          \<lparr>ex_label = ''POST /add (7-byte body)'',
           ex_request = ''POST /add HTTP/1.1'' @ CRLF @ host @ ''Content-Length: 7'' @ CRLF @ CRLF @
             ''a=2&b=3'',
           ex_expected_status = 405, ex_expected_body = []\<rparr>,
          \<lparr>ex_label = ''GET /add (no Host header)'', ex_request = get_request ''/add?a=2&b=3'' [],
           ex_expected_status = 400, ex_expected_body = []\<rparr>])"

definition passes :: "Exchange \<Rightarrow> HttpResponse \<Rightarrow> bool" where
  "passes exchange response \<longleftrightarrow>
     hr_status response = ex_expected_status exchange \<and>
     (ex_expected_body exchange = [] \<or> hr_body response = ex_expected_body exchange)"

text \<open>\<^verbatim>\<open>report\<close>: the lines it prints, and whether the response is the expected one.\<close>

definition report :: "nat \<Rightarrow> Exchange \<Rightarrow> HttpResponse \<Rightarrow> bool \<Rightarrow> string \<times> bool" where
  "report index exchange response show_bytes =
     (let pass = passes exchange response
      in ('' '' @ pad (nat_to_string index) 3 @ pad (ex_label exchange) 27 @
          pad (int_to_string (ex_expected_status exchange)) 8 @ pad (int_to_string (hr_status response)) 5 @
          pad (trim_newline (hr_body response)) 36 @ pad (hr_header response ''X-Connection-Id'') 9 @
          pad (hr_header response ''X-Request-Number'') 6 @ (if pass then ''PASS'' else ''FAIL'') @ [LF] @
          (if show_bytes then
             ''      >>> '' @ [CHR 0x22] @ escape (ex_request exchange) @ [CHR 0x22, LF] @
             ''      <<< '' @ [CHR 0x22] @ escape (hr_raw response) @ [CHR 0x22, LF]
           else []), pass))"

text \<open>Sending over the reader's socket: both use the one descriptor.\<close>

definition reader_send :: "string \<Rightarrow> ResponseReader \<Rightarrow> string + ResponseReader" where
  "reader_send data r =
     (case send_all (rr_socket r) data of Inl e \<Rightarrow> Inl e | Inr s \<Rightarrow> Inr (r\<lparr>rr_socket := s\<rparr>))"

fun read_many :: "nat \<Rightarrow> ResponseReader \<Rightarrow> (string + HttpResponse list \<times> ResponseReader) option" where
  "read_many 0 r = Some (Inr ([], r))"
| "read_many (Suc n) r =
     (case read_one r of
        None \<Rightarrow> None
      | Some (Inl e) \<Rightarrow> Some (Inl e)
      | Some (Inr (response, r1)) \<Rightarrow>
          (case read_many n r1 of
             None \<Rightarrow> None
           | Some (Inl e) \<Rightarrow> Some (Inl e)
           | Some (Inr (responses, r2)) \<Rightarrow> Some (Inr (response # responses, r2))))"

fun talk_sequential ::
  "Exchange list \<Rightarrow> ResponseReader \<Rightarrow> (string + HttpResponse list \<times> ResponseReader) option"
where
  "talk_sequential [] r = Some (Inr ([], r))"
| "talk_sequential (exchange # exchanges) r =
     (case reader_send (ex_request exchange) r of
        Inl e \<Rightarrow> Some (Inl e)
      | Inr r1 \<Rightarrow>
          (case read_one r1 of
             None \<Rightarrow> None
           | Some (Inl e) \<Rightarrow> Some (Inl e)
           | Some (Inr (response, r2)) \<Rightarrow>
               (case talk_sequential exchanges r2 of
                  None \<Rightarrow> None
                | Some (Inl e) \<Rightarrow> Some (Inl e)
                | Some (Inr (responses, r3)) \<Rightarrow> Some (Inr (response # responses, r3)))))"

definition talk_pipelined ::
  "Exchange list \<Rightarrow> ResponseReader \<Rightarrow> (string + HttpResponse list \<times> ResponseReader) option"
where
  "talk_pipelined exchanges r =
     (case reader_send (concat (map ex_request exchanges)) r of
        Inl e \<Rightarrow> Some (Inl e)
      | Inr r1 \<Rightarrow> read_many (length exchanges) r1)"

text \<open>The evidence that one connection carried every request.\<close>

definition all_pass :: "Exchange list \<Rightarrow> HttpResponse list \<Rightarrow> bool" where
  "all_pass exchanges responses \<longleftrightarrow> list_all (\<lambda>(x, r). passes x r) (zip exchanges responses)"

definition same_connection :: "HttpResponse list \<Rightarrow> bool" where
  "same_connection responses \<longleftrightarrow>
     list_all (\<lambda>i. hr_header (responses ! i) ''X-Connection-Id'' = hr_header (hd responses) ''X-Connection-Id'' \<and>
                   hr_header (responses ! i) ''X-Request-Number'' = nat_to_string (i + 1))
       [0..<length responses]"

text \<open>
  \<^verbatim>\<open>socket_is_open\<close>, from what \<^verbatim>\<open>poll()\<close> returned and what \<^verbatim>\<open>recv()\<close> with \<^verbatim>\<open>MSG_PEEK\<close> saw: the
  error, or the number of bytes.
\<close>

definition socket_is_open :: "int \<Rightarrow> Errno + nat \<Rightarrow> (Errno \<Rightarrow> string) \<Rightarrow> bool \<times> string" where
  "socket_is_open ready peeked strerror =
     (if ready = 0 then (True, ''poll(): no FIN, RST or data pending'')
      else case peeked of
        Inr n \<Rightarrow>
          if 0 < n then (True, ''unexpected unsolicited data pending, but the connection is open'')
          else (False, ''server sent FIN (closed)'')
      | Inl e \<Rightarrow>
          if e = EAGAIN \<or> e = EWOULDBLOCK then (True, ''no FIN or RST pending'')
          else (False, ''socket error: '' @ strerror e))"

definition probe_request :: "Options \<Rightarrow> string" where
  "probe_request options =
     ''GET /div?a=84&b=2 HTTP/1.1'' @ CRLF @ ''Host: '' @ opt_host options @ '':'' @ opt_port options @
     CRLF @ CRLF"

definition probe_ok :: "string \<Rightarrow> HttpResponse \<Rightarrow> bool" where
  "probe_ok connection_id probe \<longleftrightarrow>
     hr_status probe = 200 \<and> hr_body probe = ''42'' @ [LF] \<and>
     hr_header probe ''X-Connection-Id'' = connection_id"

text \<open>
  What \<^verbatim>\<open>main\<close> does with the connected socket: the responses to the exchanges, and the response to
  the probe, which is only sent when the socket is still open.
\<close>

definition client_session ::
  "Options \<Rightarrow> bool \<Rightarrow> Socket \<Rightarrow> (string + HttpResponse list \<times> HttpResponse option) option"
where
  "client_session options still_open s =
     (let exchanges = build_exchanges (opt_host options @ '':'' @ opt_port options);
          talk = (if opt_pipeline options then talk_pipelined else talk_sequential)
      in case talk exchanges (new_reader s) of
           None \<Rightarrow> None
         | Some (Inl e) \<Rightarrow> Some (Inl e)
         | Some (Inr (responses, r)) \<Rightarrow>
             if \<not> still_open then Some (Inr (responses, None))
             else case reader_send (probe_request options) r of
               Inl e \<Rightarrow> Some (Inl e)
             | Inr r1 \<Rightarrow>
                 (case read_one r1 of
                    None \<Rightarrow> None
                  | Some (Inl e) \<Rightarrow> Some (Inl e)
                  | Some (Inr (probe, r2)) \<Rightarrow> Some (Inr (responses, Some probe))))"

text \<open>The verdict on what was received; the local address is asked for before and after.\<close>

definition probe_passes :: "HttpResponse list \<Rightarrow> HttpResponse option \<Rightarrow> bool" where
  "probe_passes responses probe =
     (case probe of
        None \<Rightarrow> False
      | Some p \<Rightarrow> probe_ok (hr_header (hd responses) ''X-Connection-Id'') p)"

definition client_passes ::
  "Options \<Rightarrow> string \<Rightarrow> string \<Rightarrow> bool \<Rightarrow> HttpResponse list \<Rightarrow> HttpResponse option \<Rightarrow> bool"
where
  "client_passes options local_before local_after still_open responses probe \<longleftrightarrow>
     all_pass (build_exchanges (opt_host options @ '':'' @ opt_port options)) responses \<and>
     same_connection responses \<and> local_before = local_after \<and> still_open \<and>
     probe_passes responses probe"

text \<open>
  \<^verbatim>\<open>connect_once\<close>: the first address that can be connected to, from what \<^verbatim>\<open>socket()\<close> and \<^verbatim>\<open>connect()\<close> do
  on each; the sockets that cannot are closed.
\<close>

record Endpoint =
  ep_socket :: "Errno + int"
  ep_connect :: "Errno option"

fun connect_loop ::
  "(Errno \<Rightarrow> string) \<Rightarrow> string \<Rightarrow> Endpoint list \<Rightarrow> Kernel \<Rightarrow> (string + int) \<times> Kernel"
where
  "connect_loop strerror error [] k = (Inl error, k)"
| "connect_loop strerror error (ep # eps) k =
     (case ep_socket ep of
        Inl e \<Rightarrow> connect_loop strerror error eps k
      | Inr n \<Rightarrow>
          let k1 = k\<lparr>k_open := n # k_open k\<rparr>
          in (case ep_connect ep of
                None \<Rightarrow> (Inr n, k1)
              | Some e \<Rightarrow> connect_loop strerror (strerror e) eps (k_close n k1)))"

definition connect_once ::
  "(Errno \<Rightarrow> string) \<Rightarrow> string + Endpoint list \<Rightarrow> Options \<Rightarrow> Kernel \<Rightarrow> (string + int) \<times> Kernel"
where
  "connect_once strerror resolved options k =
     (case resolved of
        Inl gai_error \<Rightarrow> (Inl (''resolve '' @ opt_host options @ '': '' @ gai_error), k)
      | Inr endpoints \<Rightarrow>
          (case connect_loop strerror ''no address'' endpoints k of
             (Inr fd, k') \<Rightarrow> (Inr fd, k')
           | (Inl error, k') \<Rightarrow>
               (Inl (''connect to '' @ opt_host options @ '':'' @ opt_port options @ '' failed: '' @ error), k')))"

text \<open>The command line; \<^const>\<open>None\<close> is the usage message and exit status 2.\<close>

fun parse_options :: "string list \<Rightarrow> Options \<Rightarrow> Options option" where
  "parse_options [] options = Some options"
| "parse_options [arg] options =
     (if arg = ''--pipeline'' then Some (options\<lparr>opt_pipeline := True\<rparr>)
      else if arg = ''--show-bytes'' then Some (options\<lparr>opt_show_bytes := True\<rparr>)
      else None)"
| "parse_options (arg # v # args) options =
     (if arg = ''--host'' then parse_options args (options\<lparr>opt_host := v\<rparr>)
      else if arg = ''--port'' then parse_options args (options\<lparr>opt_port := v\<rparr>)
      else if arg = ''--pipeline'' then parse_options (v # args) (options\<lparr>opt_pipeline := True\<rparr>)
      else if arg = ''--show-bytes'' then parse_options (v # args) (options\<lparr>opt_show_bytes := True\<rparr>)
      else None)"

section \<open>What main prints\<close>

text \<open>
  \<^verbatim>\<open>socket_endpoint\<close>, from whether the address could be asked for and what \<^verbatim>\<open>getnameinfo()\<close> gives for it.
\<close>

definition socket_endpoint :: "bool \<Rightarrow> (string \<times> string) option \<Rightarrow> string" where
  "socket_endpoint named info =
     (if \<not> named then ''?''
      else case info of None \<Rightarrow> ''?'' | Some (host, service) \<Rightarrow> host @ '':'' @ service)"

definition connected_line :: "int \<Rightarrow> string \<Rightarrow> string \<Rightarrow> string" where
  "connected_line fd local_before server =
     ''connect() called exactly once: local '' @ local_before @ '' -> server '' @ server @
     '' (socket fd '' @ int_to_string fd @ '')'' @ [LF]"

definition mode_line :: "bool \<Rightarrow> string" where
  "mode_line pipeline =
     (if pipeline
      then ''mode: PIPELINED - all requests written with one send_all(), then all responses read''
      else ''mode: sequential - send a request, read its response, send the next'') @ [LF, LF]"

definition table_header :: string where
  "table_header =
     '' '' @ pad ''#'' 3 @ pad ''request'' 27 @ pad ''expect'' 8 @ pad ''got'' 5 @
     pad ''response body'' 36 @ pad ''conn-id'' 9 @ pad ''req#'' 6 @ ''result'' @ [LF]"

definition table_rows :: "Exchange list \<Rightarrow> HttpResponse list \<Rightarrow> bool \<Rightarrow> string" where
  "table_rows exchanges responses show_bytes =
     concat (map (\<lambda>i. fst (report (i + 1) (exchanges ! i) (responses ! i) show_bytes))
       [0..<length exchanges])"

definition evidence_text ::
  "int \<Rightarrow> string \<Rightarrow> string \<Rightarrow> nat \<Rightarrow> HttpResponse list \<Rightarrow> bool \<times> string \<Rightarrow> string"
where
  "evidence_text fd local_before local_after exchange_count responses is_open =
     [LF] @ ''same connection?'' @ [LF] @
     ''  client side: same socket fd '' @ int_to_string fd @ '', local endpoint '' @ local_before @
     '' before and '' @ local_after @ '' after'' @
     (if local_before = local_after then '' (unchanged)'' else '' (CHANGED!)'') @ [LF] @
     ''  server side: every response has X-Connection-Id '' @ hr_header (hd responses) ''X-Connection-Id'' @
     '' and X-Request-Number counts 1..'' @ nat_to_string (length responses) @
     (if same_connection responses then '' in order'' else '' -- MISMATCH'') @ [LF] @
     ''socket still open after '' @ nat_to_string exchange_count @ '' requests? '' @
     (if fst is_open then ''YES'' else ''NO'') @ '' ('' @ snd is_open @ '')'' @ [LF]"

definition probe_line :: "HttpResponse \<Rightarrow> string" where
  "probe_line probe =
     ''liveness probe on the same socket: GET /div?a=84&b=2 -> '' @ int_to_string (hr_status probe) @ '' '' @
     trim_newline (hr_body probe) @ '' (X-Connection-Id '' @ hr_header probe ''X-Connection-Id'' @
     '', X-Request-Number '' @ hr_header probe ''X-Request-Number'' @ '')'' @ [LF]"

definition result_line :: "bool \<Rightarrow> bool \<Rightarrow> bool \<Rightarrow> nat \<Rightarrow> nat \<Rightarrow> string" where
  "result_line pass probed is_open exchange_count response_count =
     [LF] @ ''RESULT: '' @ (if pass then ''PASS'' else ''FAIL'') @ '' - '' @
     nat_to_string (exchange_count + (if probed then 1 else 0)) @ '' requests, '' @
     nat_to_string (response_count + (if probed then 1 else 0)) @ '' responses, 1 TCP connection, socket '' @
     (if is_open then ''still open'' else ''closed'') @ [LF]"

text \<open>All that a run prints which reaches its verdict.\<close>

definition client_output ::
  "Options \<Rightarrow> int \<Rightarrow> string \<Rightarrow> string \<Rightarrow> string \<Rightarrow> bool \<times> string \<Rightarrow> HttpResponse list \<Rightarrow>
   HttpResponse option \<Rightarrow> string"
where
  "client_output options fd local_before local_after server is_open responses probe =
     (let exchanges = build_exchanges (opt_host options @ '':'' @ opt_port options)
      in connected_line fd local_before server @ mode_line (opt_pipeline options) @ table_header @
         table_rows exchanges responses (opt_show_bytes options) @
         evidence_text fd local_before local_after (length exchanges) responses is_open @
         (case probe of None \<Rightarrow> [] | Some p \<Rightarrow> probe_line p) @
         result_line (client_passes options local_before local_after (fst is_open) responses probe)
           (probe_passes responses probe) (fst is_open) (length exchanges) (length responses))"

section \<open>The whole program\<close>

text \<open>
  How a run ends: with the usage message, with an exception and its message on the error stream,
  or with a verdict and all that was printed.
\<close>

datatype ClientResult = Usage | Failed string | Verdict bool string

primrec client_status :: "ClientResult \<Rightarrow> int" where
  "client_status Usage = 2"
| "client_status (Failed e) = 1"
| "client_status (Verdict pass printed) = (if pass then 0 else 1)"

text \<open>
  The kernel's side of a run, besides connecting: the socket behind a connected descriptor, the
  local address before and after, the server's, and what \<^verbatim>\<open>socket_is_open\<close> learns from \<^verbatim>\<open>poll()\<close> and
  \<^verbatim>\<open>recv()\<close>.
\<close>

record Surroundings =
  su_conversation :: "int \<Rightarrow> Socket"
  su_local_before :: string
  su_local_after :: string
  su_server :: string
  su_ready :: int
  su_peeked :: "Errno + nat"

definition su_open :: "Surroundings \<Rightarrow> int \<Rightarrow> bool \<times> string" where
  "su_open su fd = socket_is_open (su_ready su) (su_peeked su) (sk_strerror (su_conversation su fd))"

text \<open>
  \<^verbatim>\<open>main\<close>: the result and the descriptors afterwards; the descriptor is closed after a verdict, and
  left to the system after an exception.
\<close>

definition client_main ::
  "string list \<Rightarrow> (Errno \<Rightarrow> string) \<Rightarrow> string + Endpoint list \<Rightarrow> Surroundings \<Rightarrow> Kernel \<Rightarrow>
   (ClientResult \<times> Kernel) option"
where
  "client_main args strerror resolved su k =
     (case parse_options args default_options of
        None \<Rightarrow> Some (Usage, k)
      | Some options \<Rightarrow>
          (case connect_once strerror resolved options k of
             (Inl e, k') \<Rightarrow> Some (Failed e, k')
           | (Inr fd, k') \<Rightarrow>
               let is_open = su_open su fd
               in (case client_session options (fst is_open) (su_conversation su fd) of
                     None \<Rightarrow> None
                   | Some (Inl e) \<Rightarrow> Some (Failed e, k')
                   | Some (Inr (responses, probe)) \<Rightarrow>
                       Some (Verdict (client_passes options (su_local_before su) (su_local_after su)
                               (fst is_open) responses probe)
                             (client_output options fd (su_local_before su) (su_local_after su) (su_server su)
                               is_open responses probe),
                             k_close fd k'))))"

end
