(* ===== verification/Client_Reader.thy ===== *)
theory Client_Reader
  imports Client
begin

text \<open>
  The client's response reader is the inverse of the server's \<^verbatim>\<open>serialize\<close>: whatever pieces the
  bytes arrive in, \<^verbatim>\<open>read_one\<close> gives back the response that was written and keeps exactly the
  bytes that follow it.
\<close>

section \<open>What the socket still delivers\<close>

text \<open>The bytes that arrive before the end of the stream or the first error that is reported.\<close>

fun rx_bytes :: "RecvEvent list \<Rightarrow> string" where
  "rx_bytes [] = []"
| "rx_bytes (Arrived bytes # events) = (if bytes = [] then [] else bytes @ rx_bytes events)"
| "rx_bytes (PeerFin # events) = []"
| "rx_bytes (RecvError e # events) = (if e = EINTR then rx_bytes events else [])"

definition reader_stream :: "ResponseReader \<Rightarrow> string" where
  "reader_stream r = rr_buffer r @ rx_bytes (sk_rx (rr_socket r))"

lemma recv_stream:
  assumes "rx_bytes (sk_rx s) \<noteq> []" and "0 < want" and "recv s want = (out, t)"
  shows "out = Inl EINTR \<and> rx_bytes (sk_rx t) = rx_bytes (sk_rx s) \<or>
     (\<exists>bytes. out = Inr bytes \<and> bytes \<noteq> [] \<and> rx_bytes (sk_rx s) = bytes @ rx_bytes (sk_rx t))"
  using assms by (auto simp: recv_def split: if_splits list.splits RecvEvent.splits)

lemma recv_retry_stream:
  "rx_bytes (sk_rx s) \<noteq> [] \<Longrightarrow> 0 < want \<Longrightarrow>
     \<exists>bytes t. recv_retry s want = (Inr bytes, t) \<and> bytes \<noteq> [] \<and>
       rx_bytes (sk_rx s) = bytes @ rx_bytes (sk_rx t)"
proof (induction s want rule: recv_retry.induct)
  case (1 s want)
  obtain out u where u: "recv s want = (out, u)" by fastforce
  from recv_stream [OF "1.prems" u] show ?case
  proof (elim disjE exE conjE)
    assume eintr: "out = Inl EINTR" and same: "rx_bytes (sk_rx u) = rx_bytes (sk_rx s)"
    have "recv_retry s want = recv_retry u want" using u eintr by (simp add: recv_retry.simps [of s])
    with "1.IH" [OF u [symmetric] eintr refl] "1.prems" same show ?thesis by simp
  next
    fix bytes
    assume "out = Inr bytes" "bytes \<noteq> []" "rx_bytes (sk_rx s) = bytes @ rx_bytes (sk_rx u)"
    with u show ?thesis by (simp add: recv_retry.simps [of s])
  qed
qed

text \<open>The sending side is not touched by reading.\<close>

definition reads :: "ResponseReader \<Rightarrow> ResponseReader \<Rightarrow> bool" where
  "reads r r' \<longleftrightarrow> sk_tx (rr_socket r') = sk_tx (rr_socket r) \<and> sk_wire (rr_socket r') = sk_wire (rr_socket r)"

lemma reads_refl [simp]: "reads r r"
  by (simp add: reads_def)

lemma reads_trans: "reads r r' \<Longrightarrow> reads r' r'' \<Longrightarrow> reads r r''"
  by (simp add: reads_def)

lemma fill_stream:
  assumes "rx_bytes (sk_rx (rr_socket r)) \<noteq> []"
  shows "\<exists>r'. fill r = Inr r' \<and> reader_stream r' = reader_stream r \<and> reads r r'"
proof -
  obtain bytes t where t: "recv_retry (rr_socket r) 4096 = (Inr bytes, t)" "bytes \<noteq> []"
    "rx_bytes (sk_rx (rr_socket r)) = bytes @ rx_bytes (sk_rx t)"
    using recv_retry_stream [OF assms, of 4096] by auto
  with recv_retry_frame [OF t(1)] show ?thesis by (simp add: fill_def reader_stream_def reads_def)
qed

lemma fill_until_stream:
  assumes "enough (reader_stream r)" and "\<And>b x. enough b \<Longrightarrow> enough (b @ x)"
  shows "\<exists>r'. fill_until enough r = Inr r' \<and> enough (rr_buffer r') \<and>
     reader_stream r' = reader_stream r \<and> reads r r'"
  using assms(1)
proof (induction r rule: measure_induct_rule [where f = "\<lambda>r. rx_weight (rr_socket r)"])
  case (less r)
  show ?case
  proof (cases "enough (rr_buffer r)")
    case True
    then show ?thesis by (simp add: fill_until.simps [of enough r])
  next
    case False
    with less.prems have "rx_bytes (sk_rx (rr_socket r)) \<noteq> []" by (auto simp: reader_stream_def)
    then obtain r1 where r1: "fill r = Inr r1" "reader_stream r1 = reader_stream r" "reads r r1"
      using fill_stream by blast
    with less.IH [of r1] less.prems fill_weight [OF r1(1)] False reads_trans [OF r1(3)]
    show ?thesis by (auto simp: fill_until.simps [of enough r])
  qed
qed

section \<open>Finding line ends\<close>

lemma find_text_append: "find_text p s = Some k \<Longrightarrow> find_text p (s @ t) = Some k"
proof (induction p s arbitrary: k rule: find_text.induct)
  case (1 p)
  then show ?case by (cases t) (auto split: if_splits)
next
  case (2 p c s)
  show ?case
  proof (cases "take (length p) (c # s) = p")
    case True
    then have "length p \<le> length (c # s)" by (metis length_take min.absorb_iff2)
    then have "take (length p) (c # s @ t) = take (length p) (c # s)"
      using take_append [of "length p" "c # s" t] by simp
    with True "2.prems" show ?thesis by (simp del: take_append)
  next
    case False
    with "2.prems" obtain j where j: "find_text p s = Some j" "k = Suc j" by auto
    then have "length p \<le> length (c # s)" using find_text_bound [of p s j] by simp
    then have "take (length p) (c # s @ t) = take (length p) (c # s)"
      using take_append [of "length p" "c # s" t] by simp
    with False "2.IH" [OF False j(1)] j(2) show ?thesis by (simp del: take_append)
  qed
qed

lemma find_text_skip:
  "CR \<notin> set l \<Longrightarrow> find_text (CR # p) (l @ s) = map_option (\<lambda>k. length l + k) (find_text (CR # p) s)"
  by (cases "find_text (CR # p) s"; induction l) auto

lemma find_line_end: "single_line l \<Longrightarrow> find_text CRLF (l @ CR # LF # s) = Some (length l)"
  by (simp add: find_text_skip single_line_def)

lemma find_head_break:
  assumes "single_line l" and "c \<noteq> CR"
  shows "find_text (CRLF @ CRLF) (l @ CR # LF # c # s) =
     map_option (\<lambda>k. length l + 2 + k) (find_text (CRLF @ CRLF) (c # s))"
proof -
  have "find_text (CRLF @ CRLF) (CR # LF # c # s) =
      map_option (\<lambda>k. 2 + k) (find_text (CRLF @ CRLF) (c # s))"
    using assms(2) by (cases "find_text (CRLF @ CRLF) (c # s)") auto
  then show ?thesis
    using assms(1) find_text_skip [of l "LF # CRLF" "CR # LF # c # s"]
    by (cases "find_text (CRLF @ CRLF) (c # s)") (simp_all add: single_line_def)
qed

lemma find_head_end:
  "list_all (\<lambda>l. l \<noteq> [] \<and> single_line l) ls \<Longrightarrow> single_line l \<Longrightarrow>
     find_text (CRLF @ CRLF) (head_text (l # ls) @ s) = Some (length (head_text (l # ls)) - 4)"
proof (induction ls arbitrary: l)
  case Nil
  then show ?case by (simp add: find_text_skip single_line_def)
next
  case (Cons k ks)
  then obtain c k' where k: "k = c # k'" "c \<noteq> CR" "single_line k" by (cases k) auto
  have "find_text (CRLF @ CRLF) (head_text (k # ks) @ s) = Some (length (head_text (k # ks)) - 4)"
    using Cons.IH [OF _ k(3)] Cons.prems(1) by simp
  moreover have "2 \<le> length (head_text ks)" by (cases ks) simp_all
  moreover have "find_text (CRLF @ CRLF) (l @ CR # LF # head_text (k # ks) @ s) =
      map_option (\<lambda>j. length l + 2 + j) (find_text (CRLF @ CRLF) (head_text (k # ks) @ s))"
    using find_head_break [OF Cons.prems(2) k(2), of "k' @ CR # LF # head_text ks @ s"] by (simp add: k)
  ultimately have "find_text (CRLF @ CRLF) (l @ CR # LF # head_text (k # ks) @ s) =
      Some (length l + 2 + (length (head_text (k # ks)) - 4))" by simp
  then show ?case using \<open>2 \<le> length (head_text ks)\<close> by simp
qed

lemma read_headers_lines:
  "list_all single_line ls \<Longrightarrow> read_headers (concat (map (\<lambda>l. l @ CRLF) ls)) = Some (map header_field ls)"
proof (induction ls)
  case Nil
  show ?case by (simp add: read_headers.simps)
next
  case (Cons l ls)
  then show ?case
    using find_line_end [of l "concat (map (\<lambda>l. l @ CRLF) ls)"]
    by (simp add: read_headers.simps [of "l @ CR # LF # concat (map (\<lambda>l. l @ CRLF) ls)"])
qed

section \<open>Fields and numbers\<close>

lemma header_field_line:
  assumes "CHR '':'' \<notin> set name" and "v = [] \<or> hd v \<noteq> SP"
  shows "header_field (name @ '': '' @ v) = (name, v)"
proof -
  have "dropWhile (\<lambda>c. c = SP) v = v" using assms(2) by (cases v) auto
  moreover have "find_char (CHR '':'') (name @ '': '' @ v) = Some (length name)"
    using find_char_first [OF assms(1)] by simp
  ultimately show ?thesis by (simp add: header_field_def prefix_to_def)
qed

lemma take_sign_digits: "list_all digit s \<Longrightarrow> take_sign s = (False, s)"
proof (cases s)
  case (Cons c cs)
  assume "list_all digit s"
  with Cons have "\<not> is_space c" "c \<noteq> CHR ''-''" "c \<noteq> CHR ''+''"
    by (auto simp: digit_iff is_space_def)
  with Cons show ?thesis by (simp add: take_sign_def)
qed (simp add: take_sign_def)

lemma nat_to_string_all_digits: "list_all digit (nat_to_string n)"
  using nat_to_string_digits by (auto simp: list_all_iff)

lemma takeWhile_digits: "list_all digit s \<Longrightarrow> takeWhile digit s = s"
  by (auto simp: list_all_iff takeWhile_eq_all_conv)

lemma stoi_nat_to_string: "n < 2 ^ 31 \<Longrightarrow> stoi (nat_to_string n) = Inr (int n)"
  using nat_to_string_all_digits [of n]
  by (simp add: stoi_def take_sign_digits takeWhile_digits decimal_value_nat_to_string Let_def)

lemma stoul_nat_to_string: "n < 2 ^ 64 \<Longrightarrow> stoul (nat_to_string n) = Inr n"
  using nat_to_string_all_digits [of n]
  by (simp add: stoul_def take_sign_digits takeWhile_digits decimal_value_nat_to_string Let_def)

lemma nat_to_string_no_space: "SP \<notin> set (nat_to_string n)"
  using nat_to_string_digits [of SP n] by (auto simp: digit_iff)

lemma read_status_line:
  assumes "0 \<le> resp_status r" and "resp_status r < 2 ^ 31"
  shows "read_status (status_line r) = Inr (resp_status r, reason_phrase (resp_status r))"
proof -
  let ?code = "nat_to_string (nat (resp_status r))" and ?reason = "reason_phrase (resp_status r)"
  have line: "status_line r = ''HTTP/1.1 '' @ ?code @ SP # ?reason"
    using assms(1) by (simp add: status_line_def int_to_string_def)
  have "find_char SP (?code @ SP # ?reason) = Some (length ?code)"
    by (rule find_char_first [OF nat_to_string_no_space])
  moreover have "stoi ?code = Inr (resp_status r)"
    using assms stoi_nat_to_string [of "nat (resp_status r)"] by (simp add: nat_less_iff)
  ultimately show ?thesis
    unfolding line by (simp add: read_status_def find_from_def substr_def Let_def)
qed

section \<open>Responses on the wire\<close>

text \<open>What a response must satisfy for a client to be able to frame and read it.\<close>

definition readable_field :: "Header \<Rightarrow> bool" where
  "readable_field h \<longleftrightarrow>
     clean_header h \<and> CHR '':'' \<notin> set (hdr_name h) \<and> (hdr_value h = [] \<or> hd (hdr_value h) \<noteq> SP)"

definition readable :: "Response \<Rightarrow> bool" where
  "readable r \<longleftrightarrow>
     0 \<le> resp_status r \<and> resp_status r < 2 ^ 31 \<and> list_all readable_field (resp_headers r) \<and>
     \<not> resp_omit_body r \<and> length (serialize r) < 2 ^ 64"

text \<open>The response as the client sees it.\<close>

definition http_of :: "Response \<Rightarrow> HttpResponse" where
  "http_of r =
     \<lparr>hr_status = resp_status r, hr_reason = reason_phrase (resp_status r),
      hr_headers = map (\<lambda>h. (hdr_name h, hdr_value h)) (wire_headers r),
      hr_body = resp_body r, hr_raw = serialize r\<rparr>"

definition field_line :: "Header \<Rightarrow> string" where
  "field_line h = hdr_name h @ '': '' @ hdr_value h"

abbreviation wire_lines :: "Response \<Rightarrow> string list" where
  "wire_lines r \<equiv> map field_line (wire_headers r)"

lemma serialize_head: "serialize r = head_text (status_line r # wire_lines r) @ wire_body r"
  by (simp add: serialize_parts head_text_def comp_def field_line_def
      header_line_def [abs_def])

lemma hd_nat_to_string: "hd (nat_to_string n) \<noteq> SP"
  using nat_to_string_no_space [of n] by (metis hd_in_set nat_to_string_nonempty)

lemma readable_wire:
  "list_all readable_field (resp_headers r) \<Longrightarrow> list_all readable_field (wire_headers r)"
  by (auto simp: wire_headers_def readable_field_def clean_header_def hd_nat_to_string)

lemma readable_lines:
  assumes "list_all readable_field hs"
  shows "list_all (\<lambda>l. l \<noteq> [] \<and> single_line l) (map field_line hs)"
    and "map header_field (map field_line hs) = map (\<lambda>h. (hdr_name h, hdr_value h)) hs"
  using assms
  by (induction hs) (auto simp: readable_field_def clean_header_def field_line_def
      header_field_line [simplified])

lemma read_head_serialize:
  assumes "readable r"
  shows "read_head (status_line r @ CR # LF # concat (map (\<lambda>l. l @ CRLF) (wire_lines r))) =
     Some (Inr ((http_of r)\<lparr>hr_body := [], hr_raw := []\<rparr>))"
proof -
  have fs: "list_all readable_field (wire_headers r)"
    using assms readable_wire by (simp add: readable_def)
  then have "list_all single_line (wire_lines r)"
    using readable_lines(1) by (fastforce simp: list_all_iff)
  moreover have "read_status (status_line r) = Inr (resp_status r, reason_phrase (resp_status r))"
    using assms by (intro read_status_line) (auto simp: readable_def)
  moreover have "read_headers (concat (map (\<lambda>l. l @ CRLF) (wire_lines r))) =
      Some (map (\<lambda>h. (hdr_name h, hdr_value h)) (wire_headers r))"
    using read_headers_lines [OF calculation(1)] unfolding readable_lines(2) [OF fs] .
  ultimately show ?thesis
    using find_line_end [OF single_line_status_line, of r]
    by (simp add: read_head_def http_of_def del: map_map)
qed

lemma http_of_length: "hr_header (http_of r) ''Content-Length'' = nat_to_string (length (resp_body r))"
  by (simp add: hr_header_def http_of_def wire_headers_def)

section \<open>Reading what was serialized\<close>

lemma length_body_readable:
  assumes "readable r"
  shows "length (resp_body r) < 2 ^ 64"
    and "length (head_text (status_line r # wire_lines r)) + length (resp_body r) = length (serialize r)"
  using assms by (auto simp: readable_def serialize_head wire_body_def simp del: head_text_simps)

text \<open>A slice of a prefix is that slice of the whole.\<close>

lemma take_within: "b @ x = s \<Longrightarrow> n \<le> length b \<Longrightarrow> take n b = take n s"
  by auto

lemma append_split_le: "b @ y = s @ t \<Longrightarrow> length s \<le> length b \<Longrightarrow> \<exists>x. b = s @ x \<and> x @ y = t"
  by (auto simp: append_eq_append_conv2)

lemma fill_head:
  assumes "readable resp" and "reader_stream r = serialize resp @ rest"
  obtains r' where "fill_until (\<lambda>b. find_text (CRLF @ CRLF) b \<noteq> None) r = Inr r'"
    and "find_text (CRLF @ CRLF) (rr_buffer r') =
      Some (length (head_text (status_line resp # wire_lines resp)) - 4)"
    and "length (head_text (status_line resp # wire_lines resp)) \<le> length (rr_buffer r')"
    and "reader_stream r' = serialize resp @ rest" and "reads r r'"
proof -
  let ?head = "head_text (status_line resp # wire_lines resp)"
  let ?enough = "\<lambda>b. find_text (CRLF @ CRLF) b \<noteq> None"
  have "list_all (\<lambda>l. l \<noteq> [] \<and> single_line l) (wire_lines resp)"
    using assms(1) readable_lines(1) readable_wire by (simp add: readable_def)
  from find_head_end [OF this single_line_status_line]
  have found: "find_text (CRLF @ CRLF) (serialize resp @ rest) = Some (length ?head - 4)"
    by (simp only: serialize_head append_assoc)
  have mono: "?enough b \<Longrightarrow> ?enough (b @ x)" for b x using find_text_append by fastforce
  have "?enough (reader_stream r)" unfolding assms(2) using found by simp
  from fill_until_stream [where enough = ?enough, OF this mono] obtain r' where
    r': "fill_until ?enough r = Inr r'" "?enough (rr_buffer r')"
    "reader_stream r' = reader_stream r" "reads r r'"
    by blast
  then obtain k where k: "find_text (CRLF @ CRLF) (rr_buffer r') = Some k" by blast
  then have "find_text (CRLF @ CRLF) (serialize resp @ rest) = Some k"
    using find_text_append [OF k] r'(3) assms(2) by (metis reader_stream_def)
  with found have k_eq: "k = length ?head - 4" by simp
  moreover have "4 \<le> length ?head" by (simp add: head_text_def)
  ultimately have "length ?head \<le> length (rr_buffer r')" using find_text_bound [OF k] by simp
  with r' k k_eq assms(2) that show thesis by simp
qed

lemma take_head_line:
  "take (length (head_text (l # ls)) - 2) (head_text (l # ls) @ s) =
     l @ CR # LF # concat (map (\<lambda>k. k @ CRLF) ls)"
  by (simp add: head_text_def)

text \<open>The response without its body, as the head gives it.\<close>

abbreviation bodyless :: "Response \<Rightarrow> HttpResponse" where
  "bodyless resp \<equiv> (http_of resp)\<lparr>hr_body := [], hr_raw := []\<rparr>"

lemma response_end_serialize:
  "readable resp \<Longrightarrow>
     response_end (length (head_text (status_line resp # wire_lines resp))) (length (resp_body resp)) =
       length (serialize resp)"
  using length_body_readable(2) [of resp] by (simp add: response_end_def readable_def del: head_text_simps)

lemma take_body_serialize:
  assumes "readable resp" and "rr_buffer r = serialize resp @ x"
  shows "take_body (length (head_text (status_line resp # wire_lines resp))) (length (resp_body resp))
     (bodyless resp) r = (http_of resp, r\<lparr>rr_buffer := x\<rparr>)"
proof -
  let ?head = "head_text (status_line resp # wire_lines resp)"
  have "rr_buffer r = ?head @ resp_body resp @ x"
    using assms by (simp add: serialize_head wire_body_def readable_def del: head_text_simps)
  then have "substr (rr_buffer r) (length ?head) (length (resp_body resp)) = resp_body resp"
    by (simp add: substr_def del: head_text_simps)
  with assms response_end_serialize show ?thesis
    by (simp add: take_body_def substr_def http_of_def Let_def del: head_text_simps)
qed

lemma read_body_serialize:
  assumes ok: "readable resp" and stream: "reader_stream r = serialize resp @ rest"
  shows "\<exists>r'. read_body (length (head_text (status_line resp # wire_lines resp))) (bodyless resp) r =
     Inr (http_of resp, r') \<and> reader_stream r' = rest \<and> reads r r'"
proof -
  let ?head = "head_text (status_line resp # wire_lines resp)" and ?n = "length (resp_body resp)"
  let ?enough = "\<lambda>b. length (serialize resp) \<le> length b"
  have "?enough (reader_stream r)" using stream by simp
  then obtain r2 where r2: "fill_until ?enough r = Inr r2" "?enough (rr_buffer r2)"
    "reader_stream r2 = serialize resp @ rest" "reads r r2"
    using fill_until_stream [where enough = ?enough and r = r] stream by fastforce
  then obtain x where x: "rr_buffer r2 = serialize resp @ x" "x @ rx_bytes (sk_rx (rr_socket r2)) = rest"
    using append_split_le [of "rr_buffer r2"] unfolding reader_stream_def by blast
  have "hr_header (bodyless resp) ''Content-Length'' = nat_to_string ?n"
    using http_of_length [of resp] by (simp add: hr_header_def)
  then have "read_body (length ?head) (bodyless resp) r = Inr (http_of resp, r2\<lparr>rr_buffer := x\<rparr>)"
    using stoul_nat_to_string [OF length_body_readable(1) [OF ok]] response_end_serialize [OF ok] r2(1)
      take_body_serialize [OF ok x(1)]
    by (simp add: read_body_def Let_def del: head_text_simps)
  moreover have "reads r (r2\<lparr>rr_buffer := x\<rparr>)" using r2(4) by (simp add: reads_def)
  ultimately show ?thesis using x(2) by (simp add: reader_stream_def)
qed

lemma read_one_serialize:
  assumes ok: "readable resp" and stream: "reader_stream r = serialize resp @ rest"
  shows "\<exists>r'. read_one r = Some (Inr (http_of resp, r')) \<and> reader_stream r' = rest \<and> reads r r'"
proof -
  let ?head = "head_text (status_line resp # wire_lines resp)"
  from fill_head [OF ok stream] obtain r1 where
    r1: "fill_until (\<lambda>b. find_text (CRLF @ CRLF) b \<noteq> None) r = Inr r1"
      "find_text (CRLF @ CRLF) (rr_buffer r1) = Some (length ?head - 4)"
      "length ?head \<le> length (rr_buffer r1)" "reader_stream r1 = serialize resp @ rest" "reads r r1" .
  have four: "length ?head - 4 + 4 = length ?head" by (simp add: head_text_def)
  have "take (length ?head - 2) (rr_buffer r1) = take (length ?head - 2) (serialize resp @ rest)"
    using r1(3,4) by (intro take_within) (auto simp: reader_stream_def)
  then have head: "read_head (take (length ?head - 2) (rr_buffer r1)) = Some (Inr (bodyless resp))"
    using read_head_serialize [OF ok] unfolding serialize_head append_assoc take_head_line by simp
  from read_body_serialize [OF ok r1(4)] obtain r' where
    "read_body (length ?head) (bodyless resp) r1 = Inr (http_of resp, r')"
    "reader_stream r' = rest" "reads r1 r'" by blast
  moreover from this have "read_one r = Some (Inr (http_of resp, r'))"
    using r1(1,2) head four by (simp add: read_one_def Let_def del: head_text_simps)
  ultimately show ?thesis using reads_trans [OF r1(5)] by blast
qed

lemma read_many_serialize:
  "list_all readable resps \<Longrightarrow> reader_stream r = concat (map serialize resps) @ rest \<Longrightarrow>
     \<exists>r'. read_many (length resps) r = Some (Inr (map http_of resps, r')) \<and> reader_stream r' = rest \<and>
       reads r r'"
proof (induction resps arbitrary: r)
  case (Cons resp resps)
  then obtain r1 where r1: "read_one r = Some (Inr (http_of resp, r1))"
    "reader_stream r1 = concat (map serialize resps) @ rest" "reads r r1"
    using read_one_serialize [of resp r "concat (map serialize resps) @ rest"] by auto
  with Cons.IH [OF _ r1(2)] Cons.prems(1) reads_trans [OF r1(3)] show ?case by fastforce
qed simp

section \<open>Property\<close>

text \<open>
  C26. The client reads what the server writes: if the bytes that are buffered and will arrive,
  in any pieces and with any interruptions, begin with the wire form of a list of responses,
  then \<^verbatim>\<open>read_one\<close>, called that many times, returns exactly these responses (status, reason,
  every header field, body and raw bytes), and leaves exactly the bytes after them.
\<close>

theorem read_one_roundtrip:
  assumes "list_all readable resps" and "reader_stream r = concat (map serialize resps) @ rest"
  shows "\<exists>r'. read_many (length resps) r = Some (Inr (map http_of resps, r')) \<and> reader_stream r' = rest"
  using read_many_serialize [OF assms] by blast

definition sample_responses :: "Response list" where
  "sample_responses = [text_response 200 ''42'',
     (text_response 405 ''use GET'')\<lparr>resp_headers := [\<lparr>hdr_name = ''Allow'', hdr_value = ''GET''\<rparr>]\<rparr>]"

definition sample_reader :: ResponseReader where
  "sample_reader =
     new_reader (sample_socket\<lparr>sk_rx :=
       [Arrived (take 5 (concat (map serialize sample_responses))), RecvError EINTR,
        Arrived (drop 5 (concat (map serialize sample_responses)) @ ''HTTP''), PeerFin]\<rparr>)"

theorem read_one_roundtrip_witness:
  "\<exists>r'. read_many (length sample_responses) sample_reader = Some (Inr (map http_of sample_responses, r')) \<and>
     reader_stream r' = ''HTTP''"
proof -
  have "list_all readable sample_responses"
    "reader_stream sample_reader = concat (map serialize sample_responses) @ ''HTTP''" by code_simp+
  from read_one_roundtrip [OF this] show ?thesis .
qed

end
