(* ===== verification/Service.thy ===== *)
theory Service
  imports Session
begin

text \<open>
  What a connection is for, without buffers, sockets, parser states or events: a service that
  receives bytes and sends, in order and piece by piece, the responses it owes for them. The
  class \<^verbatim>\<open>Connection\<close> is shown to implement this specification by a forward simulation.
\<close>

section \<open>The abstract service\<close>

text \<open>\<open>Ending out\<close>: nothing is read any more, and \<open>out\<close> is all that will ever be sent.\<close>

datatype Stage = Serving | Ending string | Ended

record Service =
  se_received :: string
  se_sent :: string
  se_stage :: Stage

definition new_service :: Service where
  "new_service = \<lparr>se_received = [], se_sent = [], se_stage = Serving\<rparr>"

definition owed :: "RequestHandler \<Rightarrow> u64 \<Rightarrow> Limits \<Rightarrow> string \<Rightarrow> string" where
  "owed h i limits received = replies h i 0 (framer_push (new_framer limits) received)"

text \<open>How many responses a stream of bytes is owed.\<close>

function answer_count :: "RequestHandler \<Rightarrow> Framer \<Rightarrow> u64" where
  "answer_count h f =
     (case framer_next f of
        (Incomplete, g) \<Rightarrow> 0
      | (Error e, g) \<Rightarrow> 1
      | (Complete request, g) \<Rightarrow>
          1 + (if resp_close_connection (finish_response request (handled h request)) then 0
               else answer_count h g))"
  by pat_completeness auto
termination
  by (relation "measure (\<lambda>(h, f). framer_weight f)") (auto dest: framer_next_weight [OF sym])

declare answer_count.simps [simp del]

definition owed_count :: "RequestHandler \<Rightarrow> Limits \<Rightarrow> string \<Rightarrow> u64" where
  "owed_count h limits received = answer_count h (framer_push (new_framer limits) received)"

inductive serves :: "RequestHandler \<Rightarrow> u64 \<Rightarrow> Limits \<Rightarrow> Service \<Rightarrow> Service \<Rightarrow> bool"
  for h i limits where
  receive: "se_stage s = Serving \<Longrightarrow>
    serves h i limits s (s\<lparr>se_received := se_received s @ bs\<rparr>)"
| transmit: "se_stage s = Serving \<Longrightarrow> prefix (se_sent s @ bs) (owed h i limits (se_received s)) \<Longrightarrow>
    serves h i limits s (s\<lparr>se_sent := se_sent s @ bs\<rparr>)"
| finish: "se_stage s = Serving \<Longrightarrow>
    (\<And>bs. owed h i limits (se_received s @ bs) = owed h i limits (se_received s)) \<Longrightarrow>
    serves h i limits s (s\<lparr>se_stage := Ending (owed h i limits (se_received s))\<rparr>)"
| time_out: "se_stage s = Serving \<Longrightarrow> se_sent s = owed h i limits (se_received s) \<Longrightarrow>
    serves h i limits s (s\<lparr>se_stage := Ending (owed h i limits (se_received s) @
      serialize (stamp_response i (owed_count h limits (se_received s) + 1) timeout_response))\<rparr>)"
| transmit_rest: "se_stage s = Ending out \<Longrightarrow> prefix (se_sent s @ bs) out \<Longrightarrow>
    serves h i limits s (s\<lparr>se_sent := se_sent s @ bs\<rparr>)"
| abandon: "serves h i limits s (s\<lparr>se_stage := Ended\<rparr>)"

abbreviation serves_many :: "RequestHandler \<Rightarrow> u64 \<Rightarrow> Limits \<Rightarrow> Service \<Rightarrow> Service \<Rightarrow> bool" where
  "serves_many h i limits \<equiv> (serves h i limits)\<^sup>*\<^sup>*"

section \<open>Forward simulations\<close>

text \<open>
  Each event of an event-driven component is matched by a run of the specification; then so is
  every sequence of events.
\<close>

locale simulates = event_driven step inv ident
  for step :: "'e \<Rightarrow> 's \<Rightarrow> 's option" and inv :: "'s \<Rightarrow> bool" and ident :: "'s \<Rightarrow> 'a" +
  fixes spec :: "'a \<Rightarrow> 't \<Rightarrow> 't \<Rightarrow> bool"
    and matches :: "'s \<Rightarrow> 't \<Rightarrow> bool"
  assumes step_matched: "inv s \<Longrightarrow> matches s a \<Longrightarrow> step e s = Some t \<Longrightarrow>
    \<exists>b. (spec (ident s))\<^sup>*\<^sup>* a b \<and> matches t b"
begin

lemma run_matched:
  "inv s \<Longrightarrow> matches s a \<Longrightarrow>
     \<exists>t b. run_events step es s = Some t \<and> (spec (ident s))\<^sup>*\<^sup>* a b \<and> matches t b"
proof (induction es arbitrary: s a)
  case (Cons e es)
  from step_returns [OF Cons.prems(1), of e] obtain t where t: "step e s = Some t" "inv t" by blast
  from step_matched [OF Cons.prems t(1)] obtain b where
    b: "(spec (ident s))\<^sup>*\<^sup>* a b" "matches t b" by blast
  from Cons.IH [OF t(2) b(2)] step_setup [OF t(1)] obtain u d where
    "run_events step es t = Some u" "(spec (ident s))\<^sup>*\<^sup>* b d" "matches u d" by auto
  with t(1) b(1) rtranclp_trans show ?case by fastforce
qed auto

end

section \<open>Counting the answers\<close>

lemma answer_count_push:
  assumes "0 < max_header_bytes (fr_limits f)"
  shows "framer_next f = (Incomplete, g) \<Longrightarrow>
      answer_count h (framer_push f bs) = answer_count h (framer_push g bs)"
    and "framer_next f = (Complete r, g) \<Longrightarrow>
      answer_count h (framer_push f bs) =
        1 + (if resp_close_connection (finish_response r (handled h r)) then 0
             else answer_count h (framer_push g bs))"
proof -
  note later = framer_next_push [OF assms, of bs]
  show "answer_count h (framer_push f bs) = answer_count h (framer_push g bs)"
    if "framer_next f = (Incomplete, g)"
    using later that
    by (simp add: framer_later_def answer_count.simps [of h "framer_push f bs"]
        answer_count.simps [of h "framer_push g bs"])
  show "answer_count h (framer_push f bs) =
        1 + (if resp_close_connection (finish_response r (handled h r)) then 0
             else answer_count h (framer_push g bs))"
    if "framer_next f = (Complete r, g)"
    using later that by (simp add: framer_later_def answer_count.simps [of h "framer_push f bs"])
qed

text \<open>The request counter of an active connection is the number of responses it has queued.\<close>

definition counted :: "Connection \<Rightarrow> bool" where
  "counted c \<longleftrightarrow> c_state c = Active \<longrightarrow>
     (\<forall>bs. st_requests (c_stats c) + answer_count (c_handler c) (framer_push (view (c_parser c)) bs) =
        owed_count (c_handler c) (cfg_limits (c_config c)) (delivered c @ bs))"

lemma counted_same:
  "counted c \<Longrightarrow> c_parser d = c_parser c \<Longrightarrow> c_handler d = c_handler c \<Longrightarrow> c_config d = c_config c \<Longrightarrow>
   st_requests (c_stats d) = st_requests (c_stats c) \<Longrightarrow> delivered d = delivered c \<Longrightarrow>
   (c_state d = Active \<Longrightarrow> c_state c = Active) \<Longrightarrow> counted d"
  by (simp add: counted_def)

lemma counted_inactive: "c_state c \<noteq> Active \<Longrightarrow> counted c"
  by (simp add: counted_def)

text \<open>
  A connection that has only received and answered: in particular, what it queued when it closes
  is not the answer to an expired deadline.
\<close>

definition within :: "Connection \<Rightarrow> bool" where
  "within c \<longleftrightarrow> prefix (output_stream c) (promised c (delivered c))"

definition serving_ok :: "Connection \<Rightarrow> bool" where
  "serving_ok c \<longleftrightarrow>
     conn_ok c \<and> head_allowed c \<and> counted c \<and>
     (c_state c = Closing \<or> c_state c = Draining \<longrightarrow> all_answered c) \<and> (c_state c = Closed \<longrightarrow> within c)"

lemma serving_within: "serving_ok c \<Longrightarrow> within c"
proof (cases "c_state c")
  case Active
  assume "serving_ok c"
  with Active have "output_stream c @ still_due c bs = promised c (delivered c @ bs)" for bs
    by (simp add: serving_ok_def conn_ok_def on_track_def)
  from this [of "[]"] show ?thesis by (simp add: within_def prefix_def) metis
next
  case Closing
  assume "serving_ok c"
  with Closing have "output_stream c = promised c (delivered c @ [])"
    unfolding serving_ok_def all_answered_def by blast
  then show ?thesis by (simp add: within_def)
next
  case Draining
  assume "serving_ok c"
  with Draining have "output_stream c = promised c (delivered c @ [])"
    unfolding serving_ok_def all_answered_def by blast
  then show ?thesis by (simp add: within_def)
next
  case Closed
  assume "serving_ok c"
  with Closed show ?thesis by (simp add: serving_ok_def)
qed

lemma written_serving:
  assumes w: "written c d" and ok: "serving_ok c"
  shows "serving_ok d"
proof -
  from w have same: "output_stream d = output_stream c" "c_parser d = c_parser c"
    "c_handler d = c_handler c" "c_id d = c_id c" "c_config d = c_config c"
    "st_requests (c_stats d) = st_requests (c_stats c)" "delivered d = delivered c"
    "c_state d = c_state c \<or> c_state d = Closed"
    by (auto simp: written_def same_core_def)
  have "promised d = promised c" by (simp add: promised_def same fun_eq_iff)
  then have "within d" "all_answered c \<Longrightarrow> all_answered d"
    using serving_within [OF ok] by (simp_all add: within_def all_answered_def same)
  with ok written_ok [OF w] counted_same [of c d] same show ?thesis
    by (auto simp: serving_ok_def)
qed

lemma conn_next_view:
  assumes "conn_ok c" and "parser_next (c_parser c) = Some (out, p)"
  shows "framer_next (view (c_parser c)) = (out, view p)"
  using conn_parser_next [of c] assms by (metis Pair_inject conn_ok_def option.inject)

lemma serving_head: "serving_ok c \<Longrightarrow> 0 < max_header_bytes (fr_limits (view (c_parser c)))"
  using head_allowed_view by (simp add: serving_ok_def conn_ok_def)

lemma respond_loop_serving: "respond_loop b c = Some (r, d) \<Longrightarrow> serving_ok c \<Longrightarrow> serving_ok d"
proof (induction rule: respond_loop_rule)
  case (incomplete b c p)
  then have "conn_ok (c\<lparr>c_parser := p\<rparr>)" using incomplete_ok(1) by (simp add: serving_ok_def)
  moreover have "counted (c\<lparr>c_parser := p\<rparr>)"
    using incomplete(4) answer_count_push(1) [OF serving_head [OF incomplete(4)]
        conn_next_view [OF _ incomplete(3)]]
    by (simp add: serving_ok_def counted_def)
  ultimately show ?case using incomplete by (simp add: serving_ok_def)
next
  case (error b c e p)
  then show ?case
    using answer_error_ok [of c e p] by (simp add: serving_ok_def answer_sel answer_frame counted_inactive)
next
  case (complete b c q p r d)
  let ?d = "answer_request q (c\<lparr>c_parser := p\<rparr>)"
  have ok: "conn_ok c" "head_allowed c" "counted c" using complete(5) by (auto simp: serving_ok_def)
  have "counted ?d"
  proof (cases "resp_close_connection (finish_response q (handled (c_handler c) q))")
    case True
    then show ?thesis by (intro counted_inactive) (simp add: answer_frame)
  next
    case False
    with ok(3) complete(1) answer_count_push(2) [OF serving_head [OF complete(5)]
        conn_next_view [OF ok(1) complete(3)], of "c_handler c"]
    show ?thesis by (simp add: counted_def answer_frame answer_sel add.assoc)
  qed
  moreover have "c_state ?d = Active \<or> c_state ?d = Closing" using complete(1) answer_sel(4) [of q "c\<lparr>c_parser := p\<rparr>"] by simp
  ultimately have "serving_ok ?d"
    using answer_request_ok [OF ok(1,2) complete(1,3)] ok(2) by (auto simp: serving_ok_def answer_frame)
  with complete(4) show ?case by blast
qed simp

lemma advance_pass_serving: "advance_pass now c = Some (b, d) \<Longrightarrow> serving_ok c \<Longrightarrow> serving_ok d"
  by (erule advance_pass_cases)
     (auto dest: respond_loop_serving flush_output_written(1) written_serving)

lemma advance_loop_serving: "advance_loop now c = Some d \<Longrightarrow> serving_ok c \<Longrightarrow> serving_ok d"
  by (induction rule: advance_loop_rule) (auto dest: advance_pass_serving)

lemma serving_close: "serving_ok c \<Longrightarrow> serving_ok (close_now t c)"
  using written_serving written_close by blast

lemma serving_linger:
  assumes "serving_ok c" and "c_state c = Closing"
  shows "serving_ok (begin_lingering_close now c)"
proof (cases "sk_shutdown_ok (c_socket c)")
  case True
  have "all_answered (begin_lingering_close now c) = all_answered c"
    using True by (simp add: begin_lingering_close_def shutdown_write_def all_answered_def
        output_stream_def unsent_def promised_def)
  moreover have "c_state (begin_lingering_close now c) = Draining"
    using True by (simp add: begin_lingering_close_def shutdown_write_def)
  moreover have "c_config (begin_lingering_close now c) = c_config c"
    using True by (simp add: begin_lingering_close_def shutdown_write_def)
  ultimately show ?thesis
    using assms draining_ok(1) by (simp add: serving_ok_def counted_inactive)
next
  case False
  then show ?thesis
    using assms(1) serving_close by (simp add: begin_lingering_close_def shutdown_write_def)
qed

lemma advance_serving: "advance now c = Some d \<Longrightarrow> serving_ok c \<Longrightarrow> serving_ok d"
  by (auto simp: advance_def advance_end_def serving_linger serving_close dest: advance_loop_serving)

lemma read_from_socket_serving:
  assumes "serving_ok c" and "wants_to_read c"
  shows "serving_ok (read_from_socket now c)"
proof -
  have active: "c_state c = Active" using assms(2) by (simp add: wants_to_read_def)
  have ok: "conn_ok c" "counted c" using assms(1) by (simp_all add: serving_ok_def)
  then have inv: "rp_inv (c_parser c)" using conn_inv_parser(1) by (simp add: conn_ok_def)
  obtain out s where out: "recv_retry (c_socket c) (read_size c) = (out, s)" by fastforce
  note frame = recv_retry_frame [OF out]
  show ?thesis
  proof (cases out)
    case (Inl e)
    let ?d = "read_from_socket now c"
    have d: "c_handler ?d = c_handler c" "c_config ?d = c_config c" "c_parser ?d = c_parser c"
      "st_requests (c_stats ?d) = st_requests (c_stats c)" "delivered ?d = delivered c"
      "output_stream ?d = output_stream c" "promised ?d = promised c"
      "c_state ?d = Active \<or> c_state ?d = Closed"
      using out Inl frame active
      by (simp_all add: read_from_socket_def Let_def output_stream_def unsent_def promised_def fun_eq_iff)
    then have "within ?d" "counted ?d"
      using serving_within [OF assms(1)] counted_same [OF ok(2), of ?d] active by (simp_all add: within_def)
    with read_from_socket_ok [OF ok(1) assms(2), of now] assms(1) d show ?thesis
      by (auto simp: serving_ok_def)
  next
    case (Inr bytes)
    let ?d = "read_from_socket now c"
    have d: "c_state ?d = Active" "c_handler ?d = c_handler c" "c_config ?d = c_config c"
      "st_requests (c_stats ?d) = st_requests (c_stats c)" "delivered ?d = delivered c @ bytes"
      "c_parser ?d = (if bytes = [] then c_parser c else feed (c_parser c) bytes)"
      using out Inr frame active by (simp_all add: read_from_socket_def Let_def)
    have "framer_push (view (c_parser ?d)) bs = framer_push (view (c_parser c)) (bytes @ bs)" for bs
      using inv by (simp add: d(6) view_feed framer_push_push)
    then have "counted ?d" using ok(2) active by (simp add: counted_def d(1-5))
    with read_from_socket_ok [OF ok(1) assms(2), of now] assms(1) d show ?thesis
      by (simp add: serving_ok_def)
  qed
qed

section \<open>Bytes are only added\<close>

definition grows :: "Connection \<Rightarrow> Connection \<Rightarrow> bool" where
  "grows c d \<longleftrightarrow> prefix (sk_wire (c_socket c)) (sk_wire (c_socket d)) \<and> prefix (delivered c) (delivered d)"

lemma grows_refl [simp]: "grows c c"
  by (simp add: grows_def)

lemma grows_trans: "grows c d \<Longrightarrow> grows d e \<Longrightarrow> grows c e"
  by (auto simp: grows_def intro: prefix_order.trans)

lemma grows_same: "c_socket d = c_socket c \<Longrightarrow> grows c d"
  by (simp add: grows_def)

lemma grows_socket:
  "sk_wire (c_socket d) = sk_wire (c_socket c) \<Longrightarrow> delivered d = delivered c @ bs \<Longrightarrow> grows c d"
  by (simp add: grows_def)

lemma written_grows: "written c d \<Longrightarrow> grows c d"
proof -
  assume w: "written c d"
  then have eq: "sk_wire (c_socket c) @ unsent c = sk_wire (c_socket d) @ unsent d"
    and "length (unsent d) \<le> length (unsent c)" and "delivered d = delivered c"
    by (simp_all add: written_def output_stream_def same_core_def)
  moreover from this have "length (sk_wire (c_socket c)) \<le> length (sk_wire (c_socket d))"
    using arg_cong [OF eq, of length] unfolding length_append by linarith
  ultimately show ?thesis
    using prefix_length_prefix [of "sk_wire (c_socket c)" "sk_wire (c_socket d) @ unsent d"
        "sk_wire (c_socket d)"]
    by (metis grows_def prefixI prefix_order.refl)
qed

lemma grows_close: "grows c (close_now t c)"
  by (rule written_grows [OF written_close])

lemma respond_loop_socket: "respond_loop b c = Some (r, d) \<Longrightarrow> c_socket d = c_socket c"
  by (induction rule: respond_loop_rule) (simp_all add: answer_sel)

lemma advance_pass_grows: "advance_pass now c = Some (b, d) \<Longrightarrow> grows c d"
  by (erule advance_pass_cases)
     (auto dest!: respond_loop_socket flush_output_written(1) written_grows
       intro: grows_trans [OF grows_same])

lemma advance_loop_grows: "advance_loop now c = Some d \<Longrightarrow> grows c d"
  by (induction rule: advance_loop_rule) (auto dest: advance_pass_grows intro: grows_trans)

lemma advance_end_grows: "grows c (advance_end now c)"
  by (auto simp: advance_end_def begin_lingering_close_def shutdown_write_def grows_def)

lemma advance_grows: "advance now c = Some d \<Longrightarrow> grows c d"
  by (auto simp: advance_def intro: grows_trans [OF advance_loop_grows advance_end_grows])

lemma read_from_socket_grows: "grows c (read_from_socket now c)"
proof -
  obtain out s where out: "recv_retry (c_socket c) (read_size c) = (out, s)" by fastforce
  from recv_retry_frame [OF this] out show ?thesis
    by (cases out) (auto simp: read_from_socket_def Let_def grows_def)
qed

lemma discard_grows: "grows c (discard_lingering_input c)"
proof -
  obtain out s where out: "recv_retry (c_socket c) recv_chunk_bytes = (out, s)" by fastforce
  from recv_retry_frame [OF this] out show ?thesis
    by (cases out) (auto simp: discard_lingering_input_def Let_def grows_def)
qed

lemma conn_event_grows:
  assumes "conn_event e c = Some d"
  shows "grows c d"
proof (cases e)
  case (Polled revents now)
  with assms have "on_poll_events revents now c = Some d" by simp
  then show ?thesis
  proof (cases rule: on_poll_events_cases)
    case reads
    show ?thesis using read_from_socket_grows advance_grows [OF reads(3)] by (rule grows_trans)
  qed (auto simp: discard_grows grows_close intro: advance_grows)
next
  case (Expired now)
  with assms have "on_deadline now c = Some d" by simp
  then show ?thesis
  proof (cases rule: on_deadline_cases)
    case (times_out t)
    show ?thesis using advance_grows [OF times_out(4)] by (simp add: grows_def)
  qed (simp add: grows_close)
next
  case (Stopped reason)
  with assms show ?thesis by (auto simp: grows_close)
qed

section \<open>Every event is a run of the service\<close>

definition represents :: "Connection \<Rightarrow> Service \<Rightarrow> bool" where
  "represents c s \<longleftrightarrow>
     se_sent s = sk_wire (c_socket c) \<and>
     (case c_state c of
        Active \<Rightarrow> se_stage s = Serving \<and> se_received s = delivered c
      | Closing \<Rightarrow> se_stage s = Ending (output_stream c)
      | Draining \<Rightarrow> se_stage s = Ending (output_stream c)
      | Closed \<Rightarrow> se_stage s = Ended)"

definition implements :: "Connection \<Rightarrow> Service \<Rightarrow> Connection \<Rightarrow> bool" where
  "implements c s d \<longleftrightarrow>
     (\<exists>t. serves_many (c_handler c) (c_id c) (cfg_limits (c_config c)) s t \<and> represents d t)"

text \<open>An event on a connection that is ending sends some more, and may close it.\<close>

lemma ending_implements:
  assumes "se_stage s = Ending (output_stream d)" and "prefix (se_sent s) (sk_wire (c_socket d))"
    and "c_state d \<noteq> Active"
  shows "implements c s d"
proof -
  from assms(2) obtain bs where bs: "sk_wire (c_socket d) = se_sent s @ bs" by (auto simp: prefix_def)
  let ?t = "s\<lparr>se_sent := se_sent s @ bs\<rparr>"
  let ?serves = "serves (c_handler c) (c_id c) (cfg_limits (c_config c))"
  have sent: "?serves s ?t"
    using assms(1) bs by (intro serves.transmit_rest) (auto simp: output_stream_def prefix_def)
  show ?thesis
  proof (cases "c_state d = Closed")
    case True
    have "?serves\<^sup>*\<^sup>* s (?t\<lparr>se_stage := Ended\<rparr>)"
      using sent serves.abandon by (metis r_into_rtranclp rtranclp.rtrancl_into_rtrancl)
    with True bs show ?thesis unfolding implements_def
      by (intro exI [of _ "?t\<lparr>se_stage := Ended\<rparr>"]) (simp add: represents_def)
  next
    case False
    with assms sent bs show ?thesis unfolding implements_def
      by (intro exI [of _ ?t]) (cases "c_state d"; auto simp: represents_def)
  qed
qed

lemma closing_implements:
  assumes "represents c s" and "grows c d" and "follows c d"
    and "c_state c = Closing \<or> c_state c = Draining"
  shows "implements c s d"
proof -
  have "se_stage s = Ending (output_stream c)" "se_sent s = sk_wire (c_socket c)"
    using assms(1,4) by (auto simp: represents_def)
  moreover have "output_stream d = output_stream c" "c_state d \<noteq> Active"
    using assms(3,4) by (auto simp: follows_def same_answers_def)
  ultimately show ?thesis
    using assms(2) by (intro ending_implements) (simp_all add: grows_def)
qed

lemma abandon_implements:
  assumes "represents c s"
  shows "implements c s (close_now t c)"
proof -
  have "serves_many (c_handler c) (c_id c) (cfg_limits (c_config c)) s (s\<lparr>se_stage := Ended\<rparr>)"
    using serves.abandon by (rule r_into_rtranclp)
  with assms show ?thesis unfolding implements_def
    by (intro exI [of _ "s\<lparr>se_stage := Ended\<rparr>"]) (simp add: represents_def)
qed

text \<open>An event on an active connection receives and sends something, and may be the last.\<close>

lemma serving_implements:
  assumes "represents c s" and "c_state c = Active" and "grows c d" and "serving_ok d"
    and "same_setup c d"
  shows "implements c s d"
proof -
  let ?serves = "serves (c_handler c) (c_id c) (cfg_limits (c_config c))"
  let ?owed = "owed (c_handler c) (c_id c) (cfg_limits (c_config c))"
  from assms(3) obtain bs w where
    new: "delivered d = delivered c @ bs" "sk_wire (c_socket d) = sk_wire (c_socket c) @ w"
    by (auto simp: grows_def prefix_def)
  have s: "se_stage s = Serving" "se_received s = delivered c" "se_sent s = sk_wire (c_socket c)"
    using assms(1,2) by (simp_all add: represents_def)
  have owed: "promised d = ?owed"
    using assms(5) unfolding promised_def owed_def same_setup_def by auto
  let ?r = "s\<lparr>se_received := delivered d\<rparr>" and ?t = "s\<lparr>se_received := delivered d, se_sent := sk_wire (c_socket d)\<rparr>"
  have "?serves s ?r" using serves.receive [OF s(1), of _ _ _ bs] by (simp add: s new)
  moreover have "prefix (sk_wire (c_socket d)) (?owed (delivered d))"
    using serving_within [OF assms(4)] by (auto simp: within_def owed output_stream_def prefix_def)
  then have "?serves ?r ?t"
    using serves.transmit [of ?r w "c_handler c" "c_id c" "cfg_limits (c_config c)"] by (simp add: s new)
  ultimately have run: "?serves\<^sup>*\<^sup>* s ?t" by simp
  consider "c_state d = Active" | "c_state d = Closing \<or> c_state d = Draining" | "c_state d = Closed"
    by (cases "c_state d") auto
  then show ?thesis
  proof cases
    case 1
    with run s show ?thesis unfolding implements_def
      by (intro exI [of _ ?t]) (simp add: represents_def)
  next
    case 2
    with assms(4) have all: "output_stream d = ?owed (delivered d @ bs)" for bs
      unfolding serving_ok_def all_answered_def owed by blast
    from all [of "[]"] have out: "output_stream d = ?owed (delivered d)" by simp
    with all have "?serves ?t (?t\<lparr>se_stage := Ending (output_stream d)\<rparr>)"
      using serves.finish [of ?t "c_handler c" "c_id c" "cfg_limits (c_config c)"] s(1) by simp
    with run have "?serves\<^sup>*\<^sup>* s (?t\<lparr>se_stage := Ending (output_stream d)\<rparr>)" by simp
    with 2 show ?thesis unfolding implements_def
      by (intro exI [of _ "?t\<lparr>se_stage := Ending (output_stream d)\<rparr>"]) (auto simp: represents_def)
  next
    case 3
    have "?serves\<^sup>*\<^sup>* s (?t\<lparr>se_stage := Ended\<rparr>)" using run serves.abandon by (rule rtranclp.rtrancl_into_rtrancl)
    with 3 show ?thesis unfolding implements_def
      by (intro exI [of _ "?t\<lparr>se_stage := Ended\<rparr>"]) (simp add: represents_def)
  qed
qed

text \<open>The answer to a request that was not finished in time.\<close>

lemma timeout_implements:
  assumes good: "conn_good c" "counted c" and c: "represents c s" "c_state c = Active"
    "pending_output_bytes c = 0" and adv: "advance now e = Some d"
    and e: "e = (queue_response timeout_response (conn_log l t c))\<lparr>c_last_activity := now\<rparr>"
  shows "implements c s d"
proof -
  let ?owed = "owed (c_handler c) (c_id c) (cfg_limits (c_config c))"
  let ?n = "owed_count (c_handler c) (cfg_limits (c_config c)) (delivered c)"
  have "framer_next (view (c_parser c)) = (Incomplete, view (c_parser c))"
    using good(1) c by (simp add: conn_good_def settled_def config_ok_def)
  then have none: "still_due c [] = []" "answer_count (c_handler c) (view (c_parser c)) = 0"
    by (simp_all add: still_due_def replies.simps answer_count.simps)
  have "output_stream c @ still_due c [] = promised c (delivered c @ [])"
    using good(1) c(2) by (simp add: conn_good_def conn_ok_def on_track_def)
  then have wire: "sk_wire (c_socket c) = ?owed (delivered c)"
    using none(1) c(3) by (simp add: output_stream_def pending_unsent promised_def owed_def)
  have "st_requests (c_stats c) + answer_count (c_handler c) (framer_push (view (c_parser c)) []) = ?n"
    using good(2) c(2) by (metis (no_types) append_Nil2 counted_def)
  with none(2) have count: "st_requests (c_stats c) = ?n" by simp
  have sent: "c_output_sent c = length (c_output c)"
    using good(1) c(3) by (simp add: conn_good_def conn_ok_def conn_inv_def pending_output_bytes_def)
  have state: "c_state e = Closing" by (simp add: e timeout_response_def)
  have out: "output_stream e = ?owed (delivered c) @ serialize (stamp_response (c_id c) (?n + 1) timeout_response)"
    by (simp add: e output_stream_def unsent_def wire count sent)
  let ?s = "s\<lparr>se_stage := Ending (output_stream e)\<rparr>"
  have "serves (c_handler c) (c_id c) (cfg_limits (c_config c)) s ?s"
    using serves.time_out [of s "c_handler c" "c_id c" "cfg_limits (c_config c)"] c(1,2) wire
    by (simp add: represents_def out)
  moreover have "implements c ?s d"
  proof (rule ending_implements)
    have "follows e d" using advance_follows [OF adv] state by simp
    then show "se_stage ?s = Ending (output_stream d)" "c_state d \<noteq> Active"
      using state by (auto simp: follows_def same_answers_def)
    show "prefix (se_sent ?s) (sk_wire (c_socket d))"
      using advance_grows [OF adv] c(1) by (simp add: grows_def represents_def e)
  qed
  ultimately show ?thesis
    unfolding implements_def by (meson converse_rtranclp_into_rtranclp)
qed

definition service_good :: "Connection \<Rightarrow> bool" where
  "service_good c \<longleftrightarrow> conn_good c \<and> counted c"

lemma service_good_serving: "service_good c \<Longrightarrow> c_state c = Active \<Longrightarrow> serving_ok c"
  by (simp add: service_good_def serving_ok_def conn_good_def config_ok_def)

text \<open>A poll event on an active connection, unless it only closes it.\<close>

lemma on_poll_events_serving:
  assumes "on_poll_events revents now c = Some d" and "serving_ok c" and "c_state c = Active"
  shows "serving_ok d"
  using assms(1)
proof (cases rule: on_poll_events_cases)
  case reads
  with read_from_socket_serving [OF assms(2)] advance_serving show ?thesis by blast
qed (use assms(2,3) serving_close advance_serving in auto)

lemma conn_event_counted:
  assumes "conn_event e c = Some d" and "service_good c"
  shows "counted d"
proof (cases "c_state d = Active")
  case True
  with conn_event_follows [OF assms(1)] have c: "c_state c = Active"
    by (cases "c_state c") (auto simp: follows_def)
  show ?thesis
  proof (cases e)
    case (Polled revents now)
    with assms(1) on_poll_events_serving [OF _ service_good_serving [OF assms(2) c] c] show ?thesis
      by (simp add: serving_ok_def)
  next
    case (Expired now)
    with assms(1) have "on_deadline now c = Some d" by simp
    then show ?thesis
    proof (cases rule: on_deadline_cases)
      case (times_out t)
      from advance_follows [OF times_out(4)] True show ?thesis
        by (simp add: follows_def timeout_response_def)
    qed (use True in simp)
  next
    case (Stopped reason)
    with assms(1) True show ?thesis by auto
  qed
qed (rule counted_inactive)

lemma conn_event_implements:
  assumes good: "service_good c" and rep: "represents c s" and event: "conn_event e c = Some d"
  shows "implements c s d"
proof -
  note grows = conn_event_grows [OF event] and follows = conn_event_follows [OF event]
  consider "c_state c = Closed" | "c_state c = Closing \<or> c_state c = Draining" | "c_state c = Active"
    by (cases "c_state c") auto
  then show ?thesis
  proof cases
    case 1
    from conn_event_closed [OF event 1] rep show ?thesis by (auto simp: implements_def)
  next
    case 2
    with rep grows follows show ?thesis by (intro closing_implements)
  next
    case 3
    have same: "same_setup c d"
      using conn_event_setup [OF event] by (simp add: conn_setup_def same_setup_def)
    show ?thesis
    proof (cases e)
      case (Polled revents now)
      with event on_poll_events_serving [OF _ service_good_serving [OF good 3] 3] have "serving_ok d" by simp
      with rep 3 grows same show ?thesis by (intro serving_implements)
    next
      case (Expired now)
      with event have "on_deadline now c = Some d" by simp
      then show ?thesis
      proof (cases rule: on_deadline_cases)
        case (times_out t)
        show ?thesis
          using good times_out(2) by (intro timeout_implements [OF _ _ rep 3 _ times_out(4) refl])
            (simp_all add: service_good_def)
      qed (simp add: abandon_implements [OF rep])
    next
      case (Stopped reason)
      with event abandon_implements [OF rep] show ?thesis by auto
    qed
  qed
qed

interpretation service: simulates conn_event service_good conn_setup
  "\<lambda>(config, h, i). serves h i (cfg_limits config)" represents
proof
  fix c e d s
  show "conn_setup d = conn_setup c" if "conn_event e c = Some d"
    using that by (rule conn_event_setup)
  show "\<exists>d. conn_event e c = Some d \<and> service_good d" if "service_good c"
    using that conn.step_returns [of c e] conn_event_counted [of e c] by (auto simp: service_good_def)
  show "\<exists>b. ((\<lambda>(config, h, i). serves h i (cfg_limits config)) (conn_setup c))\<^sup>*\<^sup>* s b \<and> represents d b"
    if "service_good c" "represents c s" "conn_event e c = Some d"
    using conn_event_implements [OF that] by (simp add: implements_def conn_setup_def)
qed

lemma new_connection_service:
  assumes "config_ok config" and "fresh_socket s"
  shows "service_good (new_connection s i peer config h lg now)"
    and "represents (new_connection s i peer config h lg now) new_service"
  using assms new_connection_good [OF assms]
  by (simp_all add: service_good_def counted_def owed_count_def represents_def new_service_def
      new_connection_def no_stats_def fresh_socket_def)

lemma represents_log [simp]: "represents (c\<lparr>c_logger := lg\<rparr>) s = represents c s"
  by (cases "c_state c") (simp_all add: represents_def output_stream_def unsent_def)

lemma conn_reachable_counted: "conn_reachable config h i c \<Longrightarrow> config_ok config \<Longrightarrow> service_good c"
proof (induction rule: conn_reachable.induct)
  case (accepted s peer lg now)
  then show ?case using new_connection_service(1) by blast
next
  case (polled c revents now d)
  then show ?case
    using service.step_returns [of c "Polled revents now"] by auto
next
  case (expired c now d)
  then show ?case
    using service.step_returns [of c "Expired now"] by auto
next
  case (stopped c reason)
  then show ?case
    using service.step_returns [of c "Stopped reason"] by auto
next
  case (logged c lg)
  have "counted (c\<lparr>c_logger := lg\<rparr>)" using logged by (simp add: service_good_def counted_def)
  with logged conn_reachable_ok [OF conn_reachable.logged [OF logged(1)], of lg]
    conn_reachable_setup [OF logged(1)] show ?case
    by (simp add: service_good_def conn_good_def)
qed

text \<open>The state of the service that a reachable connection represents.\<close>

lemma service_event:
  assumes "conn_reachable config h i c" and "config_ok config"
    and "\<exists>s. serves_many h i (cfg_limits config) new_service s \<and> represents c s"
    and "conn_event e c = Some d"
  shows "\<exists>t. serves_many h i (cfg_limits config) new_service t \<and> represents d t"
proof -
  from assms(3) obtain s where s: "serves_many h i (cfg_limits config) new_service s" "represents c s"
    by blast
  have "conn_setup c = (config, h, i)"
    using conn_reachable_setup [OF assms(1)] by (simp add: conn_setup_def)
  with service.step_matched [OF conn_reachable_counted [OF assms(1,2)] s(2) assms(4)] obtain t where
    "serves_many h i (cfg_limits config) s t" "represents d t" by auto
  with s(1) show ?thesis by (meson rtranclp_trans)
qed

lemma conn_reachable_service:
  assumes "conn_reachable config h i c" and "config_ok config"
  shows "\<exists>s. serves_many h i (cfg_limits config) new_service s \<and> represents c s"
  using assms
proof (induction rule: conn_reachable.induct)
  case (accepted s peer lg now)
  then show ?case using new_connection_service(2) by blast
next
  case (polled c revents now d)
  then show ?case using service_event [of config h i c "Polled revents now" d] by simp
next
  case (expired c now d)
  then show ?case using service_event [of config h i c "Expired now" d] by simp
next
  case (stopped c reason)
  then show ?case using service_event [of config h i c "Stopped reason" "close_now reason c"] by simp
qed simp

section \<open>What the service promises\<close>

text \<open>The specification is worth implementing: whatever a service has sent is a beginning of what it owes.\<close>

definition service_honest :: "RequestHandler \<Rightarrow> u64 \<Rightarrow> Limits \<Rightarrow> Service \<Rightarrow> bool" where
  "service_honest h i limits s \<longleftrightarrow>
     (case se_stage s of
        Serving \<Rightarrow> prefix (se_sent s) (owed h i limits (se_received s))
      | Ending out \<Rightarrow> prefix (se_sent s) out \<and> prefix (owed h i limits (se_received s)) out
      | Ended \<Rightarrow> True)"

lemma replies_prefix:
  "0 < max_header_bytes (fr_limits f) \<Longrightarrow> prefix (replies h i n f) (replies h i n (framer_push f bs))"
proof (induction h i n f rule: replies.induct)
  case (1 h i n f)
  obtain out g where out: "framer_next f = (out, g)" by fastforce
  have limits: "0 < max_header_bytes (fr_limits g)" using framer_next_limits [OF out] "1.prems" by simp
  show ?case
  proof (cases out)
    case Incomplete
    with out show ?thesis by (simp add: replies.simps [of h i n f])
  next
    case (Error e)
    with out replies_push(2) [OF "1.prems"] show ?thesis by (simp add: replies.simps [of h i n f])
  next
    case (Complete r)
    with out replies_push(3) [OF "1.prems"] "1.IH" [OF out [symmetric] Complete refl _ limits] show ?thesis
      by (simp add: replies.simps [of h i n f] Let_def)
  qed
qed

lemma owed_prefix:
  "0 < max_header_bytes limits \<Longrightarrow> prefix (owed h i limits bs) (owed h i limits (bs @ cs))"
  using replies_prefix [of "framer_push (new_framer limits) bs" h i 0 cs]
  by (simp add: owed_def framer_push_push) (simp add: new_framer_def)

lemma serves_honest:
  assumes "serves h i limits s t" and "service_honest h i limits s" and "0 < max_header_bytes limits"
  shows "service_honest h i limits t \<and> prefix (se_sent s) (se_sent t)"
  using assms
  by cases (auto simp: service_honest_def intro: prefix_order.trans [OF _ owed_prefix])

lemma serves_many_honest:
  assumes "serves_many h i limits new_service t" and "0 < max_header_bytes limits"
  shows "service_honest h i limits t"
  using assms(1)
proof (induction rule: rtranclp_induct)
  case base
  then show ?case by (simp add: service_honest_def new_service_def)
next
  case (step s t)
  with serves_honest assms(2) show ?case by blast
qed

section \<open>Property\<close>

text \<open>
  C3. The class \<^verbatim>\<open>Connection\<close> implements the service: over any sequence of poll events, deadlines and
  shutdowns and any behaviour of the socket, every event is handled to its end and is a run of
  the specification, in which bytes are received, the owed responses are sent in order and piece
  by piece, the conversation ends only after a response that closes it or after everything owed
  was sent and the rest of a request did not come in time (then exactly the 408 response with the
  next number is added), and it may be abandoned. The state reached corresponds to the
  connection's: same bytes sent, same bytes received while active, and when it is closing, what it
  still has queued is exactly what the service has yet to send.
\<close>

theorem connection_implements_service:
  assumes "config_ok config" and "fresh_socket s"
  shows "\<exists>c t. run_events conn_event es (new_connection s i peer config h lg now) = Some c \<and>
     serves_many h i (cfg_limits config) new_service t \<and> represents c t"
  using service.run_matched [OF new_connection_service [OF assms]]
  by (simp add: conn_setup_def new_connection_def)

theorem connection_implements_service_witness:
  "\<exists>c t. run_events conn_event sample_events sample_connection = Some c \<and>
     serves_many calc_handler 7 (cfg_limits default_config) new_service t \<and> represents c t"
  unfolding sample_connection_def
  by (rule connection_implements_service [OF sample_config_ok sample_socket_fresh])

end
