(* ===== verification/Conn_Waiting.thy ===== *)
theory Conn_Waiting
  imports Service
begin

text \<open>
  Between events an open connection is always waiting for something that can happen: it asks
  \<^verbatim>\<open>poll()\<close> for input, or for room to write, and never for room when it has nothing to write.
\<close>

section \<open>What is left after an event\<close>

text \<open>A connection that no longer reads still has output to send.\<close>

definition awake :: "Connection \<Rightarrow> bool" where
  "awake c \<longleftrightarrow>
     (c_state c = Active \<and> c_peer_finished_sending c \<longrightarrow> 0 < pending_output_bytes c) \<and>
     (c_state c = Closing \<longrightarrow> 0 < pending_output_bytes c)"

lemma awake_closed [simp]: "awake (close_now reason c)"
  by (auto simp: awake_def close_now_def)

lemma begin_lingering_close_awake: "awake (begin_lingering_close now c)"
  by (cases "sk_shutdown_ok (c_socket c)")
     (simp_all add: begin_lingering_close_def shutdown_write_def, simp add: awake_def)

lemma advance_awake: "advance now c = Some d \<Longrightarrow> awake d"
  by (auto simp: advance_def advance_end_def begin_lingering_close_awake) (auto simp: awake_def)

lemma discard_awake: "c_state c = Draining \<Longrightarrow> awake (discard_lingering_input c)"
  by (auto simp: discard_lingering_input_def awake_def close_now_def Let_def
      split: sum.splits prod.splits)

lemma on_poll_events_awake: "on_poll_events revents now c = Some d \<Longrightarrow> awake c \<Longrightarrow> awake d"
  by (auto simp: on_poll_events_def discard_awake split: if_splits dest: advance_awake)

lemma on_deadline_awake: "on_deadline now c = Some d \<Longrightarrow> awake d"
  by (auto simp: on_deadline_def awake_def [of c] split: ConnState.splits if_splits dest: advance_awake)
     (simp add: awake_def)

lemma conn_reachable_awake: "conn_reachable config h i c \<Longrightarrow> awake c"
proof (induction rule: conn_reachable.induct)
  case (accepted s peer lg now)
  then show ?case by (simp add: awake_def new_connection_def)
next
  case (polled c revents now d)
  then show ?case using on_poll_events_awake by blast
next
  case (expired c now d)
  then show ?case using on_deadline_awake by blast
next
  case (logged c lg)
  then show ?case by (simp add: awake_def pending_output_bytes_def)
qed simp

text \<open>An idle connection has room to read the rest of a request into.\<close>

lemma settled_room:
  assumes "conn_ok c" and "settled c" and "c_state c = Active"
    and "pending_output_bytes c < output_high_water (c_config c)"
    and "0 < max_body_bytes (cfg_limits (c_config c))"
  shows "buffered_bytes (c_parser c) < max_request_bytes (cfg_limits (c_config c))"
proof -
  have inv: "conn_inv c" using assms(1) by (simp add: conn_ok_def)
  then obtain s where "parser_reachable (cfg_limits (c_config c)) s (c_parser c)"
    by (auto simp: conn_inv_def)
  then have "framer_bounded (view (c_parser c))" using parser_reachable_inv by blast
  with assms(2-4) framer_next_incomplete [of "view (c_parser c)" "view (c_parser c)"]
    conn_inv_parser(2) [OF inv] assms(5)
  show ?thesis by (auto simp: settled_def buffered_view max_request_bytes_def)
qed

section \<open>Property\<close>

text \<open>
  C19. No connection is forgotten: between events an open connection asks \<^verbatim>\<open>poll()\<close> for at least
  one event (for limits that allow a body), it asks for room to write exactly when it is not
  draining and has unsent output, and while the client may send and nothing is unsent it asks
  for input, so neither side can wait for the other for ever.
\<close>

theorem connection_never_stuck:
  assumes "conn_reachable config h i c" and "config_ok config"
    and "0 < max_body_bytes (cfg_limits config)" and "\<not> closed c"
  shows "poll_events c \<noteq> {} \<and>
     (POLLOUT \<in> poll_events c \<longleftrightarrow> c_state c \<noteq> Draining \<and> 0 < pending_output_bytes c) \<and>
     (c_state c = Active \<and> \<not> c_peer_finished_sending c \<and> pending_output_bytes c = 0 \<longrightarrow>
        POLLIN \<in> poll_events c)"
proof -
  note ok = conn_reachable_ok [OF assms(1,2)] conn_reachable_setup [OF assms(1)]
  have awake: "awake c" using conn_reachable_awake [OF assms(1)] .
  have "wants_to_read c"
    if "c_state c = Active" "\<not> c_peer_finished_sending c" "pending_output_bytes c = 0"
    using that settled_room [of c] ok assms(2,3) by (auto simp: wants_to_read_def config_ok_def)
  with awake assms(4) show ?thesis
    by (cases "c_state c") (auto simp: awake_def poll_events_def closed_def)
qed

theorem connection_never_stuck_witness:
  "poll_events sample_connection \<noteq> {} \<and> POLLIN \<in> poll_events sample_connection"
proof -
  have "0 < max_body_bytes (cfg_limits default_config)" "\<not> closed sample_connection"
    "c_state sample_connection = Active" "\<not> c_peer_finished_sending sample_connection"
    "pending_output_bytes sample_connection = 0" by code_simp+
  with connection_never_stuck [OF sample_reachable_new(1) sample_config_ok] show ?thesis by blast
qed

end
