(* ===== verification/Conn_Delivery.thy ===== *)
theory Conn_Delivery
  imports Conn_Waiting
begin

text \<open>
  A connection does not sit on its answers: as long as the kernel takes bytes, one event is
  enough to answer every complete request and to hand the answers over to the kernel.
\<close>

section \<open>A kernel that takes bytes\<close>

text \<open>Calls of \<open>send\<close> that take something, or are to be repeated.\<close>

fun accepting_event :: "SendEvent \<Rightarrow> bool" where
  "accepting_event (Accepts n) = (0 < n)"
| "accepting_event (SendError e) = (e = EINTR)"

definition tx_accepting :: "Connection \<Rightarrow> bool" where
  "tx_accepting c \<longleftrightarrow> list_all accepting_event (sk_tx (c_socket c))"

text \<open>All output is sent, or the kernel has no more room.\<close>

definition flushed :: "Connection \<Rightarrow> bool" where
  "flushed c \<longleftrightarrow> unsent c = [] \<or> sk_tx (c_socket c) = []"

lemma send_accepting:
  "send s data = (out, t) \<Longrightarrow> list_all accepting_event (sk_tx s) \<Longrightarrow> data \<noteq> [] \<Longrightarrow>
     list_all accepting_event (sk_tx t) \<and>
     (case out of Inr n \<Rightarrow> 0 < n | Inl e \<Rightarrow> e = EINTR \<or> e = EAGAIN \<and> sk_tx t = [])"
  by (auto simp: send_def split: list.splits SendEvent.splits)

lemma flush_loop_accepting:
  "flush_loop now b c = (early, sent, d) \<Longrightarrow> tx_accepting c \<Longrightarrow>
     \<not> early \<and> tx_accepting d \<and> flushed d \<and> c_state d = c_state c"
proof (induction rule: flush_loop_rule)
  case (sent b c n s early sent d)
  with send_accepting [OF sent(2)] show ?case
    by (simp add: tx_accepting_def pending_output_bytes_def)
next
  case (retry b c s early sent d)
  with send_accepting [OF retry(2)] show ?case
    by (simp add: tx_accepting_def pending_output_bytes_def)
next
  case (blocked b c out s)
  with send_accepting [OF blocked(2)] show ?case
    by (auto simp: tx_accepting_def flushed_def pending_output_bytes_def)
next
  case (failed b c e s t)
  with send_accepting [OF failed(2)] show ?case
    by (simp add: tx_accepting_def pending_output_bytes_def)
qed (simp add: flushed_def pending_unsent)

lemma flush_output_accepting:
  assumes "flush_output now c = (sent, d)" and "tx_accepting c"
  shows "tx_accepting d \<and> flushed d \<and> c_state d = c_state c"
proof -
  obtain early b e where loop: "flush_loop now False c = (early, b, e)" by (metis prod_cases3)
  from flush_loop_accepting [OF this assms(2)] loop assms(1)
  have "d = reclaim_output e" "tx_accepting e" "flushed e" "c_state e = c_state c"
    by (auto simp: flush_output_def)
  then show ?thesis
    by (auto simp: reclaim_output_def tx_accepting_def flushed_def unsent_def)
qed

lemma advance_pass_accepting:
  "advance_pass now c = Some (b, d) \<Longrightarrow> tx_accepting c \<Longrightarrow> tx_accepting d \<and> flushed d"
  by (erule advance_pass_cases)
     (auto simp: tx_accepting_def dest!: respond_loop_socket flush_output_accepting)

lemma advance_loop_flushed:
  "advance_loop now c = Some d \<Longrightarrow> tx_accepting c \<Longrightarrow>
     flushed d \<or> \<not> (c_state c = Active \<or> c_state c = Closing) \<and> d = c"
  by (induction rule: advance_loop_rule) (auto dest: advance_pass_accepting)

lemma advance_end_flushed: "flushed c \<Longrightarrow> flushed (advance_end now c)"
  by (auto simp: advance_end_def begin_lingering_close_def shutdown_write_def flushed_def
      unsent_def close_now_def close_socket_def conn_log_def)

text \<open>A flushed connection waits only for the kernel.\<close>

lemma advance_flushed:
  assumes "advance now c = Some d" and "tx_accepting c"
  shows "flushed d \<or> c_state d = Draining \<or> c_state d = Closed"
proof -
  from assms(1) obtain e where e: "advance_loop now c = Some e" "d = advance_end now e"
    by (auto simp: advance_def)
  from advance_loop_flushed [OF e(1) assms(2)] show ?thesis
  proof
    assume "flushed e"
    then show ?thesis using e(2) advance_end_flushed by simp
  next
    assume "\<not> (c_state c = Active \<or> c_state c = Closing) \<and> e = c"
    with e(2) show ?thesis by (cases "c_state c") (auto simp: advance_end_def)
  qed
qed

lemma read_from_socket_accepting: "tx_accepting c \<Longrightarrow> tx_accepting (read_from_socket now c)"
  by (auto simp: read_from_socket_def tx_accepting_def Let_def close_now_def close_socket_def
      dest: recv_retry_frame split: prod.splits sum.splits)

lemma on_poll_events_flushed:
  assumes "on_poll_events revents now c = Some d" and "tx_accepting c"
  shows "flushed d \<or> c_state d = Draining \<or> c_state d = Closed"
proof (cases "c_state c = Closed \<or> POLLNVAL \<in> revents \<or> POLLERR \<in> revents \<or> c_state c = Draining")
  case True
  with assms(1) on_poll_events_follows [OF assms(1)] show ?thesis
    by (cases "c_state d") (auto simp: on_poll_events_def follows_def split: if_splits)
next
  case False
  with assms advance_flushed read_from_socket_accepting show ?thesis
    by (auto simp: on_poll_events_def split: if_splits)
qed

section \<open>Property\<close>

definition eager_connection :: Connection where
  "eager_connection =
     new_connection (keep_alive_socket\<lparr>sk_tx := [SendError EINTR, Accepts 20, Accepts 999, Accepts 1]\<rparr>)
       7 ''peer'' default_config calc_handler \<lparr>lg_level = Notice, lg_lines = []\<rparr> 0"

lemma eager_reachable: "conn_reachable default_config calc_handler 7 eager_connection"
  unfolding eager_connection_def
  by (rule conn_reachable.accepted)
     (simp add: fresh_socket_def keep_alive_socket_def sample_socket_def)

text \<open>
  C10. Answers leave at once: when every \<^verbatim>\<open>send()\<close> takes some bytes (or is interrupted) and the
  kernel still has room after a poll event, then no final response is left waiting, and a
  connection that stays active has written the complete responses to every complete request it
  has received, with nothing left in its output buffer.
\<close>

theorem connection_delivers:
  assumes "conn_reachable config h i c" and "config_ok config"
    and "on_poll_events revents now c = Some d"
    and "list_all accepting_event (sk_tx (c_socket c))" and "sk_tx (c_socket d) \<noteq> []"
  shows "c_state d \<noteq> Closing \<and>
     (c_state d = Active \<longrightarrow> pending_output_bytes d = 0 \<and> sk_wire (c_socket d) =
        replies h i 0 (framer_push (new_framer (cfg_limits config)) (sk_delivered (c_socket d))))"
proof -
  have d: "conn_reachable config h i d" using assms(1,3) by (rule conn_reachable.polled)
  have "flushed d \<or> c_state d = Draining \<or> c_state d = Closed"
    using on_poll_events_flushed [OF assms(3)] assms(4) by (simp add: tx_accepting_def)
  then have sent: "unsent d = []" if "c_state d = Active \<or> c_state d = Closing"
    using that assms(5) by (auto simp: flushed_def)
  have "c_state d \<noteq> Closing"
    using sent conn_reachable_awake [OF d] by (auto simp: awake_def pending_unsent)
  moreover have "pending_output_bytes d = 0 \<and> sk_wire (c_socket d) =
      replies h i 0 (framer_push (new_framer (cfg_limits config)) (sk_delivered (c_socket d)))"
    if active: "c_state d = Active"
  proof -
    have none: "pending_output_bytes d = 0" using sent active by (simp add: pending_unsent)
    with assms(2) have "pending_output_bytes d < output_high_water config"
      by (simp add: config_ok_def)
    from conn_reachable_answers [OF d assms(2) active this] none sent active show ?thesis
      by (simp add: unsent_def)
  qed
  ultimately show ?thesis by blast
qed

theorem connection_delivers_witness:
  "\<exists>d. on_poll_events {POLLIN} 1 eager_connection = Some d \<and> c_state d = Active \<and>
     pending_output_bytes d = 0 \<and> sk_wire (c_socket d) =
       replies calc_handler 7 0
         (framer_push (new_framer (cfg_limits default_config)) (sk_delivered (c_socket d)))"
proof -
  have tx: "list_all accepting_event (sk_tx (c_socket eager_connection))" by code_simp
  have "case on_poll_events {POLLIN} 1 eager_connection of
      Some d \<Rightarrow> c_state d = Active \<and> sk_tx (c_socket d) \<noteq> [] | None \<Rightarrow> False" by code_simp
  then obtain d where d: "on_poll_events {POLLIN} 1 eager_connection = Some d"
    "c_state d = Active" "sk_tx (c_socket d) \<noteq> []" by (auto split: option.splits)
  from connection_delivers [OF eager_reachable sample_config_ok d(1) tx d(3)] d(1,2)
  show ?thesis by blast
qed

end
