(* ===== verification/Conn_Bounds.thy ===== *)
theory Conn_Bounds
  imports Conn_Delivery
begin

text \<open>
  How much a connection stores for a client that does not read: every answer of the calculator
  has a bounded size, so that the output buffer stays near the high-water mark, and the part of
  the buffer that is already sent never exceeds the part that is not.
\<close>

section \<open>The size of a response\<close>

lemma length_nat_to_string: "n < 10 ^ k \<Longrightarrow> 0 < k \<Longrightarrow> length (nat_to_string n) \<le> k"
proof (induction n arbitrary: k rule: nat_to_string.induct)
  case (1 n)
  show ?case
  proof (cases "n < 10")
    case True
    with 1 show ?thesis by (simp add: nat_to_string.simps [of n])
  next
    case False
    from "1.prems"(2) obtain j where j: "k = Suc j" by (cases k) auto
    with False "1.prems"(1) have "0 < j" by (cases j) auto
    note k = j this
    with "1.prems" have "n div 10 < 10 ^ j" by (simp add: less_mult_imp_div_less)
    with "1.IH" [OF False _ k(2)] False k show ?thesis by (simp add: nat_to_string.simps [of n])
  qed
qed

lemma length_show_u64: "length (show_u64 w) \<le> 20"
proof (rule length_nat_to_string)
  show "unat w < 10 ^ 20" using unsigned_less [of w, where 'a = nat] by simp
qed simp

lemma length_serialize_stamp: "length (serialize (stamp_response i n r)) \<le> length (serialize r) + 79"
  using length_show_u64 [of i] length_show_u64 [of n]
  by (simp add: serialize_def stamp_response_def header_line_def)

lemma length_int_to_string: "fits_int64 v \<Longrightarrow> length (int_to_string v) \<le> 20"
  using length_nat_to_string [of "nat v" 19] length_nat_to_string [of "nat (- v)" 19]
  by (auto simp: int_to_string_def fits_int64_def int64_min_def int64_max_def nat_less_iff)

lemma length_reason_phrase: "length (reason_phrase status) \<le> 31"
  by (simp add: reason_phrase_def)

text \<open>The time stamp of a log line fits its buffer: it always has the form \<^verbatim>\<open>14:03:27.512\<close>.\<close>

lemma length_zero_padded: "0 \<le> i \<Longrightarrow> i < 10 ^ w \<Longrightarrow> 0 < w \<Longrightarrow> length (zero_padded w i) = w"
  using length_nat_to_string [of "nat i" w] by (simp add: zero_padded_def Let_def nat_less_iff)

lemma timestamp_length:
  assumes "0 \<le> hour" "hour < 24" "0 \<le> minute" "minute < 60" "0 \<le> second" "second \<le> 60" "0 \<le> ms"
  shows "length (timestamp hour minute second ms) = 12"
proof -
  have "length (zero_padded 2 hour) = 2" "length (zero_padded 2 minute) = 2"
    "length (zero_padded 2 second) = 2"
    using assms by (simp_all add: length_zero_padded)
  moreover have "length (zero_padded 3 (sgn ms * (\<bar>ms\<bar> mod 1000))) = 3"
    using assms(7) by (intro length_zero_padded) (auto simp: sgn_if)
  ultimately show ?thesis by (simp add: timestamp_def)
qed

text \<open>A response whose parts are short.\<close>

definition short_response :: "Response \<Rightarrow> bool" where
  "short_response r \<longleftrightarrow>
     0 \<le> resp_status r \<and> resp_status r < 1000 \<and> length (resp_body r) \<le> 211 \<and>
     length (concat (map header_line (resp_headers r))) \<le> 12"

lemma short_response_text:
  "short_response (text_response status m) \<longleftrightarrow> 0 \<le> status \<and> status < 1000 \<and> length m \<le> 210"
  by (auto simp: short_response_def)

lemma short_response_flags [simp]:
  "short_response (r\<lparr>resp_close_connection := b\<rparr>) = short_response r"
  "short_response (r\<lparr>resp_omit_body := b\<rparr>) = short_response r"
  by (simp_all add: short_response_def)

lemma short_response_finish [simp]: "short_response (finish_response q r) = short_response r"
  by (simp add: finish_response_def Let_def)

lemma short_response_length:
  assumes "short_response r"
  shows "length (serialize (stamp_response i n r)) \<le> 450"
proof -
  have "length (int_to_string (resp_status r)) \<le> 3"
    using assms length_nat_to_string [of "nat (resp_status r)" 3]
    by (simp add: short_response_def int_to_string_def nat_less_iff)
  moreover have "length (nat_to_string (length (resp_body r))) \<le> 3"
    using assms length_nat_to_string [of "length (resp_body r)" 3] by (simp add: short_response_def)
  moreover have "length (concat (map header_line (resp_headers r))) \<le> 12" "length (resp_body r) \<le> 211"
    using assms by (simp_all add: short_response_def)
  ultimately have "length (serialize r) \<le> 371"
    using length_reason_phrase [of "resp_status r"] unfolding serialize_def by simp
  then show ?thesis using length_serialize_stamp [of i n r] by linarith
qed

section \<open>The answers of the calculator are short\<close>

lemma parse_segment_error: "parse_segment s = Inl m \<Longrightarrow> length m \<le> 150"
  using quoted_excerpt_length [of s]
  by (auto simp: parse_segment_def stray_ampersand_message_def no_value_message_def
      bad_escape_message_def quoted_def split: if_splits option.splits)

lemma parse_query_loop_error:
  "length (qp_error result) \<le> 150 \<Longrightarrow> length (qp_error (parse_query_loop q result)) \<le> 150"
proof (induction q result rule: parse_query_loop.induct)
  case (1 q result)
  let ?amp = "find_char (CHR ''&'') q"
  show ?case
  proof (cases "parse_segment (prefix_to q ?amp)")
    case (Inl m)
    with parse_segment_error [OF Inl] show ?thesis by (simp add: parse_query_loop.simps [of q])
  next
    case (Inr v)
    with 1 show ?thesis
      by (cases ?amp) (simp_all add: parse_query_loop.simps [of q] Let_def)
  qed
qed

lemma parse_query_error: "length (qp_error (parse_query q)) \<le> 150"
  by (simp add: parse_query_def parse_query_loop_error Let_def)

lemma fill_slots_error: "fill_slots ps slots = Inl m \<Longrightarrow> length m \<le> 150"
proof (induction ps slots rule: fill_slots.induct)
  case (2 name v ps a b)
  then show ?case
    using quoted_excerpt_length [of name]
    by (auto simp: unknown_parameter_message_def duplicate_parameter_message_def quoted_def
        split: if_splits)
qed simp

lemma parse_operand_error:
  "parse_operand name t v = (Some m, w) \<Longrightarrow> length name = 1 \<Longrightarrow> length m \<le> 150"
  using quoted_excerpt_length [of t]
  by (auto simp: parse_operand_def quoted_def Let_def split: prod.splits IntParseStatus.splits)

lemma parse_operands_error: "parse_operands q = Inl m \<Longrightarrow> length m \<le> 150"
  using parse_query_error [of q]
  by (auto simp: parse_operands_def missing_parameters_message_def missing_parameter_message_def
      quoted_def Let_def dest: fill_slots_error parse_operand_error
      split: if_splits sum.splits prod.splits option.splits)

lemma handle_request_short: "short_response (handle_request r)"
proof -
  have host: "length (invalid_host_message h) \<le> 210" for h
    using quoted_excerpt_length [of h] by (simp add: invalid_host_message_def)
  have operation: "length (unknown_operation_message p) \<le> 210" for p
    using quoted_excerpt_length [of p] by (simp add: unknown_operation_message_def)
  have "length (method_not_allowed_message m) \<le> 210" for m
    using excerpt_length [of m] by (simp add: method_not_allowed_message_def)
  then have "short_response (text_response 405 (method_not_allowed_message m)
      \<lparr>resp_headers := [\<lparr>hdr_name = ''Allow'', hdr_value = ''GET''\<rparr>]\<rparr>)" for m
    by (simp add: short_response_def header_line_def)
  moreover have "length m \<le> 210" if "parse_operands (query r) = Inl m" for m
    using parse_operands_error [OF that] by simp
  moreover have "length (int_to_string v) \<le> 210" if "fits_int64 v" for v
    using length_int_to_string [OF that] by simp
  ultimately have "host_ok r \<Longrightarrow> ?thesis"
    using operation
    by (auto simp: handle_request_host_ok short_response_text division_by_zero_message_def
        overflow_message_def split: option.splits sum.splits)
  moreover have "\<not> host_ok r \<Longrightarrow> ?thesis"
    using host by (cases "req_version r")
      (auto simp: handle_request_def host_ok_def Let_def short_response_text)
  ultimately show ?thesis by blast
qed

section \<open>Handlers with short answers\<close>

lemma answer_request_output:
  "c_output (answer_request r c) = c_output c @
     serialize (stamp_response (c_id c) (st_requests (c_stats c) + 1)
       (finish_response r (handled (c_handler c) r)))"
  by (simp add: answer_request_def Let_def case_prod_beta)
     (simp add: run_handler_def handled_def split: sum.splits)

lemma answer_error_output:
  "c_output (answer_error e c) = c_output c @
     serialize (stamp_response (c_id c) (st_requests (c_stats c) + 1) (error_response e))"
  by (simp add: answer_error_def Let_def)

text \<open>What is needed of a handler: no answer of it, with the evidence headers, is longer than \<open>bound\<close>.\<close>

locale short_handler =
  fixes h :: RequestHandler
    and bound :: nat
  assumes short: "length (serialize (stamp_response i n (finish_response r (handled h r)))) \<le> bound"
    and room: "450 \<le> bound"
begin

text \<open>The output of a connection between two calls of its member functions.\<close>

definition contained :: "Connection \<Rightarrow> bool" where
  "contained c \<longleftrightarrow>
     c_handler c = h \<and> message_bound (cfg_limits (c_config c)) \<le> 210 \<and>
     (\<exists>s. parser_reachable (cfg_limits (c_config c)) s (c_parser c)) \<and>
     c_output_sent c \<le> length (c_output c) \<and>
     pending_output_bytes c \<le> output_high_water (c_config c) + bound"

lemma contained_parser:
  assumes "contained c" and "parser_next (c_parser c) = Some (out, p)"
  shows "contained (c\<lparr>c_parser := p\<rparr>)"
proof -
  from assms(1) obtain s where "parser_reachable (cfg_limits (c_config c)) s (c_parser c)"
    by (auto simp: contained_def)
  from parser_reachable.asked [OF this assms(2)] assms(1) show ?thesis
    by (auto simp: contained_def pending_output_bytes_def)
qed

text \<open>Queueing one more short response below the high-water mark.\<close>

lemma contained_longer:
  assumes "contained c" and "pending_output_bytes c \<le> output_high_water (c_config c)"
    and "c_output d = c_output c @ more_output" and "length more_output \<le> bound"
    and "c_handler d = c_handler c" "c_config d = c_config c" "c_parser d = c_parser c"
      "c_output_sent d = c_output_sent c"
  shows "contained d"
  using assms by (auto simp: contained_def pending_output_bytes_def)

lemma contained_answer_request:
  assumes "contained c" and "pending_output_bytes c \<le> output_high_water (c_config c)"
  shows "contained (answer_request r c)"
proof (rule contained_longer [OF assms])
  show "c_output (answer_request r c) = c_output c @ serialize (stamp_response (c_id c)
      (st_requests (c_stats c) + 1) (finish_response r (handled h r)))"
    using assms(1) by (simp add: answer_request_output contained_def)
qed (simp_all add: short answer_frame)

lemma contained_answer_error:
  assumes "contained c" and "pending_output_bytes c \<le> output_high_water (c_config c)"
    and "length (pe_message e) \<le> 210" and "pe_status e \<in> set parse_statuses"
  shows "contained (answer_error e c)"
proof (rule contained_longer [OF assms(1,2) answer_error_output])
  have "short_response (error_response e)"
    using assms(3,4) by (auto simp: error_response_def short_response_text parse_statuses_def)
  from short_response_length [OF this] room
  show "length (serialize (stamp_response (c_id c) (st_requests (c_stats c) + 1) (error_response e)))
      \<le> bound" by (rule order.trans)
qed (simp_all add: answer_frame)

lemma contained_parse_error:
  assumes "contained c" and "parser_next (c_parser c) = Some (Error e, p)"
  shows "length (pe_message e) \<le> 210 \<and> pe_status e \<in> set parse_statuses"
proof -
  from assms(1) obtain s where s: "parser_reachable (cfg_limits (c_config c)) s (c_parser c)"
    and limit: "message_bound (cfg_limits (c_config c)) \<le> 210" by (auto simp: contained_def)
  note asked = parser_reachable_next [OF s assms(2)]
  from framer_next_status [OF asked(1) parser_reachable_status [OF s]] asked(4) limit show ?thesis
    by (simp add: error_ok_def)
qed

lemma respond_loop_contained: "respond_loop b c = Some (r, d) \<Longrightarrow> contained c \<Longrightarrow> contained d"
proof (induction rule: respond_loop_rule)
  case (incomplete b c p)
  then show ?case using contained_parser by blast
next
  case (error b c e p)
  with contained_answer_error [OF contained_parser [OF error(4,3)]] contained_parse_error [OF error(4,3)]
  show ?case by (simp add: pending_output_bytes_def)
next
  case (complete b c q p r d)
  with contained_answer_request [OF contained_parser [OF complete(5,3)]] show ?case
    by (simp add: pending_output_bytes_def)
qed simp

lemma contained_written: "written c d \<Longrightarrow> contained c \<Longrightarrow> contained d"
  by (auto simp: contained_def written_def same_core_def pending_unsent)

lemma advance_pass_contained: "advance_pass now c = Some (b, d) \<Longrightarrow> contained c \<Longrightarrow> contained d"
  by (erule advance_pass_cases)
     (auto dest: respond_loop_contained flush_output_written(1) contained_written)

lemma advance_loop_contained: "advance_loop now c = Some d \<Longrightarrow> contained c \<Longrightarrow> contained d"
  by (induction rule: advance_loop_rule) (auto dest: advance_pass_contained)

lemma contained_same:
  assumes "contained c" and "c_handler d = c_handler c" "c_config d = c_config c"
    "c_parser d = c_parser c" "c_output d = c_output c" "c_output_sent d = c_output_sent c"
  shows "contained d"
  using assms by (simp add: contained_def pending_output_bytes_def)

lemma contained_close: "contained c \<Longrightarrow> contained (close_now t c)"
  by (erule contained_written [OF written_close])

lemma contained_linger: "contained c \<Longrightarrow> contained (begin_lingering_close now c)"
  by (cases "sk_shutdown_ok (c_socket c)")
     (auto simp: begin_lingering_close_def shutdown_write_def elim!: contained_same
        intro!: contained_close)

lemma advance_end_contained: "contained c \<Longrightarrow> contained (advance_end now c)"
  by (simp add: advance_end_def contained_linger contained_close)

lemma advance_contained: "advance now c = Some d \<Longrightarrow> contained c \<Longrightarrow> contained d"
  by (auto simp: advance_def advance_end_contained advance_loop_contained)

lemma read_from_socket_contained:
  assumes "contained c"
  shows "contained (read_from_socket now c)"
proof -
  obtain out s where out: "recv_retry (c_socket c) (read_size c) = (out, s)" by fastforce
  have socket: "contained (c\<lparr>c_socket := s\<rparr>)" using assms by (rule contained_same) simp_all
  show ?thesis
  proof (cases out)
    case (Inl e)
    with out socket show ?thesis by (simp add: read_from_socket_def Let_def contained_close)
  next
    case (Inr bytes)
    from assms obtain t where "parser_reachable (cfg_limits (c_config c)) t (c_parser c)"
      by (auto simp: contained_def)
    from parser_reachable.fed [OF this, of bytes]
    have "\<exists>t. parser_reachable (cfg_limits (c_config c)) t (feed (c_parser c) bytes)" by blast
    with out Inr assms show ?thesis
      by (simp add: read_from_socket_def Let_def contained_def pending_output_bytes_def)
  qed
qed

lemma discard_contained: "contained c \<Longrightarrow> contained (discard_lingering_input c)"
  by (auto simp: discard_lingering_input_def Let_def split: prod.split sum.split
      intro!: contained_close elim!: contained_same)

lemma on_poll_events_contained:
  "on_poll_events revents now c = Some d \<Longrightarrow> contained c \<Longrightarrow> contained d"
  by (erule on_poll_events_cases)
     (auto simp: contained_close discard_contained dest: advance_contained read_from_socket_contained)

lemma on_deadline_contained:
  assumes "on_deadline now c = Some d" and "contained c"
  shows "contained d"
  using assms(1)
proof (cases rule: on_deadline_cases)
  case (times_out t)
  let ?e = "(queue_response timeout_response (conn_log Info t c))\<lparr>c_last_activity := now\<rparr>"
  have "short_response timeout_response" by (simp add: timeout_response_def short_response_text)
  from order.trans [OF short_response_length [OF this] room]
  have "contained ?e"
    by (intro contained_longer [OF assms(2), where more_output = "serialize (stamp_response (c_id c)
          (st_requests (c_stats c) + 1) timeout_response)"]) (simp_all add: times_out)
  with times_out(4) show ?thesis by (rule advance_contained)
qed (simp add: assms(2) contained_close)

lemma conn_reachable_contained:
  "conn_reachable config h i c \<Longrightarrow> message_bound (cfg_limits config) \<le> 210 \<Longrightarrow> contained c"
proof (induction rule: conn_reachable.induct)
  case (accepted s peer lg now)
  then show ?case
    using parser_reachable.start
    by (auto simp: contained_def new_connection_def pending_output_bytes_def)
next
  case (logged c lg)
  then show ?case by (auto elim: contained_same)
qed (auto intro: on_poll_events_contained on_deadline_contained contained_close)

end

interpretation short_calc: short_handler calc_handler 450
proof
  fix i n r
  have "short_response (finish_response r (handled calc_handler r))"
    by (simp add: handled_def calc_handler_def handle_request_short)
  then show "length (serialize (stamp_response i n (finish_response r (handled calc_handler r)))) \<le> 450"
    by (rule short_response_length)
qed simp

section \<open>The sent part of the buffer\<close>

text \<open>At least half of the buffer is still to be sent.\<close>

definition compact :: "Connection \<Rightarrow> bool" where
  "compact c \<longleftrightarrow> c_state c = Closed \<or> length (c_output c) \<le> 2 * pending_output_bytes c"

lemma flush_output_compact: "flush_output now c = (sent, d) \<Longrightarrow> compact d"
proof -
  assume flush: "flush_output now c = (sent, d)"
  obtain early b e where loop: "flush_loop now False c = (early, b, e)" by (metis prod_cases3)
  with flush have "if early then d = e else d = reclaim_output e"
    by (auto simp: flush_output_def)
  with flush_loop_written [OF loop] show ?thesis
    by (auto simp: compact_def reclaim_output_def pending_output_bytes_def split: if_splits)
qed

lemma advance_pass_compact: "advance_pass now c = Some (b, d) \<Longrightarrow> compact d"
  by (erule advance_pass_cases) (auto dest: flush_output_compact)

lemma advance_loop_compact:
  "advance_loop now c = Some d \<Longrightarrow> compact c \<or> c_state c = Active \<or> c_state c = Closing \<Longrightarrow> compact d"
  by (induction rule: advance_loop_rule) (auto dest: advance_pass_compact)

lemma compact_same:
  "compact c \<Longrightarrow> c_output d = c_output c \<Longrightarrow> c_output_sent d = c_output_sent c \<Longrightarrow>
     (c_state c = Closed \<Longrightarrow> c_state d = Closed) \<Longrightarrow> compact d"
  by (auto simp: compact_def pending_output_bytes_def)

lemma compact_close [simp]: "compact (close_now t c)"
  by (simp add: compact_def)

lemma advance_compact:
  assumes "advance now c = Some d" and "compact c \<or> c_state c = Active \<or> c_state c = Closing"
  shows "compact d"
proof -
  from assms(1) obtain e where e: "advance_loop now c = Some e" "d = advance_end now e"
    by (auto simp: advance_def)
  from advance_loop_compact [OF e(1) assms(2)] show ?thesis
    unfolding e(2) advance_end_def
    by (auto simp: begin_lingering_close_def shutdown_write_def elim: compact_same)
qed

lemma discard_compact: "compact c \<Longrightarrow> compact (discard_lingering_input c)"
  by (auto simp: discard_lingering_input_def Let_def split: prod.split sum.split elim!: compact_same)

lemma conn_reachable_compact: "conn_reachable config h i c \<Longrightarrow> compact c"
proof (induction rule: conn_reachable.induct)
  case (polled c revents now d)
  have "compact e \<or> c_state e = Active \<or> c_state e = Closing"
    if "e = read_from_socket now c \<or> e = c" "c_state c = Active \<or> c_state c = Closing" for e
    using that read_from_socket_state [of now c] by (auto simp: compact_def)
  with polled show ?case
    by (cases "c_state c")
       (auto simp: on_poll_events_def discard_compact split: if_splits intro: advance_compact)
next
  case (expired c now d)
  then show ?case
    by (cases "c_state c")
       (auto simp: on_deadline_def timeout_response_def split: if_splits intro: advance_compact)
next
  case (logged c lg)
  then show ?case by (auto elim: compact_same)
qed (simp_all add: compact_def new_connection_def)

section \<open>Property\<close>

text \<open>
  C16. Output stays bounded: a connection of the calculator server holds at most 450 bytes more
  unsent output than the high-water mark (for limits that fit in \<^verbatim>\<open>size_t\<close>), however many
  requests the client pipelines without reading, and at least half of the buffer of an open
  connection is unsent output.
\<close>

theorem connection_output_bound:
  assumes "conn_reachable config calc_handler i c"
    and "max_header_bytes (cfg_limits config) < 2 ^ 64"
    and "max_header_count (cfg_limits config) < 2 ^ 64"
    and "max_body_bytes (cfg_limits config) < 2 ^ 64"
  shows "pending_output_bytes c \<le> output_high_water config + 450 \<and>
     (\<not> closed c \<longrightarrow> length (c_output c) \<le> 2 * pending_output_bytes c)"
proof -
  have "message_bound (cfg_limits config) \<le> 210"
    using assms(2-4) length_nat_to_string [of "max_header_bytes (cfg_limits config)" 20]
      length_nat_to_string [of "max_header_count (cfg_limits config)" 20]
      length_nat_to_string [of "max_body_bytes (cfg_limits config)" 20]
    by (simp add: message_bound_def)
  from short_calc.conn_reachable_contained [OF assms(1) this] conn_reachable_compact [OF assms(1)]
    conn_reachable_setup [OF assms(1)] show ?thesis
    by (auto simp: short_calc.contained_def compact_def closed_def)
qed

theorem connection_output_bound_witness:
  "\<exists>c. run_events conn_event [Polled {POLLIN} 1] keep_alive_connection = Some c \<and> \<not> closed c \<and>
     0 < pending_output_bytes c \<and>
     pending_output_bytes c \<le> output_high_water default_config + 450 \<and>
     length (c_output c) \<le> 2 * pending_output_bytes c"
proof -
  have "case run_events conn_event [Polled {POLLIN} 1] keep_alive_connection of
      Some c \<Rightarrow> \<not> closed c \<and> 0 < pending_output_bytes c | None \<Rightarrow> False" by code_simp
  then obtain c where c: "run_events conn_event [Polled {POLLIN} 1] keep_alive_connection = Some c"
    "\<not> closed c" "0 < pending_output_bytes c" by (auto split: option.splits)
  from connection_output_bound [OF conn_reachable_run [OF c(1) sample_reachable_new(2)]] c
  show ?thesis by (simp add: default_config_def default_limits_def)
qed

end
