(* ===== verification/Demo.thy ===== *)
theory Demo
  imports Client_Reader Conn_Bounds
begin

text \<open>
  Server and client together: the responses of a session as values, what \<^verbatim>\<open>send_all\<close> writes, and
  the demonstration of \<^verbatim>\<open>src/tools/demo_client.cpp\<close> against the calculator.
\<close>

section \<open>The responses of a session\<close>

text \<open>Consecutive numbers on the answers of a connection.\<close>

fun stamps :: "u64 \<Rightarrow> u64 \<Rightarrow> Response list \<Rightarrow> Response list" where
  "stamps i n [] = []"
| "stamps i n (a # as) = stamp_response i (n + 1) a # stamps i (n + 1) as"

lemma length_stamps [simp]: "length (stamps i n as) = length as"
  by (induction as arbitrary: n) simp_all

lemma stamps_append: "stamps i n (as @ bs) = stamps i n as @ stamps i (n + of_nat (length as)) bs"
  by (induction as arbitrary: n) (simp_all add: add.assoc)

lemma nth_stamps: "k < length as \<Longrightarrow> stamps i n as ! k = stamp_response i (n + 1 + of_nat k) (as ! k)"
  by (induction as arbitrary: n k) (auto simp: nth_Cons algebra_simps split: nat.split)

lemma session_answers_stamps:
  "session_answers answer i n rs =
     concat (map serialize (stamps i n (map (\<lambda>r. finish_response r (answer r)) rs)))"
  by (induction rs arbitrary: n) simp_all

section \<open>Stamped responses can be read\<close>

lemma readable_stamp:
  assumes "readable r" and "length (serialize r) < 1000"
  shows "readable (stamp_response i n r)"
proof -
  have "list_all readable_field (resp_headers (stamp_response i n r))"
    using assms(1) by (simp add: readable_def stamp_response_def readable_field_def clean_header_def
        hd_nat_to_string)
  moreover have "length (serialize (stamp_response i n r)) < 2 ^ 64"
    using length_serialize_stamp [of i n r] assms(2) by simp
  ultimately show ?thesis using assms(1) by (simp add: readable_def stamp_response_def)
qed

text \<open>The stamp is what the client finds in the two header fields, unless the answer has its own.\<close>

definition unstamped :: "Response \<Rightarrow> bool" where
  "unstamped r \<longleftrightarrow> list_all (\<lambda>h. \<not> iequals (hdr_name h) ''X-Connection-Id'' \<and>
     \<not> iequals (hdr_name h) ''X-Request-Number'') (resp_headers r)"

lemma hr_find_append:
  "list_all (\<lambda>(k, v). \<not> iequals k name) xs \<Longrightarrow> hr_find name (xs @ ys) = hr_find name ys"
  by (induction xs) auto

lemma stamp_fields:
  assumes "unstamped r"
  shows "hr_header (http_of (stamp_response i n r)) ''X-Connection-Id'' = show_u64 i"
    and "hr_header (http_of (stamp_response i n r)) ''X-Request-Number'' = show_u64 n"
proof -
  let ?fields = "map (\<lambda>h. (hdr_name h, hdr_value h)) (wire_headers r)"
  have fields: "hr_headers (http_of (stamp_response i n r)) =
      ?fields @ [(''X-Connection-Id'', show_u64 i), (''X-Request-Number'', show_u64 n)]"
    by (simp add: http_of_def wire_headers_def stamp_response_def)
  have fixed: "\<not> iequals ''Content-Length'' ''X-Connection-Id''" "\<not> iequals ''Content-Type'' ''X-Connection-Id''"
    "\<not> iequals ''Connection'' ''X-Connection-Id''" "\<not> iequals ''Content-Length'' ''X-Request-Number''"
    "\<not> iequals ''Content-Type'' ''X-Request-Number''" "\<not> iequals ''Connection'' ''X-Request-Number''"
    "\<not> iequals ''X-Connection-Id'' ''X-Request-Number''" by code_simp+
  have "list_all (\<lambda>(k, v). \<not> iequals k ''X-Connection-Id'') ?fields"
    "list_all (\<lambda>(k, v). \<not> iequals k ''X-Request-Number'') ?fields"
    using assms fixed by (auto simp: wire_headers_def unstamped_def list_all_iff)
  then show "hr_header (http_of (stamp_response i n r)) ''X-Connection-Id'' = show_u64 i"
    "hr_header (http_of (stamp_response i n r)) ''X-Request-Number'' = show_u64 n"
    using fixed by (simp_all add: hr_header_def fields hr_find_append)
qed

lemma stamps_readable:
  "list_all (\<lambda>a. readable a \<and> length (serialize a) < 1000) as \<Longrightarrow> list_all readable (stamps i n as)"
  by (induction as arbitrary: n) (auto intro: readable_stamp)

lemma stamps_pass:
  "list_all (\<lambda>(x, r). passes x r) (zip xs (map http_of (stamps i n as))) \<longleftrightarrow>
     list_all (\<lambda>(x, a). passes x (http_of a)) (zip xs as)"
proof (induction as arbitrary: xs n)
  case (Cons a as)
  then show ?case by (cases xs) (simp_all add: passes_def http_of_def stamp_response_def)
qed simp

lemma stamps_same_connection:
  assumes "list_all unstamped as" and "length as < 2 ^ 64"
  shows "same_connection (map http_of (stamps i 0 as))"
proof -
  have nth: "hr_header (map http_of (stamps i 0 as) ! k) ''X-Connection-Id'' = show_u64 i"
    "hr_header (map http_of (stamps i 0 as) ! k) ''X-Request-Number'' = nat_to_string (k + 1)"
    if "k < length as" for k
  proof -
    have a: "unstamped (as ! k)" using assms(1) that by (simp add: list_all_length)
    have "unat (of_nat (k + 1) :: u64) = k + 1"
      using that assms(2) by (simp only: unat_of_nat take_bit_eq_mod) simp
    then have "unat (1 + of_nat k :: u64) = k + 1" by simp
    then show "hr_header (map http_of (stamps i 0 as) ! k) ''X-Connection-Id'' = show_u64 i"
      "hr_header (map http_of (stamps i 0 as) ! k) ''X-Request-Number'' = nat_to_string (k + 1)"
      using that stamp_fields [OF a] by (simp_all add: nth_stamps)
  qed
  show ?thesis
  proof (cases as)
    case Nil
    then show ?thesis by (simp add: same_connection_def)
  next
    case (Cons a bs)
    then have "hd (map http_of (stamps i 0 as)) = map http_of (stamps i 0 as) ! 0" by simp
    with nth Cons show ?thesis
      unfolding same_connection_def list_all_iff by (metis (no_types, lifting) atLeastLessThan_iff
          length_map length_stamps length_Cons set_upt zero_less_Suc)
  qed
qed

section \<open>The table\<close>

text \<open>A cell has its width and ends with a space, whatever the content (for the widths that are used).\<close>

lemma pad_width:
  assumes "4 \<le> width" and "width < 2 ^ 64"
  shows "length (pad content width) = width \<and> last (pad content width) = SP"
proof -
  have "width + 2 ^ 64 - 4 = (width - 4) + 2 ^ 64" using assms(1) by simp
  moreover have "width - 4 < 2 ^ 64" using assms(2) by simp
  ultimately have "size_minus width 4 = width - 4"
    unfolding size_minus_def by (metis mod_add_self2 mod_less)
  with assms show ?thesis
    by (auto simp: pad_def resize_def substr_def last_append)
qed

section \<open>Sending\<close>

text \<open>A kernel that accepts at least a byte every time it is not interrupted.\<close>

definition can_send :: "nat \<Rightarrow> Socket \<Rightarrow> bool" where
  "can_send n s \<longleftrightarrow> list_all accepting_event (sk_tx s) \<and>
     n \<le> length (filter (\<lambda>e. e \<noteq> SendError EINTR) (sk_tx s))"

lemma send_all_wire: "send_all s data = Inr t \<Longrightarrow> sk_wire t = sk_wire s @ data"
proof (induction s data rule: send_all.induct)
  case (1 s data)
  show ?case
  proof (cases "data = []")
    case True
    with "1.prems" show ?thesis by (simp add: send_all.simps [of s])
  next
    case False
    obtain out u where u: "send s data = (out, u)" by fastforce
    note frame = send_frame [OF u]
    show ?thesis
    proof (cases out)
      case (Inl e)
      with "1.prems" False u have "e = EINTR" "send_all u data = Inr t"
        by (auto simp: send_all.simps [of s] split: if_splits)
      with "1.IH"(1) [OF False u [symmetric] Inl] frame Inl show ?thesis by simp
    next
      case (Inr n)
      with "1.prems" False u have "send_all u (drop n data) = Inr t"
        by (simp add: send_all.simps [of s])
      with "1.IH"(2) [OF False u [symmetric] Inr] frame Inr show ?thesis by simp
    qed
  qed
qed

lemma send_all_succeeds:
  "can_send (length data + m) s \<Longrightarrow>
     \<exists>t. send_all s data = Inr t \<and> can_send m t \<and> sk_rx t = sk_rx s"
proof (induction s data rule: send_all.induct)
  case (1 s data)
  show ?case
  proof (cases "data = []")
    case True
    with "1.prems" show ?thesis by (simp add: send_all.simps [of s])
  next
    case False
    with "1.prems" obtain e events where tx: "sk_tx s = e # events"
      by (cases "sk_tx s") (auto simp: can_send_def)
    show ?thesis
    proof (cases e)
      case (SendError x)
      let ?u = "s\<lparr>sk_tx := events\<rparr>"
      have u: "send s data = (Inl EINTR, ?u)" "can_send (length data + m) ?u"
        using tx SendError "1.prems" by (auto simp: send_def can_send_def)
      with "1.IH"(1) [OF False u(1) [symmetric] refl refl u(2)] False show ?thesis
        by (auto simp: send_all.simps [of s])
    next
      case (Accepts n)
      let ?u = "s\<lparr>sk_tx := events, sk_wire := sk_wire s @ take n data\<rparr>"
      have n: "0 < n" using tx Accepts "1.prems" by (simp add: can_send_def)
      moreover obtain c cs where "data = c # cs" using False by (cases data) auto
      ultimately have u: "send s data = (Inr (min n (length data)), ?u)"
        "can_send (length (drop (min n (length data)) data) + m) ?u"
        using tx Accepts "1.prems" by (auto simp: send_def can_send_def min_def)
      with "1.IH"(2) [OF False u(1) [symmetric] refl u(2)] False show ?thesis
        by (auto simp: send_all.simps [of s])
    qed
  qed
qed

section \<open>The requests of the demonstration\<close>

definition host_field :: "string \<Rightarrow> Header" where
  "host_field hv = \<lparr>hdr_name = ''Host'', hdr_value = hv\<rparr>"

definition demo_get :: "string \<Rightarrow> string \<Rightarrow> Request" where
  "demo_get target hv =
     new_request\<lparr>req_method := ''GET'', req_target := target, req_headers := [host_field hv]\<rparr>"

definition demo_post :: "string \<Rightarrow> Request" where
  "demo_post hv =
     new_request\<lparr>req_method := ''POST'', req_target := ''/add'',
       req_headers := [host_field hv, \<lparr>hdr_name = ''Content-Length'', hdr_value = ''7''\<rparr>],
       req_body := ''a=2&b=3''\<rparr>"

definition demo_no_host :: Request where
  "demo_no_host = new_request\<lparr>req_method := ''GET'', req_target := ''/add?a=2&b=3''\<rparr>"

definition demo_targets :: "string list" where
  "demo_targets = [''/add?a=2&b=3'', ''/sub?a=10&b=4'', ''/mul?a=6&b=7'', ''/div?a=1&b=0'',
     ''/pow?a=2&b=8'']"

definition demo_requests :: "string \<Rightarrow> Request list" where
  "demo_requests hv = map (\<lambda>t. demo_get t hv) demo_targets @ [demo_post hv, demo_no_host]"

definition demo_probe :: "string \<Rightarrow> Request" where
  "demo_probe hv = demo_get ''/div?a=84&b=2'' hv"

lemma demo_requests_rendered:
  "map render_request (demo_requests hv) = map ex_request (build_exchanges hv)"
  by (simp add: demo_requests_def demo_targets_def demo_get_def demo_post_def demo_no_host_def
      build_exchanges_def get_request_def render_request_def request_head_def request_line_def
      header_text_def version_name_def host_field_def new_request_def Let_def)

lemma demo_probe_rendered:
  "render_request (demo_probe (opt_host options @ '':'' @ opt_port options)) = probe_request options"
  by (simp add: demo_probe_def demo_get_def probe_request_def render_request_def request_head_def
      request_line_def header_text_def version_name_def host_field_def new_request_def)

text \<open>A host text the server accepts, short enough for the header limit.\<close>

definition demo_host :: "string \<Rightarrow> bool" where
  "demo_host hv \<longleftrightarrow> is_valid_host hv \<and> list_all value_char hv \<and> trim_whitespace hv = hv \<and>
     length hv \<le> 1000"

definition plain_target :: "string \<Rightarrow> bool" where
  "plain_target t \<longleftrightarrow> t \<noteq> [] \<and> hd t = CHR ''/'' \<and> list_all target_char t \<and> length t \<le> 100"

lemma demo_names:
  "is_token ''Host''" "is_token ''GET''" "is_token ''POST''" "is_token ''Content-Length''"
  "iequals ''Host'' ''Host''" "\<not> iequals ''Host'' ''Transfer-Encoding''" "\<not> iequals ''Host'' ''Content-Length''"
  "\<not> iequals ''Host'' ''Connection''" "\<not> iequals ''Content-Length'' ''Host''"
  "\<not> iequals ''Content-Length'' ''Connection''" "\<not> iequals ''Content-Length'' ''Transfer-Encoding''"
  "value_char (CHR ''7'')" "trim_whitespace ''7'' = ''7''" "digit (CHR ''7'')"
  "decimal_value ''7'' = 7"
  by code_simp+

lemmas demo_request_defs =
  demo_get_def demo_post_def demo_no_host_def host_field_def new_request_def

lemma demo_get_wf:
  assumes "demo_host hv" and "plain_target t"
  shows "wf_request default_limits (demo_get t hv)"
  using assms
  by (simp add: wf_request_def wf_header_def wf_body_def demo_host_def plain_target_def demo_request_defs
      demo_names has_transfer_encoding_def content_lengths_def request_head_def request_line_def
      header_text_def version_name_def default_limits_def)

lemma demo_post_wf: "demo_host hv \<Longrightarrow> wf_request default_limits (demo_post hv)"
  by (simp add: wf_request_def wf_header_def wf_body_def demo_host_def demo_request_defs
      demo_names has_transfer_encoding_def content_lengths_def request_head_def request_line_def
      header_text_def version_name_def default_limits_def target_char_def)

lemma demo_requests_wf:
  assumes "demo_host hv"
  shows "list_all (wf_request default_limits) (demo_requests hv @ [demo_probe hv])"
proof -
  have "list_all plain_target demo_targets" "plain_target ''/div?a=84&b=2''"
    "wf_request default_limits demo_no_host" by code_simp+
  with demo_get_wf [OF assms] demo_post_wf [OF assms] show ?thesis
    by (auto simp: demo_requests_def demo_probe_def list_all_iff)
qed

lemma demo_keep_alive: "list_all wants_keep_alive (demo_requests hv @ [demo_probe hv])"
proof -
  have "wants_keep_alive (demo_get t hv)" "wants_keep_alive (demo_post hv)" for t
    by (simp_all add: wants_keep_alive_def demo_request_defs demo_names)
  moreover have "wants_keep_alive demo_no_host" by code_simp
  ultimately show ?thesis by (simp add: demo_requests_def demo_probe_def demo_targets_def)
qed

section \<open>The answers of the calculator\<close>

text \<open>The answer does not depend on the host, as long as it is an acceptable one.\<close>

lemma handle_request_host_cong:
  assumes "host_ok r" and "host_ok r'" and "req_target r = req_target r'"
    and "req_method r = req_method r'"
  shows "handle_request r = handle_request r'"
proof -
  have same: "path r = path r'" "query r = query r'" 
    by (simp_all only: path_def query_def assms(3))
  show ?thesis
    unfolding handle_request_host_ok [OF assms(1)] handle_request_host_ok [OF assms(2)] same assms(4) ..
qed

lemma demo_host_ok:
  assumes "demo_host hv"
  shows "host_ok (demo_get t hv)" and "host_ok (demo_post hv)"
  using assms
  by (simp_all add: host_ok_def header_count_def header_def demo_request_defs demo_names demo_host_def)

definition demo_answer :: "Request \<Rightarrow> Response" where
  "demo_answer r = finish_response r (handle_request r)"

lemma demo_answer_eq: "wants_keep_alive r \<Longrightarrow> req_method r \<noteq> ''HEAD'' \<Longrightarrow> demo_answer r = handle_request r"
  by (simp add: demo_answer_def finish_response_def)

lemma demo_example_host: "demo_host ''x:1''"
  by code_simp

definition demo_answers :: "Response list" where
  "demo_answers = map demo_answer (demo_requests ''x:1'')"

lemma demo_answers_any_host:
  assumes "demo_host hv"
  shows "map demo_answer (demo_requests hv) = demo_answers"
    and "demo_answer (demo_probe hv) = demo_answer (demo_probe ''x:1'')"
proof -
  have get: "demo_answer (demo_get t hv) = demo_answer (demo_get t ''x:1'')" for t
    using handle_request_host_cong [OF demo_host_ok(1) [OF assms] demo_host_ok(1) [OF demo_example_host]]
      demo_keep_alive
    by (simp add: demo_answer_def finish_response_def wants_keep_alive_def demo_request_defs demo_names)
  have "demo_answer (demo_post hv) = demo_answer (demo_post ''x:1'')"
    using handle_request_host_cong [OF demo_host_ok(2) [OF assms] demo_host_ok(2) [OF demo_example_host]]
    by (simp add: demo_answer_def finish_response_def wants_keep_alive_def demo_request_defs demo_names)
  with get show "map demo_answer (demo_requests hv) = demo_answers"
    "demo_answer (demo_probe hv) = demo_answer (demo_probe ''x:1'')"
    by (simp_all add: demo_answers_def demo_requests_def demo_targets_def demo_probe_def)
qed

lemma demo_answers_good:
  "list_all (\<lambda>a. readable a \<and> length (serialize a) < 1000 \<and> unstamped a)
     (demo_answers @ [demo_answer (demo_probe ''x:1'')])"
  by code_simp

lemma demo_answers_expected:
  "list_all (\<lambda>(x, a). passes x (http_of a)) (zip (build_exchanges ''x:1'') demo_answers)"
  "resp_status (demo_answer (demo_probe ''x:1'')) = 200"
  "resp_body (demo_answer (demo_probe ''x:1'')) = ''42'' @ [LF]"
  by code_simp+

text \<open>Whether responses are the expected ones depends only on what is expected.\<close>

lemma passes_cong:
  "map (\<lambda>x. (ex_expected_status x, ex_expected_body x)) xs =
     map (\<lambda>x. (ex_expected_status x, ex_expected_body x)) ys \<Longrightarrow>
   list_all (\<lambda>(x, a). passes x (http_of a)) (zip ys as) \<Longrightarrow>
   list_all (\<lambda>(x, a). passes x (http_of a)) (zip xs as)"
proof (induction xs ys arbitrary: as rule: list_induct2')
  case (4 x xs y ys)
  then show ?case by (cases as) (simp_all add: passes_def)
qed simp_all

section \<open>The client's conversation\<close>

lemma can_send_reads: "reads r r' \<Longrightarrow> can_send n (rr_socket r') = can_send n (rr_socket r)"
  by (simp add: reads_def can_send_def)

lemma reader_send_ok:
  assumes "can_send (length data + m) (rr_socket r)"
  shows "\<exists>r'. reader_send data r = Inr r' \<and> reader_stream r' = reader_stream r \<and> can_send m (rr_socket r')"
  using send_all_succeeds [OF assms] by (auto simp: reader_send_def reader_stream_def)

lemma talk_sequential_reads:
  "length xs = length rs \<Longrightarrow> list_all readable rs \<Longrightarrow>
   reader_stream r = concat (map serialize rs) @ rest \<Longrightarrow>
   can_send (length (concat (map ex_request xs)) + m) (rr_socket r) \<Longrightarrow>
     \<exists>r'. talk_sequential xs r = Some (Inr (map http_of rs, r')) \<and> reader_stream r' = rest \<and>
       can_send m (rr_socket r')"
proof (induction xs rs arbitrary: r rule: list_induct2')
  case (4 x xs p ps)
  let ?more = "length (concat (map ex_request xs)) + m"
  have "can_send (length (ex_request x) + ?more) (rr_socket r)"
    using "4.prems"(4) by (simp add: add.assoc)
  from reader_send_ok [OF this] obtain r1 where r1: "reader_send (ex_request x) r = Inr r1"
    "reader_stream r1 = serialize p @ concat (map serialize ps) @ rest" "can_send ?more (rr_socket r1)"
    using "4.prems"(3) by auto
  from read_one_serialize [OF _ r1(2)] "4.prems"(2) obtain r2 where
    r2: "read_one r1 = Some (Inr (http_of p, r2))" "reader_stream r2 = concat (map serialize ps) @ rest"
      "reads r1 r2" by auto
  then have "can_send ?more (rr_socket r2)" using r1(3) can_send_reads by simp
  from "4.IH" [OF _ _ r2(2) this] "4.prems"(1,2) obtain r' where
    "talk_sequential xs r2 = Some (Inr (map http_of ps, r'))" "reader_stream r' = rest"
    "can_send m (rr_socket r')" by auto
  with r1(1) r2(1) show ?case by simp
qed auto

lemma talk_pipelined_reads:
  assumes "length xs = length rs" and "list_all readable rs"
    and "reader_stream r = concat (map serialize rs) @ rest"
    and "can_send (length (concat (map ex_request xs)) + m) (rr_socket r)"
  shows "\<exists>r'. talk_pipelined xs r = Some (Inr (map http_of rs, r')) \<and> reader_stream r' = rest \<and>
     can_send m (rr_socket r')"
proof -
  from reader_send_ok [OF assms(4)] obtain r1 where
    r1: "reader_send (concat (map ex_request xs)) r = Inr r1" "reader_stream r1 = reader_stream r"
      "can_send m (rr_socket r1)" by blast
  then obtain r' where r': "read_many (length rs) r1 = Some (Inr (map http_of rs, r'))"
    "reader_stream r' = rest" "reads r1 r'"
    using read_many_serialize [OF assms(2), of r1 rest] assms(3) by auto
  with r1 assms(1) can_send_reads [OF r'(3)] show ?thesis by (simp add: talk_pipelined_def)
qed

text \<open>The bytes the client sends in all.\<close>

definition demo_bytes :: "Options \<Rightarrow> string" where
  "demo_bytes options =
     concat (map ex_request (build_exchanges (opt_host options @ '':'' @ opt_port options))) @
     probe_request options"

lemma demo_bytes_rendered:
  "demo_bytes options =
     concat (map render_request (demo_requests (opt_host options @ '':'' @ opt_port options) @
       [demo_probe (opt_host options @ '':'' @ opt_port options)]))"
  using demo_requests_rendered demo_probe_rendered by (simp add: demo_bytes_def)

text \<open>The client's verdicts on the answers of the calculator.\<close>

abbreviation probe_answer :: Response where
  "probe_answer \<equiv> demo_answer (demo_probe ''x:1'')"

lemma demo_counts: "length demo_answers = 7" "length (build_exchanges hv) = 7"
  by (simp_all add: demo_answers_def demo_requests_def demo_targets_def build_exchanges_def Let_def)

lemma demo_stamped_good:
  "list_all readable (stamps i 0 demo_answers)" "readable (stamp_response i 8 probe_answer)"
  "list_all unstamped demo_answers" "unstamped probe_answer"
  using demo_answers_good stamps_readable [of demo_answers i 0] readable_stamp
  by (auto simp: list_all_iff)

lemma demo_all_pass: "all_pass (build_exchanges hv) (map http_of (stamps i 0 demo_answers))"
proof -
  have "map (\<lambda>x. (ex_expected_status x, ex_expected_body x)) (build_exchanges hv) =
      map (\<lambda>x. (ex_expected_status x, ex_expected_body x)) (build_exchanges ''x:1'')"
    by (simp add: build_exchanges_def Let_def)
  from passes_cong [OF this demo_answers_expected(1)] show ?thesis
    by (simp only: all_pass_def stamps_pass)
qed

lemma demo_probe_passes:
  "probe_ok (hr_header (hd (map http_of (stamps i 0 demo_answers))) ''X-Connection-Id'')
     (http_of (stamp_response i 8 probe_answer))"
proof -
  obtain a as where as: "demo_answers = a # as" using demo_counts(1) by (cases demo_answers) auto
  have "unstamped a" using demo_stamped_good(3) unfolding as by simp
  from stamp_fields(1) [OF this, of i 1]
  have "hr_header (hd (map http_of (stamps i 0 demo_answers))) ''X-Connection-Id'' = show_u64 i"
    by (simp add: as)
  moreover have "hr_status (http_of (stamp_response i 8 probe_answer)) = 200"
    "hr_body (http_of (stamp_response i 8 probe_answer)) = ''42'' @ [LF]"
    using demo_answers_expected(2,3) by (simp_all add: http_of_def stamp_response_def)
  ultimately show ?thesis using stamp_fields(1) [OF demo_stamped_good(4)] by (simp add: probe_ok_def)
qed

lemma client_session_passes:
  assumes rx: "rx_bytes (sk_rx s) = concat (map serialize (stamps i 0 (demo_answers @ [probe_answer])))"
    and tx: "can_send (length (demo_bytes options)) s"
  obtains responses probe where "client_session options True s = Some (Inr (responses, probe))"
    "client_passes options here here True responses probe" "length responses = 7"
proof -
  let ?xs = "build_exchanges (opt_host options @ '':'' @ opt_port options)"
  let ?rs = "stamps i 0 demo_answers" and ?p = "stamp_response i 8 probe_answer"
  have stream: "reader_stream (new_reader s) = concat (map serialize ?rs) @ serialize ?p @ []"
    using rx demo_counts(1) by (simp add: reader_stream_def new_reader_def stamps_append)
  have send: "can_send (length (concat (map ex_request ?xs)) + length (probe_request options))
      (rr_socket (new_reader s))"
    using tx by (simp add: demo_bytes_def new_reader_def)
  have len: "length ?xs = length ?rs" using demo_counts by simp
  obtain r where r: "(if opt_pipeline options then talk_pipelined else talk_sequential) ?xs (new_reader s) =
      Some (Inr (map http_of ?rs, r))" "reader_stream r = serialize ?p @ []"
    "can_send (length (probe_request options)) (rr_socket r)"
    using talk_pipelined_reads [OF len demo_stamped_good(1) stream send]
      talk_sequential_reads [OF len demo_stamped_good(1) stream send]
    by (cases "opt_pipeline options") auto
  from reader_send_ok [of "probe_request options" 0 r] r obtain r1 where
    r1: "reader_send (probe_request options) r = Inr r1" "reader_stream r1 = serialize ?p @ []" by auto
  from read_one_serialize [OF demo_stamped_good(2) r1(2)] obtain r2 where
    r2: "read_one r1 = Some (Inr (http_of ?p, r2))" by blast
  have "same_connection (map http_of ?rs)"
    using stamps_same_connection [OF demo_stamped_good(3)] demo_counts(1) by simp
  moreover have "client_session options True s = Some (Inr (map http_of ?rs, Some (http_of ?p)))"
    using r(1) r1(1) r2 by (simp add: client_session_def Let_def)
  ultimately show thesis
    using that demo_all_pass demo_probe_passes demo_counts(1)
    by (simp add: client_passes_def probe_passes_def)
qed

text \<open>The last line a passing run prints.\<close>

lemma client_output_passes:
  assumes "client_passes options before after True responses probe" and "length responses = 7"
    and "fst is_open"
  shows "\<exists>printed. client_output options fd before after server is_open responses probe =
     printed @ ''RESULT: PASS - 8 requests, 8 responses, 1 TCP connection, socket still open'' @ [LF]"
proof -
  have "probe_passes responses probe" using assms(1) by (simp add: client_passes_def)
  moreover have "nat_to_string 8 = ''8''" by code_simp
  moreover have "length (build_exchanges hv) = 7" for hv by (simp add: build_exchanges_def Let_def)
  ultimately have "result_line (client_passes options before after (fst is_open) responses probe)
      (probe_passes responses probe) (fst is_open)
      (length (build_exchanges (opt_host options @ '':'' @ opt_port options))) (length responses) =
     [LF] @ ''RESULT: PASS - 8 requests, 8 responses, 1 TCP connection, socket still open'' @ [LF]"
    using assms by (simp add: result_line_def)
  then show ?thesis unfolding client_output_def Let_def by (simp only: append_assoc [symmetric]) blast
qed

section \<open>Connecting\<close>

definition connects :: "Endpoint \<Rightarrow> bool" where
  "connects ep \<longleftrightarrow> (case ep_socket ep of Inl e \<Rightarrow> False | Inr n \<Rightarrow> ep_connect ep = None)"

definition endpoint_fd :: "Endpoint \<Rightarrow> int option" where
  "endpoint_fd ep = (case ep_socket ep of Inl e \<Rightarrow> None | Inr n \<Rightarrow> Some n)"

definition connect_error :: "(Errno \<Rightarrow> string) \<Rightarrow> Endpoint \<Rightarrow> string \<Rightarrow> string" where
  "connect_error strerror ep err =
     (case ep_socket ep of
        Inl e \<Rightarrow> err
      | Inr n \<Rightarrow> (case ep_connect ep of None \<Rightarrow> err | Some e \<Rightarrow> strerror e))"

interpretation connecting: address_search "connect_loop strerror" connects endpoint_fd
    "connect_error strerror" "\<lambda>ep. True" for strerror
proof
  show "connect_loop strerror err [] k = (Inl err, k)" for err k by simp
  show "connect_loop strerror err (ep # eps) k =
      (Inr (the (endpoint_fd ep)), k\<lparr>k_open := the (endpoint_fd ep) # k_open k\<rparr>)"
    if "True" "connects ep" for ep err eps k
    using that by (cases "ep_socket ep") (auto simp: connects_def endpoint_fd_def Let_def)
  show "connect_loop strerror err (ep # eps) k =
      connect_loop strerror (connect_error strerror ep err) eps
        (k\<lparr>k_closed := k_closed k @ (case endpoint_fd ep of None \<Rightarrow> [] | Some n \<Rightarrow> [n])\<rparr>)"
    if "True" "\<not> connects ep" for ep err eps k
    using that by (cases "ep_socket ep"; cases "ep_connect ep")
      (auto simp: connects_def endpoint_fd_def connect_error_def Let_def k_close_def)
qed

text \<open>
  \<^verbatim>\<open>send_all\<close> writes everything: when it returns, exactly the given bytes have been accepted by the
  kernel, and it returns whenever the kernel accepts at least a byte each time.
\<close>

lemma send_all_complete:
  "(send_all s data = Inr t \<longrightarrow> sk_wire t = sk_wire s @ data) \<and>
   (list_all accepting_event (sk_tx s) \<and>
    length data \<le> length (filter (\<lambda>e. e \<noteq> SendError EINTR) (sk_tx s)) \<longrightarrow>
      (\<exists>u. send_all s data = Inr u))"
  using send_all_wire [of s data t] send_all_succeeds [of data 0 s] by (auto simp: can_send_def)

text \<open>
  One connection only: \<^verbatim>\<open>connect_once\<close> returns the first address that accepts a connection and
  leaves exactly its socket open; every socket tried before is closed once, later addresses are
  not tried, and when none accepts everything is closed again.
\<close>

lemma connect_once_first:
  "let failed = takeWhile (\<lambda>ep. \<not> connects ep) eps;
       (out, k') = connect_once strerror (Inr eps) options k
   in k_closed k' = k_closed k @ List.map_filter endpoint_fd failed \<and>
      (case drop (length failed) eps of
         [] \<Rightarrow> out = Inl (''connect to '' @ opt_host options @ '':'' @ opt_port options @
             '' failed: '' @ fold (connect_error strerror) eps ''no address'') \<and> k_open k' = k_open k
       | ep # rest \<Rightarrow> out = Inr (the (endpoint_fd ep)) \<and> k_open k' = the (endpoint_fd ep) # k_open k)"
proof -
  have "list_all (\<lambda>ep. True) eps" by (simp add: list_all_iff)
  from connecting.attempt_first [OF this] show ?thesis
    by (simp add: connect_once_def Let_def connecting.used_def split: list.splits)
qed

section \<open>Property\<close>

text \<open>
  C25. Client and server together: take a client program that has connected and receives, in any
  pieces, what a connection of the server owes for exactly the bytes this client sends (what it
  writes, by the properties of connections). Then the client, sequential or pipelined, gets every
  response it expects, sees one connection with the request numbers in order, gets its final
  probe answered, prints that all eight requests were answered on one connection that is still
  open, closes its socket and exits with status 0.
\<close>

theorem demo_end_to_end:
  assumes "demo_host (opt_host options @ '':'' @ opt_port options)"
    and "rx_bytes (sk_rx (su_conversation su fd)) =
      replies calc_handler i 0 (framer_push (new_framer default_limits) (demo_bytes options))"
    and "can_send (length (demo_bytes options)) (su_conversation su fd)"
    and "fst (su_open su fd)" and "su_local_after su = su_local_before su"
    and "parse_options args default_options = Some options"
    and "connect_once strerror resolved options k = (Inr fd, k')"
  shows "\<exists>result. client_main args strerror resolved su k = Some (result, k_close fd k') \<and>
     client_status result = 0 \<and>
     (\<exists>printed. result = Verdict True (printed @
        ''RESULT: PASS - 8 requests, 8 responses, 1 TCP connection, socket still open'' @ [LF]))"
proof -
  let ?hv = "opt_host options @ '':'' @ opt_port options"
  let ?rs = "demo_requests ?hv @ [demo_probe ?hv]"
  have "replies calc_handler i 0 (framer_push (new_framer default_limits) (demo_bytes options)) =
      session_answers handle_request i 0 ?rs"
    using demo_requests_wf [OF assms(1)] demo_keep_alive demo_bytes_rendered [of options]
    by (intro calc.replies_session)
       (simp_all add: new_framer_def framer_push_def length_limit_ok_def default_limits_def)
  moreover have "map (\<lambda>r. finish_response r (handle_request r)) ?rs = demo_answers @ [probe_answer]"
    using demo_answers_any_host [OF assms(1)] by (simp add: demo_answer_def [abs_def])
  ultimately have "rx_bytes (sk_rx (su_conversation su fd)) = concat (map serialize (stamps i 0 (demo_answers @ [probe_answer])))"
    using assms(2) session_answers_stamps [of handle_request i 0 ?rs] by simp
  from client_session_passes [OF this assms(3), of "su_local_before su"] obtain responses probe where
    run: "client_session options True (su_conversation su fd) = Some (Inr (responses, probe))"
      "client_passes options (su_local_before su) (su_local_before su) True responses probe"
      "length responses = 7" .
  obtain printed where
    "client_output options fd (su_local_before su) (su_local_before su) (su_server su) (su_open su fd)
       responses probe =
     printed @ ''RESULT: PASS - 8 requests, 8 responses, 1 TCP connection, socket still open'' @ [LF]"
    using client_output_passes [OF run(2,3) assms(4)] by blast
  with run(1,2) assms(4-7) show ?thesis by (simp add: client_main_def Let_def)
qed

text \<open>A client that is interrupted, sends fifty bytes at a time and receives everything at once.\<close>

definition demo_socket :: "string \<Rightarrow> Socket" where
  "demo_socket bytes =
     sample_socket\<lparr>sk_rx := [RecvError EINTR, Arrived bytes],
       sk_tx := SendError EINTR # replicate 1000 (Accepts 50)\<rparr>"

definition demo_addresses :: "Endpoint list" where
  "demo_addresses =
     [\<lparr>ep_socket = Inr 3, ep_connect = Some (OtherErrno 111)\<rparr>, \<lparr>ep_socket = Inr 3, ep_connect = None\<rparr>]"

definition demo_surroundings :: "string \<Rightarrow> Surroundings" where
  "demo_surroundings bytes =
     \<lparr>su_conversation = (\<lambda>fd. demo_socket bytes), su_local_before = ''a'', su_local_after = ''a'',
      su_server = ''b'', su_ready = 0, su_peeked = Inr 0\<rparr>"

theorem demo_end_to_end_witness:
  "\<exists>result. client_main [''--pipeline''] (\<lambda>e. ''refused'') (Inr demo_addresses)
     (demo_surroundings (replies calc_handler 5 0 (framer_push (new_framer default_limits)
        (demo_bytes (default_options\<lparr>opt_pipeline := True\<rparr>)))))
     \<lparr>k_open = [], k_closed = []\<rparr> = Some (result, \<lparr>k_open = [], k_closed = [3, 3]\<rparr>) \<and>
     client_status result = 0"
proof -
  let ?o = "default_options\<lparr>opt_pipeline := True\<rparr>"
  let ?answers = "replies calc_handler 5 0 (framer_push (new_framer default_limits) (demo_bytes ?o))"
  let ?su = "demo_surroundings ?answers"
  have host: "demo_host (opt_host ?o @ '':'' @ opt_port ?o)" by code_simp
  have rx: "rx_bytes (sk_rx (su_conversation ?su 3)) = ?answers"
    by (simp add: demo_socket_def demo_surroundings_def)
  have "length (demo_bytes ?o) \<le> 1000" by code_simp
  then have send: "can_send (length (demo_bytes ?o)) (su_conversation ?su 3)"
    by (simp add: can_send_def demo_socket_def demo_surroundings_def list_all_iff)
  have is_open: "fst (su_open ?su 3)" "su_local_after ?su = su_local_before ?su"
    by (simp_all add: su_open_def socket_is_open_def demo_surroundings_def)
  have args: "parse_options [''--pipeline''] default_options = Some ?o" by simp
  have connect: "connect_once (\<lambda>e. ''refused'') (Inr demo_addresses) ?o \<lparr>k_open = [], k_closed = []\<rparr> =
      (Inr 3, \<lparr>k_open = [3], k_closed = [3]\<rparr>)"
    by (simp add: connect_once_def demo_addresses_def k_close_def)
  from demo_end_to_end [OF host rx send is_open args connect] show ?thesis
    by (simp add: k_close_def) blast
qed

end
