(* ===== verification/Server.thy ===== *)
theory Server
  imports Session
begin

text \<open>
  Model of the class \<^verbatim>\<open>Server\<close> of \<^verbatim>\<open>src/src/server.cpp\<close> and \<^verbatim>\<open>src/include/calc/server.hpp\<close>:
  the listening socket, the accepted connections and the poll loop. What \<^verbatim>\<open>accept()\<close> finds is
  a script, as for the other sockets; \<^verbatim>\<open>poll()\<close> and the clock are inputs of every iteration.
  The log is shared: every connection writes to it through the server's. Beside the members
  of the class, the model keeps the descriptors the server has given back.
\<close>

section \<open>State\<close>

text \<open>
  What a call of \<^verbatim>\<open>accept()\<close> finds: a connected socket with its peer's address as text and the
  error of \<^verbatim>\<open>fcntl()\<close> on it, if any; or an error.
\<close>

datatype AcceptEvent = Incoming Socket string "Errno option" | AcceptError Errno

record Server =
  sv_config :: ServerConfig
  sv_handler :: RequestHandler
  sv_logger :: Logger
  sv_strerror :: "Errno \<Rightarrow> string"
  sv_address :: string
  sv_show_seconds :: "int \<Rightarrow> string"
  sv_backlog :: "AcceptEvent list"
  sv_listening :: bool
  sv_connections :: "Connection list"
  sv_next_connection_id :: u64
  sv_accept_paused_until :: time_point
  sv_released :: "Socket list"

definition max_poll_wait :: int where
  "max_poll_wait = milliseconds 1000"

definition accept_pause :: int where
  "accept_pause = milliseconds 1000"

text \<open>The state after the constructor has created the listening socket.\<close>

definition new_server ::
  "ServerConfig \<Rightarrow> RequestHandler \<Rightarrow> Logger \<Rightarrow> (Errno \<Rightarrow> string) \<Rightarrow> string \<Rightarrow> (int \<Rightarrow> string) \<Rightarrow>
   AcceptEvent list \<Rightarrow> Server"
where
  "new_server config handler logger strerror address show_seconds backlog =
     \<lparr>sv_config = config, sv_handler = handler, sv_logger = logger, sv_strerror = strerror,
      sv_address = address, sv_show_seconds = show_seconds, sv_backlog = backlog,
      sv_listening = True, sv_connections = [], sv_next_connection_id = 1,
      sv_accept_paused_until = 0, sv_released = []\<rparr>"

definition sv_log :: "LogLevel \<Rightarrow> string \<Rightarrow> Server \<Rightarrow> Server" where
  "sv_log level line sv = sv\<lparr>sv_logger := log_write level line (sv_logger sv)\<rparr>"

section \<open>Accepting\<close>

text \<open>A connection is created for an accepted socket.\<close>

definition add_connection :: "time_point \<Rightarrow> Socket \<Rightarrow> string \<Rightarrow> Server \<Rightarrow> Server" where
  "add_connection now socket peer sv =
     (let i = sv_next_connection_id sv;
          sv1 = sv_log Info
            (''[conn '' @ show_u64 i @ ''] accepted connection from '' @ peer @ '' ('' @
             nat_to_string (length (sv_connections sv) + 1) @ '' open)'')
            (sv\<lparr>sv_next_connection_id := i + 1\<rparr>)
      in sv1\<lparr>sv_connections := sv_connections sv1 @
           [new_connection socket i peer (sv_config sv1) (sv_handler sv1) (sv_logger sv1) now]\<rparr>)"

text \<open>The loop of \<open>accept_new_connections\<close>; beyond the script no connection is waiting.\<close>

function accept_new_connections :: "time_point \<Rightarrow> Server \<Rightarrow> Server" where
  "accept_new_connections now sv =
     (if length (sv_connections sv) < max_connections (sv_config sv) then
        case sv_backlog sv of
          [] \<Rightarrow> sv
        | AcceptError e # events \<Rightarrow>
            let sv1 = sv\<lparr>sv_backlog := events\<rparr> in
            if e = EAGAIN \<or> e = EWOULDBLOCK then sv1
            else if e = EINTR \<or> e = ECONNABORTED \<or> e = EPROTO then accept_new_connections now sv1
            else (sv_log Notice
                   (''accept() failed: '' @ sv_strerror sv1 e @ ''; pausing new connections for 1s'') sv1)
                 \<lparr>sv_accept_paused_until := now + accept_pause\<rparr>
        | Incoming socket peer (Some e) # events \<Rightarrow>
            accept_new_connections now
              ((sv_log Notice
                 (''fcntl(O_NONBLOCK) on accepted socket failed: '' @ sv_strerror sv e)
                 (sv\<lparr>sv_backlog := events\<rparr>))
               \<lparr>sv_released := sv_released sv @ [close_socket socket]\<rparr>)
        | Incoming socket peer None # events \<Rightarrow>
            accept_new_connections now (add_connection now socket peer (sv\<lparr>sv_backlog := events\<rparr>))
      else sv)"
  by pat_completeness auto
termination
  by (relation "measure (\<lambda>(now, sv). length (sv_backlog sv))")
     (auto simp: sv_log_def add_connection_def Let_def)

declare accept_new_connections.simps [simp del]

section \<open>The poll loop\<close>

definition accepting :: "time_point \<Rightarrow> Server \<Rightarrow> bool" where
  "accepting now sv \<longleftrightarrow>
     length (sv_connections sv) < max_connections (sv_config sv) \<and> sv_accept_paused_until sv \<le> now"

text \<open>The events asked for: the listener's first, then one entry per connection.\<close>

definition poll_set :: "time_point \<Rightarrow> Server \<Rightarrow> PollFlag set list" where
  "poll_set now sv =
     (if accepting now sv then {POLLIN} else {}) # map poll_events (sv_connections sv)"

text \<open>Rounding a duration up to whole milliseconds.\<close>

definition ceil_milliseconds :: "int \<Rightarrow> int" where
  "ceil_milliseconds d = - ((- d) div 1000000)"

definition wake_time :: "time_point \<Rightarrow> Server \<Rightarrow> time_point" where
  "wake_time now sv =
     (let wake = foldl (\<lambda>w c. min w (deadline c)) (now + max_poll_wait) (sv_connections sv)
      in if sv_accept_paused_until sv > now then min wake (sv_accept_paused_until sv) else wake)"

definition poll_timeout_ms :: "time_point \<Rightarrow> Server \<Rightarrow> int" where
  "poll_timeout_ms now sv =
     (let wake = wake_time now sv
      in if wake \<le> now then 0 else ceil_milliseconds (wake - now))"

text \<open>What one iteration does for one connection.\<close>

definition service :: "PollFlag set \<Rightarrow> time_point \<Rightarrow> Connection \<Rightarrow> Connection option" where
  "service revents now c = do {
     d \<leftarrow> (if revents \<noteq> {} then on_poll_events revents now c else Some c);
     if \<not> closed d \<and> deadline d \<le> now then on_deadline now d else Some d
   }"

text \<open>The loop over the connections, each writing to the shared log.\<close>

fun service_all ::
  "time_point \<Rightarrow> PollFlag set list \<Rightarrow> Logger \<Rightarrow> Connection list \<Rightarrow> (Logger \<times> Connection list) option"
where
  "service_all now revents lg [] = Some (lg, [])"
| "service_all now revents lg (c # cs) = do {
     d \<leftarrow> service (hd revents) now (c\<lparr>c_logger := lg\<rparr>);
     (lg', ds) \<leftarrow> service_all now (tl revents) (c_logger d) cs;
     Some (lg', d # ds)
   }"

datatype PollResult = PollFailed Errno | PollReady "PollFlag set list"

text \<open>
  One iteration: the clock before \<^verbatim>\<open>poll()\<close>, what \<^verbatim>\<open>poll()\<close> answers to the events asked for
  and the timeout, and the clock after it. \<open>Inl\<close> is the exception for an error of \<^verbatim>\<open>poll()\<close>.
\<close>

record Round =
  rd_before :: time_point
  rd_poll :: "PollFlag set list \<Rightarrow> int \<Rightarrow> PollResult"
  rd_after :: time_point

definition server_round :: "Round \<Rightarrow> Server \<Rightarrow> (Errno + Server) option" where
  "server_round rd sv =
     (case rd_poll rd (poll_set (rd_before rd) sv) (poll_timeout_ms (rd_before rd) sv) of
        PollFailed e \<Rightarrow> Some (if e = EINTR then Inr sv else Inl e)
      | PollReady revents \<Rightarrow> do {
          (lg, cs) \<leftarrow> service_all (rd_after rd) (tl revents) (sv_logger sv) (sv_connections sv);
          let sv1 = sv\<lparr>sv_logger := lg,
                       sv_connections := filter (\<lambda>c. \<not> closed c) cs,
                       sv_released := sv_released sv @ map c_socket (filter closed cs)\<rparr>;
          Some (Inr (if POLLIN \<in> hd revents then accept_new_connections (rd_after rd) sv1 else sv1))
        })"

section \<open>Start and shutdown\<close>

definition announce :: "Server \<Rightarrow> Server" where
  "announce sv =
     sv_log Notice
       (''listening on '' @ sv_address sv @ '' (idle timeout '' @
        sv_show_seconds sv (idle_timeout (sv_config sv)) @ ''s, max '' @
        nat_to_string (max_connections (sv_config sv)) @ '' connections)'') sv"

fun close_all :: "Logger \<Rightarrow> Connection list \<Rightarrow> Logger \<times> Connection list" where
  "close_all lg [] = (lg, [])"
| "close_all lg (c # cs) =
     (let d = close_now ''server shutting down'' (c\<lparr>c_logger := lg\<rparr>);
          (lg', ds) = close_all (c_logger d) cs
      in (lg', d # ds))"

definition shut_down :: "Server \<Rightarrow> Server" where
  "shut_down sv =
     (let sv1 = sv_log Notice
            (''shutdown requested; closing '' @ nat_to_string (length (sv_connections sv)) @
             '' open connection(s)'') sv;
          (lg, cs) = close_all (sv_logger sv1) (sv_connections sv1)
      in sv1\<lparr>sv_logger := lg, sv_connections := [], sv_listening := False,
             sv_released := sv_released sv1 @ map c_socket cs\<rparr>)"

text \<open>The loop runs until a stop is requested, here after the given iterations.\<close>

fun server_loop :: "Round list \<Rightarrow> Server \<Rightarrow> (Errno + Server) option" where
  "server_loop [] sv = Some (Inr sv)"
| "server_loop (rd # rds) sv =
     (case server_round rd sv of
        None \<Rightarrow> None
      | Some (Inl e) \<Rightarrow> Some (Inl e)
      | Some (Inr sv') \<Rightarrow> server_loop rds sv')"

definition server_run :: "Round list \<Rightarrow> Server \<Rightarrow> (Errno + Server) option" where
  "server_run rds sv = map_option (map_sum id shut_down) (server_loop rds (announce sv))"

end
