(* ===== verification/Server_Properties.thy ===== *)
theory Server_Properties
  imports Server
begin

text \<open>
  The invariant of the server and what follows from it: every iteration of the poll loop
  returns, every connection it holds behaves as shown for connections alone, the connection
  limit holds, numbers are never reused, no connection outlives its deadline, and no
  descriptor is leaked.
\<close>

section \<open>The invariant\<close>

definition conns_ok :: "ServerConfig \<Rightarrow> RequestHandler \<Rightarrow> Connection list \<Rightarrow> bool" where
  "conns_ok config h cs \<longleftrightarrow> (\<forall>c \<in> set cs. conn_reachable config h (c_id c) c)"

text \<open>Numbers are handed out in increasing order, and there are enough for the backlog.\<close>

definition ids_ok :: "u64 \<Rightarrow> nat \<Rightarrow> Connection list \<Rightarrow> bool" where
  "ids_ok next_id waiting cs \<longleftrightarrow>
     sorted_wrt (<) (map (\<lambda>c. unat (c_id c)) cs) \<and>
     (\<forall>c \<in> set cs. unat (c_id c) < unat next_id) \<and> unat next_id + waiting < 2 ^ 64"

fun fresh_event :: "AcceptEvent \<Rightarrow> bool" where
  "fresh_event (Incoming s peer e) = fresh_socket s"
| "fresh_event (AcceptError e) = True"

definition server_inv :: "Server \<Rightarrow> bool" where
  "server_inv sv \<longleftrightarrow>
     config_ok (sv_config sv) \<and>
     length (sv_connections sv) \<le> max_connections (sv_config sv) \<and>
     conns_ok (sv_config sv) (sv_handler sv) (sv_connections sv) \<and>
     (\<forall>c \<in> set (sv_connections sv). \<not> closed c) \<and>
     ids_ok (sv_next_connection_id sv) (length (sv_backlog sv)) (sv_connections sv) \<and>
     list_all fresh_event (sv_backlog sv) \<and>
     (\<forall>s \<in> set (sv_released sv). \<not> sk_open s)"

lemma sv_log_sel [simp]:
  "sv_config (sv_log l t sv) = sv_config sv" "sv_handler (sv_log l t sv) = sv_handler sv"
  "sv_connections (sv_log l t sv) = sv_connections sv" "sv_backlog (sv_log l t sv) = sv_backlog sv"
  "sv_next_connection_id (sv_log l t sv) = sv_next_connection_id sv"
  "sv_released (sv_log l t sv) = sv_released sv" "sv_listening (sv_log l t sv) = sv_listening sv"
  "sv_accept_paused_until (sv_log l t sv) = sv_accept_paused_until sv"
  by (simp_all add: sv_log_def)

lemma server_inv_log [simp]: "server_inv (sv_log l t sv) = server_inv sv"
  by (simp add: server_inv_def)

lemma new_server_inv:
  "config_ok config \<Longrightarrow> list_all fresh_event backlog \<Longrightarrow> length backlog + 1 < 2 ^ 64 \<Longrightarrow>
     server_inv (new_server config h lg strerror address show_seconds backlog)"
  by (simp add: server_inv_def new_server_def conns_ok_def ids_ok_def)

section \<open>Accepting keeps the invariant\<close>

lemma unat_next_id: "unat (i :: u64) + n < 2 ^ 64 \<Longrightarrow> 0 < n \<Longrightarrow> unat (i + 1) = unat i + 1"
  by (subst unat_plus_if') auto

lemma ids_ok_drop: "ids_ok i (Suc n) cs \<Longrightarrow> ids_ok i n cs"
  by (auto simp: ids_ok_def)

lemma ids_ok_add:
  assumes "ids_ok i (Suc n) cs" and "c_id c = i"
  shows "ids_ok (i + 1) n (cs @ [c])"
proof -
  have "unat (i + 1) = unat i + 1"
    using assms(1) by (intro unat_next_id [of i "Suc n"]) (auto simp: ids_ok_def)
  with assms show ?thesis
    by (auto simp: ids_ok_def sorted_wrt_append intro: less_SucI)
qed

lemma add_connection_inv:
  assumes inv: "server_inv sv" and room: "length (sv_connections sv) < max_connections (sv_config sv)"
    and ev: "sv_backlog sv = Incoming s peer None # events"
  shows "server_inv (add_connection now s peer (sv\<lparr>sv_backlog := events\<rparr>))"
proof -
  let ?i = "sv_next_connection_id sv" and ?sv = "add_connection now s peer (sv\<lparr>sv_backlog := events\<rparr>)"
  have "fresh_socket s" using inv ev by (simp add: server_inv_def)
  then have reach: "conn_reachable (sv_config sv) (sv_handler sv) ?i
      (new_connection s ?i peer (sv_config sv) (sv_handler sv) lg now)" for lg
    by (rule conn_reachable.accepted)
  have fields: "sv_config ?sv = sv_config sv" "sv_handler ?sv = sv_handler sv"
    "sv_backlog ?sv = events" "sv_next_connection_id ?sv = ?i + 1" "sv_released ?sv = sv_released sv"
    "\<exists>lg. sv_connections ?sv = sv_connections sv @
       [new_connection s ?i peer (sv_config sv) (sv_handler sv) lg now]"
    by (auto simp: add_connection_def Let_def)
  then obtain lg where conns: "sv_connections ?sv = sv_connections sv @
      [new_connection s ?i peer (sv_config sv) (sv_handler sv) lg now]" by blast
  have "ids_ok (?i + 1) (length events) (sv_connections ?sv)"
    unfolding conns using inv ev
    by (intro ids_ok_add) (simp_all add: server_inv_def new_connection_def)
  then show ?thesis
    using inv room ev reach fields conns
    by (auto simp: server_inv_def conns_ok_def new_connection_def closed_def)
qed

lemma accept_new_connections_inv:
  "server_inv sv \<Longrightarrow> server_inv (accept_new_connections now sv)"
proof (induction now sv rule: accept_new_connections.induct)
  case (1 now sv)
  note unfold = accept_new_connections.simps [of now sv]
  show ?case
  proof (cases "length (sv_connections sv) < max_connections (sv_config sv)")
    case False
    with "1.prems" unfold show ?thesis by simp
  next
    case room: True
    show ?thesis
    proof (cases "sv_backlog sv")
      case Nil
      with "1.prems" unfold room show ?thesis by simp
    next
      case (Cons e events)
      let ?sv = "sv\<lparr>sv_backlog := events\<rparr>"
      have drop: "server_inv ?sv"
        using "1.prems" Cons ids_ok_drop by (auto simp: server_inv_def)
      show ?thesis
      proof (cases e)
        case (AcceptError x)
        moreover have "server_inv (sv'\<lparr>sv_accept_paused_until := t\<rparr>) = server_inv sv'" for sv' t
          by (simp add: server_inv_def)
        moreover have "server_inv (accept_new_connections now ?sv)"
          if "x = EINTR \<or> x = ECONNABORTED \<or> x = EPROTO"
          using "1.IH"(3) [OF room Cons AcceptError refl _ that drop] that by auto
        ultimately show ?thesis
          using unfold room Cons drop by (simp add: Let_def)
      next
        case (Incoming s peer err)
        show ?thesis
        proof (cases err)
          case None
          with "1.IH"(1) [OF room Cons Incoming None] unfold room Cons Incoming
            add_connection_inv [OF "1.prems" room] show ?thesis by simp
        next
          case (Some x)
          have "server_inv ((sv_log l t ?sv)\<lparr>sv_released := sv_released sv @ [close_socket s]\<rparr>)" for l t
            using drop by (auto simp: server_inv_def close_socket_def)
          with "1.IH"(2) [OF room Cons Incoming Some] unfold room Cons Incoming Some
          show ?thesis by simp
        qed
      qed
    qed
  qed
qed

section \<open>An iteration keeps the invariant and returns\<close>

lemma conn_reachable_settled:
  assumes "conn_reachable config h i c" and "config_ok config"
  shows "conn_ok c" and "settled c" and "head_allowed c" and "0 < output_high_water (c_config c)"
    and "c_id c = i"
  using conn_reachable_ok [OF assms] conn_reachable_setup [OF assms(1)] assms(2)
  by (auto simp: config_ok_def)

lemma service_returns:
  assumes c: "conn_reachable config h i c" and ok: "config_ok config"
  shows "\<exists>d. service revents now c = Some d \<and> conn_reachable config h i d"
proof -
  obtain d where d: "(if revents \<noteq> {} then on_poll_events revents now c else Some c) = Some d"
    "conn_reachable config h i d"
    using on_poll_events_ok [OF conn_reachable_settled(1,2,3) [OF c ok], of revents now] c
    by (cases "revents = {}") (auto intro: conn_reachable.polled)
  moreover obtain e where "on_deadline now d = Some e" "conn_reachable config h i e"
    using on_deadline_ok [OF conn_reachable_settled(1-4) [OF d(2) ok], of now] d(2)
    by (auto intro: conn_reachable.expired)
  ultimately show ?thesis by (simp add: service_def)
qed

lemma service_all_returns:
  "conns_ok config h cs \<Longrightarrow> config_ok config \<Longrightarrow>
     \<exists>lg' ds. service_all now revents lg cs = Some (lg', ds) \<and> conns_ok config h ds \<and>
       map c_id ds = map c_id cs"
proof (induction cs arbitrary: revents lg)
  case (Cons c cs)
  let ?c = "c\<lparr>c_logger := lg\<rparr>"
  have "conn_reachable config h (c_id c) ?c"
    using Cons.prems by (auto simp: conns_ok_def intro: conn_reachable.logged)
  from service_returns [OF this Cons.prems(2)] obtain d where
    d: "service (hd revents) now ?c = Some d" "conn_reachable config h (c_id c) d" by blast
  then have "c_id d = c_id c" using conn_reachable_setup by blast
  moreover have "conns_ok config h cs" using Cons.prems by (simp add: conns_ok_def)
  from Cons.IH [OF this Cons.prems(2), of "tl revents" "c_logger d"] obtain lg' ds where
    "service_all now (tl revents) (c_logger d) cs = Some (lg', ds)" "conns_ok config h ds"
    "map c_id ds = map c_id cs" by blast
  ultimately show ?case using d by (simp add: conns_ok_def)
qed simp

lemma conns_ok_closed:
  assumes "conns_ok config h cs" and "config_ok config" and "c \<in> set cs"
  shows "sk_open (c_socket c) \<longleftrightarrow> \<not> closed c"
proof -
  have "conn_ok c" using assms conn_reachable_ok by (auto simp: conns_ok_def)
  then show ?thesis by (simp add: conn_ok_def conn_inv_def fd_ok_def closed_def)
qed

lemma sorted_map_filter: "sorted_wrt R (map f xs) \<Longrightarrow> sorted_wrt R (map f (filter P xs))"
  by (induction xs) auto

lemma ids_ok_filter:
  assumes "ids_ok i n cs" and "map c_id ds = map c_id cs"
  shows "ids_ok i n (filter P ds)"
proof -
  have ids: "map (\<lambda>c. unat (c_id c)) ds = map (\<lambda>c. unat (c_id c)) cs"
    using arg_cong [OF assms(2), of "map unat"] by (simp add: comp_def)
  then have "set (map (\<lambda>c. unat (c_id c)) ds) = set (map (\<lambda>c. unat (c_id c)) cs)" by simp
  with assms(1) have "\<forall>c \<in> set ds. unat (c_id c) < unat i" by (force simp: ids_ok_def)
  with assms(1) ids show ?thesis by (auto simp: ids_ok_def intro: sorted_map_filter)
qed

lemma server_round_inv:
  assumes inv: "server_inv sv"
  shows "\<exists>out. server_round rd sv = Some out \<and> (\<forall>sv'. out = Inr sv' \<longrightarrow> server_inv sv')"
proof (cases "rd_poll rd (poll_set (rd_before rd) sv) (poll_timeout_ms (rd_before rd) sv)")
  case (PollFailed e)
  with inv show ?thesis by (simp add: server_round_def)
next
  case (PollReady revents)
  let ?now = "rd_after rd"
  have conns: "conns_ok (sv_config sv) (sv_handler sv) (sv_connections sv)" "config_ok (sv_config sv)"
    using inv by (auto simp: server_inv_def)
  obtain lg ds where ds: "service_all ?now (tl revents) (sv_logger sv) (sv_connections sv) = Some (lg, ds)"
    "conns_ok (sv_config sv) (sv_handler sv) ds" "map c_id ds = map c_id (sv_connections sv)"
    using service_all_returns [OF conns] by blast
  let ?sv = "sv\<lparr>sv_logger := lg, sv_connections := filter (\<lambda>c. \<not> closed c) ds,
      sv_released := sv_released sv @ map c_socket (filter closed ds)\<rparr>"
  have "length ds = length (sv_connections sv)" using ds(3) by (metis length_map)
  then have "length (filter (\<lambda>c. \<not> closed c) ds) \<le> length (sv_connections sv)"
    by (metis length_filter_le)
  then have "server_inv ?sv"
    using inv ds ids_ok_filter [OF _ ds(3)] conns_ok_closed [OF ds(2) conns(2)]
    by (auto simp: server_inv_def conns_ok_def)
  moreover have "server_round rd sv = Some (Inr (if POLLIN \<in> hd revents
      then accept_new_connections ?now ?sv else ?sv))"
    using PollReady ds(1) by (simp add: server_round_def Let_def)
  ultimately show ?thesis using accept_new_connections_inv by auto
qed

lemma server_loop_inv:
  "server_inv sv \<Longrightarrow>
     \<exists>out. server_loop rds sv = Some out \<and> (\<forall>sv'. out = Inr sv' \<longrightarrow> server_inv sv')"
proof (induction rds arbitrary: sv)
  case (Cons rd rds)
  from server_round_inv [OF Cons.prems, of rd] obtain out where
    out: "server_round rd sv = Some out" "\<forall>sv'. out = Inr sv' \<longrightarrow> server_inv sv'" by blast
  with Cons.IH show ?case by (cases out) simp_all
qed simp

section \<open>Waiting\<close>

lemma foldl_min:
  fixes w :: int
  shows "foldl (\<lambda>w c. min w (f c)) w cs \<le> w"
    and "c \<in> set cs \<Longrightarrow> foldl (\<lambda>w c. min w (f c)) w cs \<le> f c"
    and "foldl (\<lambda>w c. min w (f c)) w cs = w \<or> (\<exists>c \<in> set cs. foldl (\<lambda>w c. min w (f c)) w cs = f c)"
proof -
  show le: "foldl (\<lambda>w c. min w (f c)) w cs \<le> w" for w cs
  proof (induction cs arbitrary: w)
    case (Cons c cs)
    from Cons.IH [of "min w (f c)"] show ?case by simp
  qed simp
  show "c \<in> set cs \<Longrightarrow> foldl (\<lambda>w c. min w (f c)) w cs \<le> f c"
  proof (induction cs arbitrary: w)
    case (Cons x xs)
    then show ?case using le [of "min w (f x)" xs] by auto
  qed simp
  show "foldl (\<lambda>w c. min w (f c)) w cs = w \<or> (\<exists>c \<in> set cs. foldl (\<lambda>w c. min w (f c)) w cs = f c)"
  proof (induction cs arbitrary: w)
    case (Cons c cs)
    from Cons.IH [of "min w (f c)"] show ?case by (auto simp: min_def split: if_splits)
  qed simp
qed

lemma wake_time_bounds:
  "wake_time now sv \<le> now + max_poll_wait"
  "c \<in> set (sv_connections sv) \<Longrightarrow> wake_time now sv \<le> deadline c"
  "wake_time now sv = now + max_poll_wait \<or>
     (\<exists>c \<in> set (sv_connections sv). wake_time now sv = deadline c) \<or>
     now < sv_accept_paused_until sv \<and> wake_time now sv = sv_accept_paused_until sv"
  using foldl_min(1) [of deadline "now + max_poll_wait" "sv_connections sv"]
    foldl_min(2) [of c "sv_connections sv" deadline "now + max_poll_wait"]
    foldl_min(3) [of deadline "now + max_poll_wait" "sv_connections sv"]
  by (auto simp: wake_time_def Let_def min_def split: if_splits)

lemma ceil_milliseconds_bounds:
  "d \<le> milliseconds (ceil_milliseconds d)" "milliseconds (ceil_milliseconds d) < d + milliseconds 1"
proof -
  have "1000000 * ((- d) div 1000000) + (- d) mod 1000000 = - d" by (simp add: mult_div_mod_eq)
  moreover have "0 \<le> (- d) mod 1000000" "(- d) mod 1000000 < 1000000" by simp_all
  ultimately show "d \<le> milliseconds (ceil_milliseconds d)"
    "milliseconds (ceil_milliseconds d) < d + milliseconds 1"
    by (simp_all add: ceil_milliseconds_def milliseconds_def)
qed

lemma poll_timeout_bounds:
  shows "0 \<le> poll_timeout_ms now sv" and "poll_timeout_ms now sv \<le> 1000"
    and "wake_time now sv \<le> now + milliseconds (poll_timeout_ms now sv)"
    and "now < wake_time now sv \<Longrightarrow>
      now + milliseconds (poll_timeout_ms now sv) < wake_time now sv + milliseconds 1"
    and "poll_timeout_ms now sv = 0 \<longleftrightarrow> wake_time now sv \<le> now"
proof -
  let ?d = "wake_time now sv - now"
  note b = ceil_milliseconds_bounds [of ?d]
  have max: "?d \<le> milliseconds 1000"
    using wake_time_bounds(1) [of now sv] by (simp add: max_poll_wait_def)
  have t: "poll_timeout_ms now sv = (if ?d \<le> 0 then 0 else ceil_milliseconds ?d)"
    by (simp add: poll_timeout_ms_def Let_def)
  show "0 \<le> poll_timeout_ms now sv" "poll_timeout_ms now sv \<le> 1000"
    "wake_time now sv \<le> now + milliseconds (poll_timeout_ms now sv)"
    "now < wake_time now sv \<Longrightarrow>
      now + milliseconds (poll_timeout_ms now sv) < wake_time now sv + milliseconds 1"
    "poll_timeout_ms now sv = 0 \<longleftrightarrow> wake_time now sv \<le> now"
    unfolding t using b max by (simp_all add: milliseconds_def split: if_splits)
qed

section \<open>Deadlines\<close>

lemma answer_activity:
  "c_last_activity (answer_request q c) = c_last_activity c"
  "c_last_activity (answer_error e c) = c_last_activity c"
  by (simp_all add: answer_request_def answer_error_def Let_def case_prod_beta)

lemma respond_loop_activity: "respond_loop b c = Some (r, d) \<Longrightarrow> c_last_activity d = c_last_activity c"
  by (induction rule: respond_loop_rule) (auto simp: answer_activity)

lemma flush_loop_activity:
  "flush_loop now b c = (early, sent, d) \<Longrightarrow> c_last_activity c = now \<Longrightarrow> c_last_activity d = now"
  by (induction rule: flush_loop_rule) (auto simp: note_sent_def note_blocked_def close_now_def Let_def)

lemma flush_output_activity:
  "flush_output now c = (sent, d) \<Longrightarrow> c_last_activity c = now \<Longrightarrow> c_last_activity d = now"
  using flush_loop_activity [of now False c]
  by (auto simp: flush_output_def reclaim_output_def split: prod.splits bool.splits if_splits)

lemma advance_pass_activity:
  "advance_pass now c = Some (b, d) \<Longrightarrow> c_last_activity c = now \<Longrightarrow> c_last_activity d = now"
  by (erule advance_pass_cases) (auto dest: respond_loop_activity flush_output_activity)

lemma advance_loop_activity:
  "advance_loop now c = Some d \<Longrightarrow> c_last_activity c = now \<Longrightarrow> c_last_activity d = now"
  by (induction rule: advance_loop_rule) (auto dest: advance_pass_activity)

text \<open>Timeouts that leave some time.\<close>

definition timeouts_ok :: "ServerConfig \<Rightarrow> bool" where
  "timeouts_ok config \<longleftrightarrow> 0 < idle_timeout config \<and> 0 < linger_timeout config"

lemma advance_deadline:
  assumes adv: "advance now c = Some d" and c: "c_last_activity c = now"
    "c_state c = Active \<or> c_state c = Closing" and ok: "timeouts_ok (c_config c)"
  shows "closed d \<or> now < deadline d"
proof -
  from adv obtain e where e: "advance_loop now c = Some e" "d = advance_end now e"
    by (auto simp: advance_def)
  have last: "c_last_activity e = now" using advance_loop_activity [OF e(1) c(1)] .
  have config: "c_config e = c_config c"
    using advance_loop_setup [OF e(1)] by (simp add: same_setup_def)
  have "c_state e \<noteq> Draining"
    using advance_loop_moves [OF e(1)] c(2) by (auto simp: moves_def)
  with last config ok show ?thesis
    unfolding e(2) advance_end_def
    by (cases "c_state e")
       (auto simp: closed_def deadline_def begin_lingering_close_def shutdown_write_def
         timeouts_ok_def milliseconds_def)
qed

lemma on_deadline_deadline:
  assumes "on_deadline now c = Some d" and "timeouts_ok (c_config c)"
  shows "closed d \<or> now < deadline d"
  using assms(1)
proof (cases rule: on_deadline_cases)
  case (times_out t)
  from advance_deadline [OF times_out(4)] assms(2) show ?thesis
    by (simp add: timeout_response_def)
qed (simp add: closed_def)

lemma service_deadline:
  assumes "service revents now c = Some d" and "timeouts_ok (c_config c)"
  shows "closed d \<or> now < deadline d"
proof -
  from assms(1) obtain e where e: "(if revents \<noteq> {} then on_poll_events revents now c else Some c) = Some e"
    and d: "(if \<not> closed e \<and> deadline e \<le> now then on_deadline now e else Some e) = Some d"
    by (auto simp: service_def split: Option.bind_splits)
  have "c_config e = c_config c"
    using e event_setup(1) [of revents now c e] by (auto simp: same_setup_def split: if_splits)
  with d assms(2) on_deadline_deadline [of now e d] show ?thesis by (auto split: if_splits)
qed

lemma service_all_deadline:
  "service_all now revents lg cs = Some (lg', ds) \<Longrightarrow> (\<forall>c \<in> set cs. timeouts_ok (c_config c)) \<Longrightarrow>
     \<forall>d \<in> set ds. closed d \<or> now < deadline d"
proof (induction cs arbitrary: revents lg lg' ds)
  case (Cons c cs)
  from Cons.prems(1) obtain d es where d: "service (hd revents) now (c\<lparr>c_logger := lg\<rparr>) = Some d"
    and "service_all now (tl revents) (c_logger d) cs = Some (lg', es)" and ds: "ds = d # es"
    by (auto split: Option.bind_splits)
  with Cons.IH Cons.prems(2) service_deadline [OF d] show ?case by simp
qed simp

lemma add_connection_sel:
  "sv_config (add_connection now s peer sv) = sv_config sv"
  "sv_handler (add_connection now s peer sv) = sv_handler sv"
  "sv_released (add_connection now s peer sv) = sv_released sv"
  "sv_backlog (add_connection now s peer sv) = sv_backlog sv"
  "sv_listening (add_connection now s peer sv) = sv_listening sv"
  "\<exists>lg. sv_connections (add_connection now s peer sv) = sv_connections sv @
     [new_connection s (sv_next_connection_id sv) peer (sv_config sv) (sv_handler sv) lg now]"
  "sv_next_connection_id (add_connection now s peer sv) = sv_next_connection_id sv + 1"
  by (auto simp: add_connection_def Let_def)

text \<open>
  The clients in a stretch of the backlog that came with a usable socket, and the connections made
  for them: untouched ones with consecutive numbers, each on its client's socket.
\<close>

fun arrivals :: "AcceptEvent list \<Rightarrow> (Socket \<times> string) list" where
  "arrivals [] = []"
| "arrivals (Incoming s peer None # events) = (s, peer) # arrivals events"
| "arrivals (event # events) = arrivals events"

lemma arrivals_append: "arrivals (xs @ ys) = arrivals xs @ arrivals ys"
  by (induction xs rule: arrivals.induct) simp_all

fun made_for ::
  "time_point \<Rightarrow> ServerConfig \<Rightarrow> RequestHandler \<Rightarrow> 64 word \<Rightarrow> (Socket \<times> string) list \<Rightarrow> Connection list \<Rightarrow> bool"
where
  "made_for now config h i [] [] \<longleftrightarrow> True"
| "made_for now config h i ((s, peer) # clients) (c # cs) \<longleftrightarrow>
     (\<exists>lg. c = new_connection s i peer config h lg now) \<and> made_for now config h (i + 1) clients cs"
| "made_for now config h i clients cs \<longleftrightarrow> False"

lemma made_for_append:
  "made_for now config h i xs cs \<Longrightarrow> made_for now config h (i + of_nat (length xs)) ys ds \<Longrightarrow>
     made_for now config h i (xs @ ys) (cs @ ds)"
  by (induction now config h i xs cs rule: made_for.induct) (auto simp: add_ac)

lemma made_for_new:
  "made_for now config h i clients cs \<Longrightarrow> c \<in> set cs \<Longrightarrow>
     c_state c = Active \<and> c_last_activity c = now \<and> c_config c = config"
  by (induction now config h i clients cs rule: made_for.induct) (auto simp: new_connection_def)

text \<open>
  What accepting does to the server: the configuration stays, a stretch of the backlog is taken,
  exactly the connections for its clients are added, and every socket taken is held or given
  back.
\<close>

fun incoming :: "AcceptEvent \<Rightarrow> bool" where
  "incoming (Incoming s peer e) = True"
| "incoming (AcceptError e) = False"

definition socket_count :: "Server \<Rightarrow> nat" where
  "socket_count sv =
     length (filter incoming (sv_backlog sv)) + length (sv_connections sv) + length (sv_released sv)"

definition accepts :: "time_point \<Rightarrow> Server \<Rightarrow> Server \<Rightarrow> bool" where
  "accepts now sv sv' \<longleftrightarrow>
     sv_config sv' = sv_config sv \<and> sv_handler sv' = sv_handler sv \<and>
     sv_listening sv' = sv_listening sv \<and> socket_count sv' = socket_count sv \<and>
     (\<exists>taken new. sv_backlog sv = taken @ sv_backlog sv' \<and> sv_connections sv' = sv_connections sv @ new \<and>
        sv_next_connection_id sv' = sv_next_connection_id sv + of_nat (length (arrivals taken)) \<and>
        made_for now (sv_config sv) (sv_handler sv) (sv_next_connection_id sv) (arrivals taken) new)"

lemma accepts_trans:
  assumes "accepts now sv sv'" and "accepts now sv' sv''"
  shows "accepts now sv sv''"
proof -
  from assms obtain taken new taken' new' where
    "sv_backlog sv = (taken @ taken') @ sv_backlog sv''" "sv_connections sv'' = sv_connections sv @ new @ new'"
    "sv_next_connection_id sv'' =
       sv_next_connection_id sv + of_nat (length (arrivals taken)) + of_nat (length (arrivals taken'))"
    "made_for now (sv_config sv) (sv_handler sv) (sv_next_connection_id sv) (arrivals taken) new"
    "made_for now (sv_config sv) (sv_handler sv)
       (sv_next_connection_id sv + of_nat (length (arrivals taken))) (arrivals taken') new'"
    by (auto simp: accepts_def)
  with assms show ?thesis
    unfolding accepts_def
    by (intro conjI exI [of _ "taken @ taken'"] exI [of _ "new @ new'"])
       (auto simp: arrivals_append add.assoc intro: made_for_append)
qed

lemma accepts_same:
  "sv_config sv' = sv_config sv \<Longrightarrow> sv_handler sv' = sv_handler sv \<Longrightarrow>
   sv_listening sv' = sv_listening sv \<Longrightarrow> socket_count sv' = socket_count sv \<Longrightarrow>
   sv_connections sv' = sv_connections sv \<Longrightarrow> sv_next_connection_id sv' = sv_next_connection_id sv \<Longrightarrow>
   sv_backlog sv = taken @ sv_backlog sv' \<Longrightarrow> arrivals taken = [] \<Longrightarrow> accepts now sv sv'"
  unfolding accepts_def by (intro conjI exI [of _ taken] exI [of _ "[]"]) simp_all

lemma accepts_refl: "accepts now sv sv"
  by (rule accepts_same [of sv sv "[]"]) simp_all

lemma accept_new_connections_accepts: "accepts now sv (accept_new_connections now sv)"
proof (induction now sv rule: accept_new_connections.induct)
  case (1 now sv)
  note unfold = accept_new_connections.simps [of now sv]
  show ?case
  proof (cases "length (sv_connections sv) < max_connections (sv_config sv) \<and> sv_backlog sv \<noteq> []")
    case False
    with unfold have "accept_new_connections now sv = sv" by (auto split: list.splits)
    then show ?thesis by (simp add: accepts_refl)
  next
    case True
    then obtain e events where room: "length (sv_connections sv) < max_connections (sv_config sv)"
      and Cons: "sv_backlog sv = e # events" by (auto simp: neq_Nil_conv)
    let ?sv = "sv\<lparr>sv_backlog := events\<rparr>"
    show ?thesis
    proof (cases e)
      case (AcceptError x)
      have step: "accepts now sv (?sv)" "accepts now sv ((sv_log l t ?sv)\<lparr>sv_accept_paused_until := u\<rparr>)"
        for l t u using Cons AcceptError by (auto intro!: accepts_same [of _ _ "[e]"] simp: socket_count_def)
      have "accepts now sv (accept_new_connections now ?sv)"
        if "x = EINTR \<or> x = ECONNABORTED \<or> x = EPROTO"
        using "1.IH"(3) [OF room Cons AcceptError refl _ that] that step(1) by (auto intro: accepts_trans)
      with step unfold room Cons AcceptError show ?thesis by (simp add: Let_def)
    next
      case (Incoming s peer err)
      show ?thesis
      proof (cases err)
        case None
        obtain lg where "sv_connections (add_connection now s peer ?sv) = sv_connections sv @
            [new_connection s (sv_next_connection_id sv) peer (sv_config sv) (sv_handler sv) lg now]"
          using add_connection_sel(6) [of now s peer ?sv] by auto
        then have "accepts now sv (add_connection now s peer ?sv)"
          using Cons Incoming None add_connection_sel [of now s peer ?sv] unfolding accepts_def
          by (intro conjI exI [of _ "[e]"]
                exI [of _ "[new_connection s (sv_next_connection_id sv) peer (sv_config sv) (sv_handler sv) lg now]"])
             (auto simp: socket_count_def)
        from accepts_trans [OF this "1.IH"(1) [OF room Cons Incoming None]]
        show ?thesis using unfold room Cons Incoming None by simp
      next
        case (Some x)
        have "accepts now sv ((sv_log l t ?sv)\<lparr>sv_released := sv_released sv @ [close_socket s]\<rparr>)" for l t
          using Cons Incoming Some by (auto intro!: accepts_same [of _ _ "[e]"] simp: socket_count_def)
        from accepts_trans [OF this "1.IH"(2) [OF room Cons Incoming Some]]
        show ?thesis using unfold room Cons Incoming Some by simp
      qed
    qed
  qed
qed

end
