(* ===== verification/Server_Run.thy ===== *)
theory Server_Run
  imports Server_Properties Conn_Waiting
begin

text \<open>
  The server from its construction to its end: what the poll loop keeps over any number of
  iterations, how long it sleeps, that nobody outlives a deadline, which clients are taken in,
  and that the shutdown gives every socket back.
\<close>

section \<open>Sockets are neither lost nor duplicated\<close>

lemma service_all_length: "service_all now revents lg cs = Some (lg', ds) \<Longrightarrow> length ds = length cs"
  by (induction cs arbitrary: revents lg lg' ds) (auto split: Option.bind_splits)

lemma length_filter_partition: "length (filter (\<lambda>x. \<not> P x) xs) + length (filter P xs) = length xs"
  by (induction xs) auto

lemma server_round_count:
  assumes "server_round rd sv = Some (Inr sv')"
  shows "socket_count sv' = socket_count sv \<and> sv_config sv' = sv_config sv \<and>
     sv_handler sv' = sv_handler sv \<and> sv_listening sv' = sv_listening sv"
proof (cases "rd_poll rd (poll_set (rd_before rd) sv) (poll_timeout_ms (rd_before rd) sv)")
  case (PollFailed e)
  with assms show ?thesis by (auto simp: server_round_def split: if_splits)
next
  case (PollReady revents)
  from assms PollReady obtain lg ds where
    ds: "service_all (rd_after rd) (tl revents) (sv_logger sv) (sv_connections sv) = Some (lg, ds)"
    by (auto simp: server_round_def split: Option.bind_splits)
  let ?sv = "sv\<lparr>sv_logger := lg, sv_connections := filter (\<lambda>c. \<not> closed c) ds,
      sv_released := sv_released sv @ map c_socket (filter closed ds)\<rparr>"
  have "sv' = (if POLLIN \<in> hd revents then accept_new_connections (rd_after rd) ?sv else ?sv)"
    using assms PollReady ds by (simp add: server_round_def Let_def)
  moreover have "socket_count ?sv = socket_count sv"
    using service_all_length [OF ds] length_filter_partition [of closed ds]
    by (simp add: socket_count_def)
  ultimately show ?thesis
    using accept_new_connections_accepts [of "rd_after rd" ?sv] by (simp add: accepts_def)
qed

lemma server_loop_count:
  "server_loop rds sv = Some (Inr sv') \<Longrightarrow>
     socket_count sv' = socket_count sv \<and> sv_config sv' = sv_config sv \<and>
     sv_handler sv' = sv_handler sv \<and> sv_listening sv' = sv_listening sv"
proof (induction rds arbitrary: sv)
  case (Cons rd rds)
  then obtain sv1 where "server_round rd sv = Some (Inr sv1)" "server_loop rds sv1 = Some (Inr sv')"
    by (auto split: option.splits sum.splits)
  with server_round_count Cons.IH show ?case by metis
qed simp

text \<open>Only an error of \<^verbatim>\<open>poll()\<close> other than an interruption ends the loop early.\<close>

lemma server_loop_error:
  "server_loop rds sv = Some (Inl e) \<Longrightarrow>
     e \<noteq> EINTR \<and> (\<exists>rd \<in> set rds. \<exists>asked timeout. rd_poll rd asked timeout = PollFailed e)"
proof (induction rds arbitrary: sv)
  case (Cons rd rds)
  show ?case
  proof (cases "server_round rd sv = Some (Inl e)")
    case True
    then have "rd_poll rd (poll_set (rd_before rd) sv) (poll_timeout_ms (rd_before rd) sv) = PollFailed e"
      "e \<noteq> EINTR"
      by (auto simp: server_round_def Let_def split: PollResult.splits Option.bind_splits if_splits)
    then show ?thesis by auto
  next
    case False
    with Cons.prems obtain sv1 where "server_loop rds sv1 = Some (Inl e)"
      by (auto split: option.splits sum.splits)
    from Cons.IH [OF this] show ?thesis by auto
  qed
qed simp

lemma announce_sel [simp]:
  "sv_config (announce sv) = sv_config sv" "sv_handler (announce sv) = sv_handler sv"
  "sv_connections (announce sv) = sv_connections sv" "sv_backlog (announce sv) = sv_backlog sv"
  "sv_released (announce sv) = sv_released sv" "sv_listening (announce sv) = sv_listening sv"
  "server_inv (announce sv) = server_inv sv"
  by (simp_all add: announce_def)

lemma close_now_closed: "\<not> closed c \<Longrightarrow> closed (close_now reason c) \<and> \<not> sk_open (c_socket (close_now reason c))"
  by (simp add: close_now_def closed_def close_socket_def)

lemma close_all_closed:
  "close_all lg cs = (lg', ds) \<Longrightarrow> (\<forall>c \<in> set cs. \<not> closed c) \<Longrightarrow>
     length ds = length cs \<and> (\<forall>d \<in> set ds. closed d \<and> \<not> sk_open (c_socket d))"
proof (induction cs arbitrary: lg lg' ds)
  case (Cons c cs)
  define d where "d = close_now ''server shutting down'' (c\<lparr>c_logger := lg\<rparr>)"
  have "\<not> closed (c\<lparr>c_logger := lg\<rparr>)" using Cons.prems(2) by (simp add: closed_def)
  then have "closed d \<and> \<not> sk_open (c_socket d)" unfolding d_def by (rule close_now_closed)
  moreover obtain lg1 es where es: "close_all (c_logger d) cs = (lg1, es)"
    by (cases "close_all (c_logger d) cs")
  then have "ds = d # es"
    using Cons.prems(1) unfolding close_all.simps d_def [symmetric] by (simp add: Let_def)
  moreover have "\<forall>c \<in> set cs. \<not> closed c" using Cons.prems(2) by auto
  note Cons.IH [OF es this]
  ultimately show ?case by simp
qed simp

lemma shut_down_releases:
  assumes "server_inv sv"
  shows "sv_connections (shut_down sv) = []" "\<not> sv_listening (shut_down sv)"
    "sv_backlog (shut_down sv) = sv_backlog sv" "socket_count (shut_down sv) = socket_count sv"
    "\<forall>s \<in> set (sv_released (shut_down sv)). \<not> sk_open s"
proof -
  let ?sv = "sv_log Notice (''shutdown requested; closing '' @
      nat_to_string (length (sv_connections sv)) @ '' open connection(s)'') sv"
  obtain lg ds where ds: "close_all (sv_logger ?sv) (sv_connections ?sv) = (lg, ds)"
    by fastforce
  have open_conns: "\<forall>c \<in> set (sv_connections ?sv). \<not> closed c"
    using assms by (simp add: server_inv_def)
  note closed = close_all_closed [OF ds open_conns]
  have shut: "shut_down sv = ?sv\<lparr>sv_logger := lg, sv_connections := [], sv_listening := False,
      sv_released := sv_released ?sv @ map c_socket ds\<rparr>"
    using ds by (simp add: shut_down_def Let_def)
  show "sv_connections (shut_down sv) = []" "\<not> sv_listening (shut_down sv)"
    "sv_backlog (shut_down sv) = sv_backlog sv" by (simp_all add: shut)
  show "socket_count (shut_down sv) = socket_count sv"
    using closed by (simp add: shut socket_count_def)
  show "\<forall>s \<in> set (sv_released (shut_down sv)). \<not> sk_open s"
    using closed assms by (auto simp: shut server_inv_def)
qed

section \<open>Who is taken in\<close>

text \<open>
  Clients that are waiting with usable sockets, and the connections made for the first of
  them; what the log looks like by then does not matter.
\<close>

definition waiting :: "(Socket \<times> string) list \<Rightarrow> AcceptEvent list" where
  "waiting clients = map (\<lambda>(s, peer). Incoming s peer None) clients"

lemma accept_new_connections_takes:
  "sv_backlog sv = waiting clients \<Longrightarrow>
   length (sv_connections sv) \<le> max_connections (sv_config sv) \<Longrightarrow>
   room = max_connections (sv_config sv) - length (sv_connections sv) \<Longrightarrow>
   sv' = accept_new_connections now sv \<Longrightarrow>
     sv_backlog sv' = waiting (drop room clients) \<and>
     map (\<lambda>c. (c_socket c, c_peer c)) (sv_connections sv') =
       map (\<lambda>c. (c_socket c, c_peer c)) (sv_connections sv) @ take room clients \<and>
     take (length (sv_connections sv)) (sv_connections sv') = sv_connections sv \<and>
     map c_id (sv_connections sv') = map c_id (sv_connections sv) @
       map (\<lambda>k. sv_next_connection_id sv + of_nat k) [0..<min room (length clients)]"
proof (induction clients arbitrary: sv room sv')
  case Nil
  then have "sv' = sv" by (simp add: accept_new_connections.simps waiting_def)
  with Nil show ?case by (simp add: waiting_def)
next
  case (Cons client clients)
  obtain s peer where client: "client = (s, peer)" by fastforce
  show ?case
  proof (cases room)
    case 0
    with Cons.prems have "sv' = sv" by (simp add: accept_new_connections.simps)
    with 0 Cons.prems show ?thesis by simp
  next
    case (Suc room')
    let ?sv = "add_connection now s peer (sv\<lparr>sv_backlog := waiting clients\<rparr>)"
    note sel = add_connection_sel [of now s peer "sv\<lparr>sv_backlog := waiting clients\<rparr>"]
    have next_id: "sv_next_connection_id ?sv = sv_next_connection_id sv + 1"
      by (simp add: add_connection_def Let_def)
    from sel(6) obtain c where c: "sv_connections ?sv = sv_connections sv @ [c]"
      "c_socket c = s" "c_peer c = peer" "c_id c = sv_next_connection_id sv"
      by (auto simp: new_connection_def)
    have step: "sv' = accept_new_connections now ?sv"
      using Cons.prems Suc client by (simp add: accept_new_connections.simps [of now sv] waiting_def)
    have room': "room' = max_connections (sv_config ?sv) - length (sv_connections ?sv)"
      "length (sv_connections ?sv) \<le> max_connections (sv_config ?sv)"
      "sv_backlog ?sv = waiting clients"
      using Cons.prems Suc sel c by simp_all
    note IH = Cons.IH [OF room'(3,2,1) step]
    have "take (length (sv_connections sv)) (sv_connections sv') = sv_connections sv"
      using conjunct1 [OF conjunct2 [OF conjunct2 [OF IH]]] c(1)
      by (metis append_eq_conv_conj append_take_drop_id append.assoc)
    moreover have "map (\<lambda>k. sv_next_connection_id sv + of_nat k) [0..<Suc m] =
        sv_next_connection_id sv #
        map (\<lambda>k. sv_next_connection_id sv + 1 + of_nat k) [0..<m]" for m
      by (simp add: upt_conv_Cons map_Suc_upt [symmetric] comp_def del: upt_Suc)
    ultimately show ?thesis
      using IH Suc c next_id client by simp
  qed
qed

section \<open>Reachable servers\<close>

text \<open>
  The states of a server at the head of its loop. The clients it will ever see have sockets on
  which nothing was exchanged yet, and there are fewer of them than connection numbers.
\<close>

inductive server_reachable :: "ServerConfig \<Rightarrow> RequestHandler \<Rightarrow> Server \<Rightarrow> bool" for config h where
  started: "list_all fresh_event backlog \<Longrightarrow> length backlog + 1 < 2 ^ 64 \<Longrightarrow>
    server_reachable config h (announce (new_server config h lg strerror address show_seconds backlog))"
| iterated: "server_reachable config h sv \<Longrightarrow> server_round rd sv = Some (Inr sv') \<Longrightarrow>
    server_reachable config h sv'"

lemma server_reachable_inv:
  assumes "server_reachable config h sv" and "config_ok config"
  shows "server_inv sv \<and> sv_config sv = config \<and> sv_handler sv = h"
  using assms
proof (induction rule: server_reachable.induct)
  case (started backlog lg strerror address show_seconds)
  then have "server_inv (new_server config h lg strerror address show_seconds backlog)"
    by (intro new_server_inv)
  then show ?case by (simp add: new_server_def)
next
  case (iterated sv rd sv')
  then have "server_inv sv'" using server_round_inv [of sv rd] by auto
  with iterated server_round_count [OF iterated(2)] show ?case by simp
qed

lemma server_reachable_loop:
  "server_loop rds sv = Some (Inr sv') \<Longrightarrow> server_reachable config h sv \<Longrightarrow> server_reachable config h sv'"
  by (induction rds arbitrary: sv)
     (auto split: option.splits sum.splits intro: server_reachable.iterated)

text \<open>The sockets a server has been given and those it still holds, for a server that starts.\<close>

lemma new_server_count:
  "socket_count (new_server config h lg strerror address show_seconds backlog) =
     length (filter incoming backlog)"
  by (simp add: socket_count_def new_server_def)

lemma ids_ok_distinct: "ids_ok i n cs \<Longrightarrow> distinct (map c_id cs)"
proof -
  assume "ids_ok i n cs"
  then have "distinct (map (\<lambda>c. unat (c_id c)) cs)" by (auto simp: ids_ok_def strict_sorted_iff)
  then have "distinct (map unat (map c_id cs))" by (simp add: comp_def)
  then show ?thesis by (simp only: distinct_map [of unat])
qed

lemma server_run_out:
  assumes "config_ok config" and "list_all fresh_event backlog" and "length backlog + 1 < 2 ^ 64"
  shows "\<exists>out. server_run rds (new_server config h lg strerror address show_seconds backlog) = Some out \<and>
     (case out of
        Inl e \<Rightarrow> e \<noteq> EINTR \<and> (\<exists>rd \<in> set rds. \<exists>asked timeout. rd_poll rd asked timeout = PollFailed e)
      | Inr sv \<Rightarrow> sv_connections sv = [] \<and> \<not> sv_listening sv \<and>
          (\<forall>s \<in> set (sv_released sv). \<not> sk_open s) \<and>
          length (filter incoming (sv_backlog sv)) + length (sv_released sv) =
            length (filter incoming backlog))"
proof -
  let ?sv = "new_server config h lg strerror address show_seconds backlog"
  have inv: "server_inv (announce ?sv)" using new_server_inv [OF assms] by simp
  have count: "socket_count (announce ?sv) = length (filter incoming backlog)"
    using new_server_count by (simp add: socket_count_def)
  obtain out where out: "server_loop rds (announce ?sv) = Some out"
    "\<forall>sv'. out = Inr sv' \<longrightarrow> server_inv sv'" using server_loop_inv [OF inv] by blast
  then have run: "server_run rds ?sv = Some (map_sum id shut_down out)" by (simp add: server_run_def)
  show ?thesis
  proof (cases out)
    case (Inl e)
    with out(1) run server_loop_error show ?thesis by auto
  next
    case (Inr sv)
    with out have "server_inv sv" "socket_count sv = length (filter incoming backlog)"
      using server_loop_count [of rds "announce ?sv" sv] count by auto
    with run Inr shut_down_releases [of sv] show ?thesis by (auto simp: socket_count_def)
  qed
qed

lemma server_run_outcome:
  assumes "config_ok config" and "list_all fresh_event backlog" and "length backlog + 1 < 2 ^ 64"
  shows "\<exists>out. server_run rds (new_server config h lg strerror address show_seconds backlog) = Some out \<and>
     (\<forall>e. out = Inl e \<longrightarrow> e \<noteq> EINTR \<and> (\<exists>rd \<in> set rds. \<exists>asked timeout. rd_poll rd asked timeout = PollFailed e))"
proof -
  from server_run_out [OF assms] obtain out where
    "server_run rds (new_server config h lg strerror address show_seconds backlog) = Some out"
    "case out of
       Inl e \<Rightarrow> e \<noteq> EINTR \<and> (\<exists>rd \<in> set rds. \<exists>asked timeout. rd_poll rd asked timeout = PollFailed e)
     | Inr sv \<Rightarrow> True" by (fastforce split: sum.splits)
  then show ?thesis by (cases out) simp_all
qed

section \<open>An example\<close>

text \<open>Two clients and a reset one; the listener is ready first, then the clients are.\<close>

definition sample_server :: Server where
  "sample_server =
     announce (new_server default_config calc_handler \<lparr>lg_level = Notice, lg_lines = []\<rparr>
       (\<lambda>e. ''error'') ''127.0.0.1:8080'' (\<lambda>ms. ''30'')
       [Incoming sample_socket ''p1'' None, AcceptError ECONNABORTED,
        Incoming keep_alive_socket ''p2'' None])"

definition ready_round :: "time_point \<Rightarrow> PollFlag set \<Rightarrow> Round" where
  "ready_round now listener =
     \<lparr>rd_before = now, rd_poll = (\<lambda>asked timeout. PollReady (listener # map (\<lambda>e. {POLLIN}) (tl asked))),
      rd_after = now + 1\<rparr>"

definition sample_rounds :: "Round list" where
  "sample_rounds = [ready_round 10 {POLLIN}, ready_round 20 {}]"

lemma sample_server_reachable: "server_reachable default_config calc_handler sample_server"
  unfolding sample_server_def
  by (rule server_reachable.started)
     (simp_all add: fresh_socket_def sample_socket_def keep_alive_socket_def)

lemma sample_server_loops:
  "case server_loop sample_rounds sample_server of
     Some (Inr sv) \<Rightarrow> length (sv_connections sv) = 2 | _ \<Rightarrow> False"
  by code_simp

section \<open>Properties\<close>

text \<open>
  C9. The invariant of the server: at every turn of the poll loop it holds at most
  \<^verbatim>\<open>max_connections\<close> connections, none of them closed, no two with the same number, each driven
  only through its own events since it was accepted (so that everything shown of a connection
  holds for it), and every socket it has given back is closed.
\<close>

theorem server_invariant:
  assumes "server_reachable config h sv" and "config_ok config"
  shows "length (sv_connections sv) \<le> max_connections config \<and>
     distinct (map c_id (sv_connections sv)) \<and>
     (\<forall>c \<in> set (sv_connections sv). \<not> closed c \<and> sk_open (c_socket c) \<and>
        conn_reachable config h (c_id c) c) \<and>
     (\<forall>s \<in> set (sv_released sv). \<not> sk_open s)"
proof -
  note sv = server_reachable_inv [OF assms]
  then have conns: "conns_ok config h (sv_connections sv)" "\<forall>c \<in> set (sv_connections sv). \<not> closed c"
    by (auto simp: server_inv_def)
  have "sk_open (c_socket c)" if "c \<in> set (sv_connections sv)" for c
    using conns_ok_closed [OF conns(1) assms(2) that] conns(2) that by simp
  moreover have "distinct (map c_id (sv_connections sv))"
    using sv ids_ok_distinct by (auto simp: server_inv_def)
  ultimately show ?thesis
    using sv conns by (auto simp: server_inv_def conns_ok_def)
qed

theorem server_invariant_witness:
  "\<exists>sv. server_loop sample_rounds sample_server = Some (Inr sv) \<and> length (sv_connections sv) = 2 \<and>
     distinct (map c_id (sv_connections sv))"
proof -
  from sample_server_loops obtain sv where
    sv: "server_loop sample_rounds sample_server = Some (Inr sv)" "length (sv_connections sv) = 2"
    by (auto split: option.splits sum.splits)
  from server_invariant [OF server_reachable_loop [OF sv(1) sample_server_reachable] sample_config_ok] sv
  show ?thesis by blast
qed



text \<open>
  C20. The server always comes to an end: over any iterations every handler returns, only an
  error of \<^verbatim>\<open>poll()\<close> other than an interruption by a signal ends the loop with an exception,
  and when a stop is requested no connection is left, the listener is closed, and every socket
  taken from the backlog, and no other, has been given back and closed.
\<close>

theorem server_run_ends:
  assumes "config_ok config" and "list_all fresh_event backlog" and "length backlog + 1 < 2 ^ 64"
  shows "\<exists>out. server_run rds (new_server config h lg strerror address show_seconds backlog) = Some out \<and>
     (case out of
        Inl e \<Rightarrow> e \<noteq> EINTR \<and> (\<exists>rd \<in> set rds. \<exists>asked timeout. rd_poll rd asked timeout = PollFailed e)
      | Inr sv \<Rightarrow> sv_connections sv = [] \<and> \<not> sv_listening sv \<and>
          (\<forall>s \<in> set (sv_released sv). \<not> sk_open s) \<and>
          length (filter incoming (sv_backlog sv)) + length (sv_released sv) =
            length (filter incoming backlog))"
  using server_run_out [OF assms] .

theorem server_run_ends_witness:
  "\<exists>out. server_run sample_rounds
       (new_server default_config calc_handler \<lparr>lg_level = Notice, lg_lines = []\<rparr>
         (\<lambda>e. ''error'') ''127.0.0.1:8080'' (\<lambda>ms. ''30'') [Incoming sample_socket ''p1'' None]) =
     Some out \<and> (case out of Inl e \<Rightarrow> e \<noteq> EINTR | Inr sv \<Rightarrow> sv_connections sv = [] \<and>
       length (filter incoming (sv_backlog sv)) + length (sv_released sv) = 1)"
proof -
  have "list_all fresh_event [Incoming sample_socket ''p1'' None]"
    using sample_socket_fresh by simp
  from server_run_ends [OF sample_config_ok this] obtain out where
    "server_run sample_rounds (new_server default_config calc_handler
       \<lparr>lg_level = Notice, lg_lines = []\<rparr> (\<lambda>e. ''error'') ''127.0.0.1:8080'' (\<lambda>ms. ''30'')
       [Incoming sample_socket ''p1'' None]) = Some out"
    "case out of Inl e \<Rightarrow> e \<noteq> EINTR | Inr sv \<Rightarrow> sv_connections sv = [] \<and>
       length (filter incoming (sv_backlog sv)) + length (sv_released sv) = 1"
    by (fastforce split: sum.splits)
  then show ?thesis by blast
qed

text \<open>
  C23. How long the server sleeps: the timeout given to \<^verbatim>\<open>poll()\<close> is between 0 and 1000
  milliseconds; it is zero exactly when a deadline has passed, so the loop does not spin; it
  reaches every deadline that ends the sleep, and overshoots no deadline that is still to come
  by a millisecond or more.
\<close>

theorem poll_timeout_exact:
  "0 \<le> poll_timeout_ms now sv \<and> poll_timeout_ms now sv \<le> 1000 \<and>
   (poll_timeout_ms now sv = 0 \<longleftrightarrow> (\<exists>c \<in> set (sv_connections sv). deadline c \<le> now)) \<and>
   (\<forall>c \<in> set (sv_connections sv). now < deadline c \<longrightarrow>
      now + milliseconds (poll_timeout_ms now sv) < deadline c + milliseconds 1) \<and>
   (poll_timeout_ms now sv < 1000 \<longrightarrow>
      (\<exists>c \<in> set (sv_connections sv). deadline c \<le> now + milliseconds (poll_timeout_ms now sv)) \<or>
      now < sv_accept_paused_until sv \<and>
        sv_accept_paused_until sv \<le> now + milliseconds (poll_timeout_ms now sv))"
proof -
  let ?t = "poll_timeout_ms now sv" and ?w = "wake_time now sv"
  note t = poll_timeout_bounds [of now sv] and w = wake_time_bounds [where now = now and sv = sv]
  have pos: "0 < max_poll_wait" by (simp add: max_poll_wait_def milliseconds_def)
  have "?t = 0 \<longleftrightarrow> (\<exists>c \<in> set (sv_connections sv). deadline c \<le> now)"
    using t(5) w(2,3) pos wake_time_bounds(2) [of _ sv now] by force
  moreover have "now + milliseconds ?t < deadline c + milliseconds 1"
    if "c \<in> set (sv_connections sv)" "now < deadline c" for c
  proof (cases "now < ?w")
    case True
    with t(4) wake_time_bounds(2) [OF that(1), of now] show ?thesis by simp
  next
    case False
    then have "?t = 0" using t(5) by simp
    with that(2) show ?thesis by (simp add: milliseconds_def)
  qed
  moreover have "(\<exists>c \<in> set (sv_connections sv). deadline c \<le> now + milliseconds ?t) \<or>
      now < sv_accept_paused_until sv \<and> sv_accept_paused_until sv \<le> now + milliseconds ?t"
    if "?t < 1000"
  proof -
    have "?w < now + max_poll_wait"
      using that t(3) by (simp add: max_poll_wait_def milliseconds_def)
    with w(3) t(3) show ?thesis by auto
  qed
  ultimately show ?thesis using t(1,2) by blast
qed

theorem poll_timeout_exact_witness:
  "0 \<le> poll_timeout_ms 5 sample_server \<and> poll_timeout_ms 5 sample_server \<le> 1000"
  using poll_timeout_exact [of 5 sample_server] by simp

text \<open>
  C22. Deadlines are kept: after an iteration in which \<^verbatim>\<open>poll()\<close> returned, every connection
  still held has its deadline ahead of the time the iteration worked with. Idle, stalled and
  lingering clients are gone or have been answered with 408 by then (for timeouts of at least
  a millisecond).
\<close>

theorem no_overdue_connection:
  assumes "server_reachable config h sv" and "config_ok config" and "timeouts_ok config"
    and "rd_poll rd (poll_set (rd_before rd) sv) (poll_timeout_ms (rd_before rd) sv) = PollReady revents"
  shows "\<exists>sv'. server_round rd sv = Some (Inr sv') \<and>
     (\<forall>c \<in> set (sv_connections sv'). rd_after rd < deadline c)"
proof -
  let ?now = "rd_after rd"
  note sv = server_reachable_inv [OF assms(1,2)]
  then have conns: "conns_ok config h (sv_connections sv)" by (auto simp: server_inv_def)
  then obtain lg ds where
    ds: "service_all ?now (tl revents) (sv_logger sv) (sv_connections sv) = Some (lg, ds)"
    using service_all_returns [OF _ assms(2)] by blast
  have "\<forall>c \<in> set (sv_connections sv). timeouts_ok (c_config c)"
    using conns conn_reachable_setup assms(3) by (auto simp: conns_ok_def)
  note due = service_all_deadline [OF ds this]
  let ?sv = "sv\<lparr>sv_logger := lg, sv_connections := filter (\<lambda>c. \<not> closed c) ds,
      sv_released := sv_released sv @ map c_socket (filter closed ds)\<rparr>"
  let ?sv' = "if POLLIN \<in> hd revents then accept_new_connections ?now ?sv else ?sv"
  have "server_round rd sv = Some (Inr ?sv')"
    using assms(4) ds by (simp add: server_round_def Let_def)
  moreover have "accepts ?now ?sv ?sv'"
    using accept_new_connections_accepts by (simp add: accepts_refl)
  then obtain new where "sv_connections ?sv' = sv_connections ?sv @ new"
    "\<forall>c \<in> set new. c_state c = Active \<and> c_last_activity c = ?now \<and> c_config c = config"
    using sv by (auto simp: accepts_def dest: made_for_new)
  moreover from this(2) have "\<forall>c \<in> set new. ?now < deadline c"
    using assms(3) by (auto simp: deadline_def timeouts_ok_def milliseconds_def)
  ultimately show ?thesis using due by auto
qed

theorem no_overdue_connection_witness:
  "\<exists>sv. server_round (ready_round (milliseconds 40000) {POLLIN}) sample_server = Some (Inr sv) \<and>
     length (filter (\<lambda>c. deadline c \<le> milliseconds 40000) (sv_connections sv)) = 0"
proof -
  let ?rd = "ready_round (milliseconds 40000) {POLLIN}"
  obtain revents where poll: "rd_poll ?rd (poll_set (rd_before ?rd) sample_server)
      (poll_timeout_ms (rd_before ?rd) sample_server) = PollReady revents"
    by (simp add: ready_round_def)
  have "timeouts_ok default_config" by code_simp
  from no_overdue_connection [OF sample_server_reachable sample_config_ok this poll] obtain sv where
    sv: "server_round ?rd sample_server = Some (Inr sv)"
    "\<forall>c \<in> set (sv_connections sv). rd_after ?rd < deadline c" by blast
  then have "filter (\<lambda>c. deadline c \<le> milliseconds 40000) (sv_connections sv) = []"
    by (fastforce simp: filter_empty_conv ready_round_def)
  with sv(1) show ?thesis by auto
qed

text \<open>
  C24. Who is taken in: of the clients waiting with usable sockets, \<^verbatim>\<open>accept_new_connections\<close>
  takes the first ones, in order and with consecutive numbers, until the connection limit is
  reached; the others stay in the backlog and the connections already there are not touched.
\<close>

theorem accept_in_order:
  assumes "sv_backlog sv = map (\<lambda>(s, peer). Incoming s peer None) clients"
    and "length (sv_connections sv) \<le> max_connections (sv_config sv)"
  shows "let room = max_connections (sv_config sv) - length (sv_connections sv);
             sv' = accept_new_connections now sv;
             new = drop (length (sv_connections sv)) (sv_connections sv')
         in take (length (sv_connections sv)) (sv_connections sv') = sv_connections sv \<and>
            map (\<lambda>c. (c_socket c, c_peer c)) new = take room clients \<and>
            map c_id new = map (\<lambda>k. sv_next_connection_id sv + of_nat k) [0..<min room (length clients)] \<and>
            sv_backlog sv' = map (\<lambda>(s, peer). Incoming s peer None) (drop room clients)"
proof -
  have "sv_backlog sv = waiting clients" using assms(1) by (simp add: waiting_def)
  note takes = accept_new_connections_takes [OF this assms(2) refl refl, of now]
  then show ?thesis
    by (simp add: Let_def waiting_def drop_map [symmetric] del: drop_map)
qed

theorem accept_in_order_witness:
  "map c_id (drop 0 (sv_connections (accept_new_connections 9
     (new_server (default_config\<lparr>max_connections := 2\<rparr>) calc_handler
       \<lparr>lg_level = Notice, lg_lines = []\<rparr> (\<lambda>e. ''error'') ''127.0.0.1:8080'' (\<lambda>ms. ''30'')
       (map (\<lambda>(s, peer). Incoming s peer None)
         [(sample_socket, ''p1''), (sample_socket, ''p2''), (sample_socket, ''p3'')]))))) = [1, 2]"
  using accept_in_order [of "new_server (default_config\<lparr>max_connections := 2\<rparr>) calc_handler
      \<lparr>lg_level = Notice, lg_lines = []\<rparr> (\<lambda>e. ''error'') ''127.0.0.1:8080'' (\<lambda>ms. ''30'')
      (map (\<lambda>(s, peer). Incoming s peer None)
        [(sample_socket, ''p1''), (sample_socket, ''p2''), (sample_socket, ''p3'')])"
    "[(sample_socket, ''p1''), (sample_socket, ''p2''), (sample_socket, ''p3'')]" 9]
  by (simp add: new_server_def Let_def upt_conv_Cons)

end
