(* ===== verification/Signals.thy ===== *)
theory Signals
  imports Server_Run
begin

text \<open>
  How a running server is asked to stop: the signal handlers and the stop flag of
  \<^verbatim>\<open>src/src/main.cpp\<close>, and the loop of \<^verbatim>\<open>Server::run\<close> with its test of the flag. Shown here: with the
  handlers installed, \<^verbatim>\<open>SIGINT\<close>, \<^verbatim>\<open>SIGTERM\<close> and \<^verbatim>\<open>SIGPIPE\<close> do not kill the process, \<^verbatim>\<open>SIGPIPE\<close> changes
  nothing, and the loop ends at its next test of the flag after \<^verbatim>\<open>SIGINT\<close> or \<^verbatim>\<open>SIGTERM\<close>. Other signals
  keep their default action, which may end the process.
\<close>

section \<open>Signals\<close>

text \<open>
  The signals the program deals with and all others, by number: those whose default action ends
  the process, such as \<^verbatim>\<open>SIGHUP\<close>, \<^verbatim>\<open>SIGQUIT\<close> and \<^verbatim>\<open>SIGKILL\<close>, and those whose default action leaves
  its state as it is, such as \<^verbatim>\<open>SIGCHLD\<close>.
\<close>

datatype Signal = SIGINT | SIGTERM | SIGPIPE | Terminating nat | Harmless nat

datatype Disposition = DefaultAction | Ignored | CallsRequestStop

record Process =
  pr_stop_requested :: bool
  pr_dispositions :: "Signal \<Rightarrow> Disposition"
  pr_killed :: "Signal option"

definition new_process :: Process where
  "new_process = \<lparr>pr_stop_requested = False, pr_dispositions = (\<lambda>s. DefaultAction), pr_killed = None\<rparr>"

definition request_stop :: "Process \<Rightarrow> Process" where
  "request_stop p = p\<lparr>pr_stop_requested := True\<rparr>"

definition install_signal_handlers :: "Process \<Rightarrow> Process" where
  "install_signal_handlers p =
     p\<lparr>pr_dispositions := (pr_dispositions p)
        (SIGINT := CallsRequestStop, SIGTERM := CallsRequestStop, SIGPIPE := Ignored)\<rparr>"

text \<open>The default action of a signal, and what the system does when one arrives.\<close>

fun default_action :: "Signal \<Rightarrow> Process \<Rightarrow> Process" where
  "default_action (Harmless n) p = p"
| "default_action s p = p\<lparr>pr_killed := Some s\<rparr>"

definition deliver :: "Signal \<Rightarrow> Process \<Rightarrow> Process" where
  "deliver s p =
     (if pr_killed p \<noteq> None then p
      else case pr_dispositions p s of
        DefaultAction \<Rightarrow> default_action s p
      | Ignored \<Rightarrow> p
      | CallsRequestStop \<Rightarrow> request_stop p)"

section \<open>The loop and the stop flag\<close>

text \<open>
  A turn of the loop: the signals that arrive before the flag is tested, and what happens in the
  iteration if there is one. The loop is followed for as long as turns are given.
\<close>

datatype Outcome = Running Server | Stopping Server | PollError Errno | KilledBy Signal

fun run_until_stopped :: "(Signal list \<times> Round) list \<Rightarrow> Process \<Rightarrow> Server \<Rightarrow> Outcome option" where
  "run_until_stopped [] p sv = Some (Running sv)"
| "run_until_stopped ((signals, rd) # turns) p sv =
     (let p' = fold deliver signals p
      in case pr_killed p' of
           Some s \<Rightarrow> Some (KilledBy s)
         | None \<Rightarrow>
             if pr_stop_requested p' then Some (Stopping sv)
             else case server_round rd sv of
               None \<Rightarrow> None
             | Some (Inl e) \<Rightarrow> Some (PollError e)
             | Some (Inr sv') \<Rightarrow> run_until_stopped turns p' sv')"

text \<open>\<^verbatim>\<open>Server::run\<close> in the process: the announcement, the loop, and the shutdown after a stop.\<close>

definition run_with_signals :: "(Signal list \<times> Round) list \<Rightarrow> Process \<Rightarrow> Server \<Rightarrow> Outcome option" where
  "run_with_signals turns p sv =
     map_option (\<lambda>out. case out of Stopping sv' \<Rightarrow> Stopping (shut_down sv') | _ \<Rightarrow> out)
       (run_until_stopped turns p (announce sv))"

section \<open>What the handlers achieve\<close>

text \<open>
  What the arriving signals decide, without a process: the first turn that brings a stop signal or
  a fatal one decides, by its first fatal signal if it has one. The loop runs over the turns
  before it.
\<close>

definition stop_signal :: "Signal \<Rightarrow> bool" where
  "stop_signal s \<longleftrightarrow> s = SIGINT \<or> s = SIGTERM"

fun fatal :: "Signal \<Rightarrow> bool" where
  "fatal (Terminating n) \<longleftrightarrow> True"
| "fatal s \<longleftrightarrow> False"

definition decides :: "Signal list \<Rightarrow> Signal option" where
  "decides signals =
     (case find fatal signals of None \<Rightarrow> find stop_signal signals | Some s \<Rightarrow> Some s)"

fun deciding_signal :: "(Signal list \<times> Round) list \<Rightarrow> Signal option" where
  "deciding_signal [] = None"
| "deciding_signal ((signals, rd) # turns) =
     (case decides signals of None \<Rightarrow> deciding_signal turns | Some s \<Rightarrow> Some s)"

definition undisturbed :: "(Signal list \<times> Round) list \<Rightarrow> Round list" where
  "undisturbed turns = map snd (takeWhile (\<lambda>(signals, rd). decides signals = None) turns)"

text \<open>How the run ends, given what is done to the server after a stop.\<close>

definition ending :: "(Server \<Rightarrow> Server) \<Rightarrow> (Signal list \<times> Round) list \<Rightarrow> Server \<Rightarrow> Outcome" where
  "ending finish turns sv =
     (case deciding_signal turns of
        None \<Rightarrow> Running sv
      | Some s \<Rightarrow> if stop_signal s then Stopping (finish sv) else KilledBy s)"

lemma stop_not_fatal: "stop_signal s \<Longrightarrow> \<not> fatal s"
  by (cases s) (auto simp: stop_signal_def)

lemma decides_None: "decides signals = None \<longleftrightarrow> \<not> list_ex fatal signals \<and> \<not> list_ex stop_signal signals"
  by (auto simp: decides_def list_ex_iff find_None_iff find_Some_iff split: option.split)

definition guarded :: "Process \<Rightarrow> bool" where
  "guarded p \<longleftrightarrow> pr_killed p = None \<and>
     (\<forall>s. pr_dispositions p s =
        (if stop_signal s then CallsRequestStop else if s = SIGPIPE then Ignored else DefaultAction))"

lemma install_guarded: "guarded (install_signal_handlers new_process)"
  by (auto simp: guarded_def install_signal_handlers_def new_process_def stop_signal_def)

lemma deliver_guarded:
  assumes "guarded p"
  shows "\<not> fatal s \<Longrightarrow> guarded (deliver s p)"
    and "pr_stop_requested (deliver s p) \<longleftrightarrow> pr_stop_requested p \<or> stop_signal s"
    and "fatal s \<Longrightarrow> pr_killed (deliver s p) = Some s"
  using assms by (cases s; auto simp: guarded_def deliver_def request_stop_def stop_signal_def)+

lemma fold_deliver_killed: "pr_killed p = Some s \<Longrightarrow> fold deliver signals p = p"
  by (induction signals) (simp_all add: deliver_def)

text \<open>After the signals of a turn: killed by the first fatal one, or guarded with the flag as it should be.\<close>

lemma fold_deliver_guarded:
  "guarded p \<Longrightarrow> pr_killed (fold deliver signals p) = find fatal signals \<and>
     (find fatal signals = None \<longrightarrow> guarded (fold deliver signals p) \<and>
        (pr_stop_requested (fold deliver signals p) \<longleftrightarrow> pr_stop_requested p \<or> list_ex stop_signal signals))"
proof (induction signals arbitrary: p)
  case Nil
  then show ?case by (simp add: guarded_def)
next
  case (Cons s signals)
  show ?case
  proof (cases "fatal s")
    case True
    with deliver_guarded(3) [OF Cons.prems] fold_deliver_killed [of "deliver s p" s] show ?thesis by simp
  next
    case False
    with Cons.IH [of "deliver s p"] deliver_guarded [OF Cons.prems, of s] show ?thesis by auto
  qed
qed

lemma run_until_stopped_loop:
  "guarded p \<Longrightarrow> \<not> pr_stop_requested p \<Longrightarrow>
     run_until_stopped turns p sv =
       map_option (case_sum PollError (ending id turns)) (server_loop (undisturbed turns) sv)"
proof (induction turns arbitrary: p sv)
  case Nil
  then show ?case by (simp add: undisturbed_def ending_def)
next
  case (Cons turn turns)
  obtain signals rd where turn: "turn = (signals, rd)" by fastforce
  note signals = fold_deliver_guarded [OF Cons.prems(1), of signals]
  show ?case
  proof (cases "decides signals")
    case None
    then have quiet: "find fatal signals = None" "\<not> list_ex stop_signal signals"
      by (auto simp: decides_None list_ex_iff find_None_iff)
    have rest: "undisturbed (turn # turns) = rd # undisturbed turns" "ending id (turn # turns) = ending id turns"
      by (simp_all add: turn undisturbed_def ending_def fun_eq_iff None)
    have "run_until_stopped turns (fold deliver signals p) sv' =
        map_option (case_sum PollError (ending id turns)) (server_loop (undisturbed turns) sv')" for sv'
      using Cons.IH signals quiet Cons.prems(2) by simp
    with signals quiet Cons.prems(2) show ?thesis
      unfolding rest by (simp add: turn Let_def split: option.split sum.split)
  next
    case (Some s)
    have none: "undisturbed (turn # turns) = []" by (simp add: turn undisturbed_def Some)
    show ?thesis
    proof (cases "find fatal signals")
      case None
      with Some have "list_ex stop_signal signals" "stop_signal s"
        by (auto simp: decides_def find_Some_iff list_ex_iff)
      with signals None Some none show ?thesis by (simp add: turn ending_def)
    next
      case killed: (Some k)
      with Some have "s = k" "fatal s" by (auto simp: decides_def find_Some_iff)
      with signals killed Some none show ?thesis
        using stop_not_fatal [of s] by (auto simp: turn ending_def)
    qed
  qed
qed

lemma run_with_signals_loop:
  "run_with_signals turns (install_signal_handlers new_process) sv =
     map_option (case_sum PollError (ending shut_down turns)) (server_loop (undisturbed turns) (announce sv))"
proof -
  have "\<not> pr_stop_requested (install_signal_handlers new_process)"
    by (simp add: install_signal_handlers_def new_process_def)
  with install_guarded show ?thesis
    by (simp add: run_with_signals_def run_until_stopped_loop option.map_comp comp_def)
       (auto intro!: option.map_cong0 simp: ending_def split: sum.split option.split)
qed

text \<open>What decides is a signal that arrived, and either asks for the stop or is fatal.\<close>

lemma decides_Some: "decides signals = Some s \<Longrightarrow> s \<in> set signals \<and> (stop_signal s \<or> fatal s)"
  by (auto simp: decides_def find_Some_iff split: option.splits)

lemma deciding_signal_Some:
  "deciding_signal turns = Some s \<Longrightarrow> s \<in> set (concat (map fst turns)) \<and> (stop_signal s \<or> fatal s)"
  by (induction turns rule: deciding_signal.induct) (auto split: option.splits dest: decides_Some)

lemma fatal_not_handled: "fatal s \<Longrightarrow> s \<noteq> SIGINT \<and> s \<noteq> SIGTERM \<and> s \<noteq> SIGPIPE"
  by (cases s) auto

lemma ending_killed:
  "case_sum PollError (ending finish turns) z = KilledBy s \<Longrightarrow>
     deciding_signal turns = Some s \<and> \<not> stop_signal s"
  by (cases z) (auto simp: ending_def split: option.splits if_splits)

section \<open>Property\<close>

text \<open>
  C21. Stopping is graceful: with the signal handlers installed, the run is exactly that of the
  poll loop over the turns before the first one that brings \<^verbatim>\<open>SIGINT\<close>, \<^verbatim>\<open>SIGTERM\<close> or a signal the
  program does not handle and whose default action ends a process (\<^verbatim>\<open>SIGPIPE\<close> and harmless signals
  change nothing). With \<^verbatim>\<open>SIGINT\<close> or \<^verbatim>\<open>SIGTERM\<close> it ends in the shutdown of the server that this loop
  leaves, with an unhandled terminating signal it is killed, unless \<^verbatim>\<open>poll()\<close> has failed before, and
  without either it keeps running. So the process is only ever killed by a signal that did arrive
  and is none of \<^verbatim>\<open>SIGINT\<close>, \<^verbatim>\<open>SIGTERM\<close> and \<^verbatim>\<open>SIGPIPE\<close>.
\<close>

theorem graceful_stop:
  "run_with_signals turns (install_signal_handlers new_process) sv =
     map_option
       (case_sum PollError
         (\<lambda>sv'. case deciding_signal turns of
            None \<Rightarrow> Running sv'
          | Some s \<Rightarrow> if stop_signal s then Stopping (shut_down sv') else KilledBy s))
       (server_loop (undisturbed turns) (announce sv)) \<and>
   (run_with_signals turns (install_signal_handlers new_process) sv = Some (KilledBy s) \<longrightarrow>
      s \<in> set (concat (map fst turns)) \<and> s \<noteq> SIGINT \<and> s \<noteq> SIGTERM \<and> s \<noteq> SIGPIPE)"
proof -
  have "deciding_signal turns = Some s \<and> \<not> stop_signal s"
    if "run_with_signals turns (install_signal_handlers new_process) sv = Some (KilledBy s)"
    using that ending_killed by (fastforce simp: run_with_signals_loop)
  with deciding_signal_Some [of turns s] fatal_not_handled [of s] show ?thesis
    unfolding run_with_signals_loop ending_def by blast
qed

theorem graceful_stop_witness:
  "run_with_signals [([SIGPIPE, Harmless 17], ready_round 10 {}), ([Terminating 1], ready_round 20 {})]
     (install_signal_handlers new_process) sample_server = Some (KilledBy (Terminating 1)) \<and>
   Terminating 1 \<noteq> SIGINT"
proof -
  let ?turns = "[([SIGPIPE, Harmless 17], ready_round 10 {}), ([Terminating 1], ready_round 20 {})]"
  have "deciding_signal ?turns = Some (Terminating 1)" "undisturbed ?turns = [ready_round 10 {}]"
    by (simp_all add: decides_def stop_signal_def undisturbed_def)
  moreover have "case server_loop [ready_round 10 {}] (announce sample_server) of
      Some (Inr sv) \<Rightarrow> True | _ \<Rightarrow> False" by code_simp
  then obtain sv where "server_loop [ready_round 10 {}] (announce sample_server) = Some (Inr sv)"
    by (auto split: option.splits sum.splits)
  ultimately show ?thesis
    using graceful_stop [of ?turns sample_server "Terminating 1"] by (simp add: stop_signal_def)
qed

end
