(* ===== verification/Isolation.thy ===== *)
theory Isolation
  imports Server_Run
begin

text \<open>
  Connections do not influence each other. They share the process, the poll loop and the log;
  the log is the only state one connection writes and another holds. Two connections have the
  same view when they differ at most in the log, every operation takes connections of the same
  view to connections of the same view, and so an iteration of the server does to each
  connection what it would do to it alone.
\<close>

section \<open>Views\<close>

definition same_view :: "Connection \<Rightarrow> Connection \<Rightarrow> bool" where
  "same_view c d \<longleftrightarrow>
     c_socket d = c_socket c \<and> c_id d = c_id c \<and> c_peer d = c_peer c \<and> c_config d = c_config c \<and>
     c_handler d = c_handler c \<and> c_parser d = c_parser c \<and> c_output d = c_output c \<and>
     c_output_sent d = c_output_sent c \<and> c_state d = c_state c \<and>
     c_peer_finished_sending d = c_peer_finished_sending c \<and> c_last_activity d = c_last_activity c \<and>
     c_linger_deadline d = c_linger_deadline c \<and> c_lingered_bytes d = c_lingered_bytes c \<and>
     c_stats d = c_stats c"

lemma same_view_rel:
  shows same_view_refl [simp]: "same_view c c"
    and same_view_sym: "same_view c d \<Longrightarrow> same_view d c"
    and same_view_trans: "same_view c d \<Longrightarrow> same_view d e \<Longrightarrow> same_view c e"
  by (auto simp: same_view_def)

lemma same_view_logger [simp]: "same_view c (c\<lparr>c_logger := lg\<rparr>)"
  by (simp add: same_view_def)

lemma same_view_log [simp]:
  "same_view (conn_log l t c) d \<longleftrightarrow> same_view c d" "same_view c (conn_log l t d) \<longleftrightarrow> same_view c d"
  by (auto simp: same_view_def)

named_theorems view \<comment> \<open>operations take equal views to equal views\<close>

lemma same_view_sel:
  assumes "same_view c d"
  shows "c_state d = c_state c" "c_config d = c_config c" "c_parser d = c_parser c"
    "c_socket d = c_socket c" "pending_output_bytes d = pending_output_bytes c" "closed d = closed c"
    "deadline d = deadline c" "wants_to_read d = wants_to_read c" "poll_events d = poll_events c"
    "c_output_sent d = c_output_sent c" "c_output d = c_output c"
    "c_peer_finished_sending d = c_peer_finished_sending c" "read_size d = read_size c"
  using assms
  by (auto simp: same_view_def pending_output_bytes_def closed_def deadline_def wants_to_read_def
      poll_events_def read_size_def split: ConnState.split)

section \<open>Operations\<close>

lemma close_now_view [view]: "same_view c d \<Longrightarrow> same_view (close_now r c) (close_now r' d)"
  unfolding close_now_def by (auto simp: same_view_def)

lemma read_from_socket_view [view]: "same_view c d \<Longrightarrow> same_view (read_from_socket now c) (read_from_socket now d)"
  using close_now_view [of "c\<lparr>c_socket := s\<rparr>" "d\<lparr>c_socket := s\<rparr>" for s]
  unfolding read_from_socket_def
  by (auto simp: same_view_sel Let_def split: prod.splits sum.splits) (auto simp: same_view_def)

lemma queue_response_view [view]: "same_view c d \<Longrightarrow> same_view (queue_response r c) (queue_response r d)"
  unfolding queue_response_def by (auto simp: same_view_def Let_def)

lemma run_handler_view [view]:
  "same_view c d \<Longrightarrow> fst (run_handler r d) = fst (run_handler r c) \<and>
     same_view (snd (run_handler r c)) (snd (run_handler r d))"
  unfolding run_handler_def by (auto simp: same_view_def split: sum.split)

lemma answer_view [view]:
  "same_view c d \<Longrightarrow> same_view (answer_error e c) (answer_error e d)"
  "same_view c d \<Longrightarrow> same_view (answer_request q c) (answer_request q d)"
  using run_handler_view [of c d q]
  by (simp_all add: answer_error_def answer_request_def Let_def case_prod_beta queue_response_view)

lemma set_parser_view [view]: "same_view c d \<Longrightarrow> same_view (c\<lparr>c_parser := p\<rparr>) (d\<lparr>c_parser := p\<rparr>)"
  by (simp add: same_view_def)

abbreviation same_outcome :: "(bool \<times> Connection) option \<Rightarrow> (bool \<times> Connection) option \<Rightarrow> bool" where
  "same_outcome \<equiv> rel_option (rel_prod (=) same_view)"

lemma respond_loop_view: "same_view c d \<Longrightarrow> same_outcome (respond_loop b c) (respond_loop b d)"
proof (induction b c arbitrary: d rule: respond_loop.induct)
  case (1 b c)
  note unfold = respond_loop.simps [of b c] respond_loop.simps [of b d]
  note sel = same_view_sel [OF "1.prems"]
  show ?case
  proof (cases "c_state c = Active \<and> pending_output_bytes c < output_high_water (c_config c)")
    case False
    then have "respond_loop b c = Some (b, c)" "respond_loop b d = Some (b, d)"
      unfolding unfold by (auto simp: sel)
    with "1.prems" show ?thesis by simp
  next
    case True
    show ?thesis
    proof (cases "parser_next (c_parser c)")
      case None
      with True show ?thesis unfolding unfold by (simp add: sel)
    next
      case (Some out)
      obtain result p where out: "out = (result, p)" by (cases out)
      note set = set_parser_view [OF "1.prems", of p]
      show ?thesis
      proof (cases result)
        case (Complete q)
        have "same_outcome (respond_loop True (answer_request q (c\<lparr>c_parser := p\<rparr>)))
            (respond_loop True (answer_request q (d\<lparr>c_parser := p\<rparr>)))"
          using "1.IH" [OF True Some out [symmetric] Complete answer_view(2) [OF set]] .
        with True Some out Complete show ?thesis unfolding unfold by (simp add: sel)
      qed (use True Some out answer_view(1) [OF set] set in \<open>simp_all add: unfold sel\<close>)
    qed
  qed
qed

lemma note_view [view]:
  "same_view c d \<Longrightarrow> same_view (note_sent now n s c) (note_sent now n s d)"
  "same_view c d \<Longrightarrow> same_view (note_blocked s c) (note_blocked s d)"
  unfolding note_sent_def note_blocked_def
  by (auto simp: Let_def same_view_sel) (auto simp: same_view_def)

lemma set_socket_view [view]: "same_view c d \<Longrightarrow> same_view (c\<lparr>c_socket := s\<rparr>) (d\<lparr>c_socket := s\<rparr>)"
  by (simp add: same_view_def)

lemma flush_loop_view:
  "same_view c d \<Longrightarrow> rel_prod (=) (rel_prod (=) same_view) (flush_loop now b c) (flush_loop now b d)"
proof (induction now b c arbitrary: d rule: flush_loop.induct)
  case (1 now b c)
  note unfold = flush_loop.simps [of now b c] flush_loop.simps [of now b d]
  note sel = same_view_sel [OF "1.prems"]
  obtain out s where out: "send (c_socket c) (drop (c_output_sent c) (c_output c)) = (out, s)" by fastforce
  show ?case
  proof (cases "pending_output_bytes c > 0")
    case False
    with "1.prems" show ?thesis unfolding unfold by (simp add: sel)
  next
    case True
    show ?thesis
    proof (cases out)
      case (Inl e)
      have "rel_prod (=) (rel_prod (=) same_view) (flush_loop now b (c\<lparr>c_socket := s\<rparr>))
          (flush_loop now b (d\<lparr>c_socket := s\<rparr>))" if "e = EINTR"
        using "1.IH"(1) [OF True out [symmetric] Inl that set_socket_view [OF "1.prems"]] .
      moreover note close_now_view [OF set_socket_view [OF "1.prems"]] note_view(2) [OF "1.prems"]
      ultimately show ?thesis
        unfolding unfold using True out Inl by (simp add: sel Let_def)
    next
      case (Inr n)
      have "rel_prod (=) (rel_prod (=) same_view) (flush_loop now True (note_sent now n s c))
          (flush_loop now True (note_sent now n s d))" if "n > 0"
        using "1.IH"(2) [OF True out [symmetric] Inr that note_view(1) [OF "1.prems"]] .
      with note_view(2) [OF "1.prems"] show ?thesis
        unfolding unfold using True out Inr by (simp add: sel)
    qed
  qed
qed

lemma reclaim_view [view]: "same_view c d \<Longrightarrow> same_view (reclaim_output c) (reclaim_output d)"
  unfolding reclaim_output_def by (auto simp: same_view_def)

lemma flush_output_view:
  "same_view c d \<Longrightarrow> rel_prod (=) same_view (flush_output now c) (flush_output now d)"
  using flush_loop_view [of c d now False]
  by (auto simp: flush_output_def rel_prod_conv reclaim_view split: prod.splits bool.splits)

lemma advance_pass_view: "same_view c d \<Longrightarrow> same_outcome (advance_pass now c) (advance_pass now d)"
proof -
  assume view: "same_view c d"
  have "same_outcome (if c_state c = Active then respond_to_buffered_requests c else Some (False, c))
      (if c_state d = Active then respond_to_buffered_requests d else Some (False, d))"
    using view respond_loop_view [OF view, of False]
    by (simp add: same_view_sel [OF view] respond_to_buffered_requests_def)
  then show ?thesis
    unfolding advance_pass_def
    by (cases rule: option.rel_cases)
       (auto simp: rel_prod_conv Let_def split: prod.splits dest!: flush_output_view [of _ _ now])
qed

lemma advance_loop_view: "same_view c d \<Longrightarrow> rel_option same_view (advance_loop now c) (advance_loop now d)"
proof (induction now c arbitrary: d rule: advance_loop.induct)
  case (1 now c)
  note unfold = advance_loop.simps [of now c] advance_loop.simps [of now d]
  note sel = same_view_sel [OF "1.prems"]
  show ?case
  proof (cases "c_state c = Active \<or> c_state c = Closing")
    case False
    then have "advance_loop now c = Some c" "advance_loop now d = Some d"
      unfolding unfold by (auto simp: sel)
    with "1.prems" show ?thesis by simp
  next
    case True
    then have run: "advance_loop now c = (case advance_pass now c of None \<Rightarrow> None
        | Some (progress, e) \<Rightarrow> if progress then advance_loop now e else Some e)"
      "advance_loop now d = (case advance_pass now d of None \<Rightarrow> None
        | Some (progress, e) \<Rightarrow> if progress then advance_loop now e else Some e)"
      unfolding unfold by (auto simp: sel)
    from advance_pass_view [OF "1.prems", of now] show ?thesis
    proof (cases rule: option.rel_cases)
      case None
      then show ?thesis by (simp add: run)
    next
      case (Some x y)
      then obtain progress e f where x: "x = (progress, e)" "y = (progress, f)" "same_view e f"
        by (cases x; cases y) auto
      have "rel_option same_view (advance_loop now e) (advance_loop now f)" if progress
        using "1.IH" [OF True Some(1) x(1) [symmetric] that x(3)] .
      with Some x show ?thesis by (simp add: run)
    qed
  qed
qed

lemma begin_lingering_close_view [view]:
  "same_view c d \<Longrightarrow> same_view (begin_lingering_close now c) (begin_lingering_close now d)"
proof -
  assume view: "same_view c d"
  obtain ok s where s: "shutdown_write (c_socket c) = (ok, s)" by fastforce
  show ?thesis
  proof (cases ok)
    case True
    with s view show ?thesis by (simp add: begin_lingering_close_def same_view_def)
  next
    case False
    with s close_now_view [OF set_socket_view [OF view]] show ?thesis
      by (simp add: begin_lingering_close_def same_view_sel [OF view])
  qed
qed

lemma advance_end_view [view]: "same_view c d \<Longrightarrow> same_view (advance_end now c) (advance_end now d)"
  using close_now_view [of c d] begin_lingering_close_view [of c d now]
  by (simp add: advance_end_def same_view_sel)

lemma advance_view: "same_view c d \<Longrightarrow> rel_option same_view (advance now c) (advance now d)"
  using advance_loop_view [of c d now]
  by (auto simp: advance_def option.rel_map intro: option.rel_mono_strong advance_end_view)

lemma discard_view [view]: "same_view c d \<Longrightarrow> same_view (discard_lingering_input c) (discard_lingering_input d)"
proof -
  assume view: "same_view c d"
  obtain out s where s: "recv_retry (c_socket c) recv_chunk_bytes = (out, s)" by fastforce
  have set: "same_view (c\<lparr>c_socket := s\<rparr>) (d\<lparr>c_socket := s\<rparr>)" by (rule set_socket_view [OF view])
  show ?thesis
  proof (cases out)
    case (Inl e)
    with s close_now_view [OF set] set show ?thesis
      by (simp add: discard_lingering_input_def same_view_sel [OF view])
  next
    case (Inr bytes)
    let ?c = "c\<lparr>c_socket := s, c_lingered_bytes := c_lingered_bytes c + length bytes\<rparr>"
    let ?d = "d\<lparr>c_socket := s, c_lingered_bytes := c_lingered_bytes d + length bytes\<rparr>"
    have more: "same_view ?c ?d" using view by (simp add: same_view_def)
    have "c_lingered_bytes d = c_lingered_bytes c" using view by (simp add: same_view_def)
    with s Inr close_now_view [OF set] close_now_view [OF more] more show ?thesis
      by (simp add: discard_lingering_input_def same_view_sel [OF view] Let_def)
  qed
qed

lemma on_poll_events_view:
  assumes view: "same_view c d"
  shows "rel_option same_view (on_poll_events revents now c) (on_poll_events revents now d)"
proof -
  note sel = same_view_sel [OF view]
  have "same_view (if r then read_from_socket now c else c) (if r then read_from_socket now d else d)" for r
    using view read_from_socket_view by simp
  note advance_view [OF this, of now]
  with view close_now_view [OF view] discard_view [OF view] show ?thesis
    by (simp add: on_poll_events_def sel)
qed

lemma on_deadline_view:
  assumes view: "same_view c d"
  shows "rel_option same_view (on_deadline now c) (on_deadline now d)"
proof -
  note sel = same_view_sel [OF view]
  have stats: "c_stats d = c_stats c" using view by (simp add: same_view_def)
  have "same_view ((queue_response r (conn_log l t c))\<lparr>c_last_activity := now\<rparr>)
      ((queue_response r (conn_log l t d))\<lparr>c_last_activity := now\<rparr>)" for r l t
    using queue_response_view [of "conn_log l t c" "conn_log l t d" r] view by (simp add: same_view_def)
  note advance_view [OF this, of now]
  with view close_now_view [OF view] show ?thesis
    by (cases "c_state c") (simp_all add: on_deadline_def sel stats)
qed

lemma service_view:
  assumes view: "same_view c d"
  shows "rel_option same_view (service revents now c) (service revents now d)"
proof -
  have "rel_option same_view (if revents \<noteq> {} then on_poll_events revents now c else Some c)
      (if revents \<noteq> {} then on_poll_events revents now d else Some d)"
    using view on_poll_events_view by simp
  then show ?thesis
    unfolding service_def
  proof (cases rule: option.rel_cases)
    case (Some x y)
    with on_deadline_view [OF Some(3), of now] show
      "rel_option same_view
         (Option.bind (if revents \<noteq> {} then on_poll_events revents now c else Some c)
            (\<lambda>d. if \<not> closed d \<and> deadline d \<le> now then on_deadline now d else Some d))
         (Option.bind (if revents \<noteq> {} then on_poll_events revents now d else Some d)
            (\<lambda>d. if \<not> closed d \<and> deadline d \<le> now then on_deadline now d else Some d))"
      by (simp add: same_view_sel [OF Some(3)])
  qed simp
qed

section \<open>One iteration\<close>

text \<open>What servicing a connection alone leads to, up to the log.\<close>

definition alone :: "time_point \<Rightarrow> PollFlag set \<Rightarrow> Connection \<Rightarrow> Connection \<Rightarrow> bool" where
  "alone now revents c d \<longleftrightarrow> (\<exists>e. service revents now c = Some e \<and> same_view e d)"

lemma service_alone:
  assumes "service revents now (c\<lparr>c_logger := lg\<rparr>) = Some d"
  shows "alone now revents c d"
proof -
  have "rel_option same_view (service revents now c) (Some d)"
    using service_view [OF same_view_logger, of revents now c lg] assms by simp
  then show ?thesis by (auto simp: alone_def option_rel_Some2)
qed

lemma service_all_alone:
  "service_all now revents lg cs = Some (lg', ds) \<Longrightarrow> length revents = length cs \<Longrightarrow>
     list_all2 (\<lambda>(r, c) d. alone now r c d) (zip revents cs) ds"
proof (induction cs arbitrary: revents lg ds)
  case (Cons c cs)
  then obtain r rs where revents: "revents = r # rs" "length rs = length cs" by (cases revents) auto
  with Cons.prems(1) obtain d es where d: "service r now (c\<lparr>c_logger := lg\<rparr>) = Some d"
    and "service_all now rs (c_logger d) cs = Some (lg', es)" and ds: "ds = d # es"
    by (auto split: Option.bind_splits)
  with Cons.IH revents service_alone [OF d] show ?case by simp
qed simp

section \<open>Property\<close>

text \<open>
  C12. Clients are isolated from each other: after an iteration of the poll loop every connection
  that was there is what it would be, had the server serviced it alone with its own events at the
  same time, except for the shared log; closed ones are removed and the order is kept. Behind them
  come exactly the connections for the clients taken from the backlog in this iteration, in order,
  each untouched, on that client's own socket and with the next free number; none is taken unless the
  listener was ready. No client's bytes, speed or errors change what another one receives.
\<close>

theorem connections_isolated:
  assumes "server_round rd sv = Some (Inr sv')"
    and "rd_poll rd (poll_set (rd_before rd) sv) (poll_timeout_ms (rd_before rd) sv) =
      PollReady (listener # revents)"
    and "length revents = length (sv_connections sv)"
  shows "\<exists>ds taken new. sv_connections sv' = filter (\<lambda>d. \<not> closed d) ds @ new \<and>
     list_all2 (\<lambda>(r, c) d. \<exists>e. service r (rd_after rd) c = Some e \<and> same_view e d)
       (zip revents (sv_connections sv)) ds \<and>
     sv_backlog sv = taken @ sv_backlog sv' \<and> (POLLIN \<notin> listener \<longrightarrow> taken = []) \<and>
     made_for (rd_after rd) (sv_config sv) (sv_handler sv) (sv_next_connection_id sv) (arrivals taken) new"
proof -
  from assms(1,2) obtain lg ds where
    ds: "service_all (rd_after rd) revents (sv_logger sv) (sv_connections sv) = Some (lg, ds)"
    by (auto simp: server_round_def split: Option.bind_splits)
  let ?sv = "sv\<lparr>sv_logger := lg, sv_connections := filter (\<lambda>c. \<not> closed c) ds,
      sv_released := sv_released sv @ map c_socket (filter closed ds)\<rparr>"
  have sv': "sv' = (if POLLIN \<in> listener then accept_new_connections (rd_after rd) ?sv else ?sv)"
    using assms(1,2) ds by (simp add: server_round_def Let_def)
  obtain taken new where
    "sv_connections sv' = filter (\<lambda>c. \<not> closed c) ds @ new" "sv_backlog sv = taken @ sv_backlog sv'"
    "POLLIN \<notin> listener \<longrightarrow> taken = []"
    "made_for (rd_after rd) (sv_config sv) (sv_handler sv) (sv_next_connection_id sv) (arrivals taken) new"
  proof (cases "POLLIN \<in> listener")
    case True
    with that accept_new_connections_accepts [of "rd_after rd" ?sv] show thesis
      by (auto simp: accepts_def sv')
  next
    case False
    with that [of "[]" "[]"] show thesis by (simp add: sv')
  qed
  with service_all_alone [OF ds assms(3)] show ?thesis unfolding alone_def by blast
qed

text \<open>Two clients, each serviced alone: nobody is lost and nobody is added.\<close>

theorem connections_isolated_witness:
  "\<exists>sv sv'. server_loop [ready_round 10 {POLLIN}] sample_server = Some (Inr sv) \<and>
     server_round (ready_round 20 {}) sv = Some (Inr sv') \<and> length (sv_connections sv) = 2 \<and>
     list_all2 (\<lambda>c d. \<exists>e. service {POLLIN} 21 c = Some e \<and> same_view e d)
       (sv_connections sv) (sv_connections sv')"
proof -
  let ?rd = "ready_round 20 {}"
  have "case server_loop [ready_round 10 {POLLIN}] sample_server of
      Some (Inr sv) \<Rightarrow> length (sv_connections sv) = 2 | _ \<Rightarrow> False" by code_simp
  with sample_server_loops obtain sv sv' where
    sv: "server_loop [ready_round 10 {POLLIN}] sample_server = Some (Inr sv)" "length (sv_connections sv) = 2"
      "server_round ?rd sv = Some (Inr sv')" "length (sv_connections sv') = 2"
    by (auto simp: sample_rounds_def split: option.splits sum.splits)
  let ?revents = "map (\<lambda>c. {POLLIN}) (sv_connections sv)"
  have poll: "rd_poll ?rd (poll_set (rd_before ?rd) sv) (poll_timeout_ms (rd_before ?rd) sv) =
      PollReady ({} # ?revents)"
    by (simp add: ready_round_def poll_set_def comp_def)
  from connections_isolated [OF sv(3) poll] obtain ds new where
    ds: "sv_connections sv' = filter (\<lambda>d. \<not> closed d) ds @ new"
      "list_all2 (\<lambda>(r, c) d. \<exists>e. service r (rd_after ?rd) c = Some e \<and> same_view e d)
         (zip ?revents (sv_connections sv)) ds"
    and "made_for (rd_after ?rd) (sv_config sv) (sv_handler sv) (sv_next_connection_id sv) [] new"
    by auto
  then have "new = []" by (cases new) auto
  have "length ds = 2" using list_all2_lengthD [OF ds(2)] sv(2) by simp
  then have "filter (\<lambda>d. \<not> closed d) ds = ds"
    using ds(1) sv(4) \<open>new = []\<close> length_filter_less [of _ ds "\<lambda>d. \<not> closed d"] by (fastforce simp: filter_id_conv)
  with ds \<open>new = []\<close> have "list_all2 (\<lambda>c d. \<exists>e. service {POLLIN} 21 c = Some e \<and> same_view e d)
      (sv_connections sv) (sv_connections sv')"
    by (simp add: zip_map1 list_all2_conv_all_nth ready_round_def)
  with sv show ?thesis by blast
qed

end
