(* ===== verification/Spec2Isabelle.thy ===== *)
theory Spec2Isabelle
  imports Demo Program Isolation
begin

text \<open>
  Verification of the persistent-connection calculator server, an HTTP/1.1 server over plain
  sockets that answers \<^verbatim>\<open>GET /add?a=1&b=2\<close> and keeps the TCP connection open, and of its
  demonstration client.

  \<^bold>\<open>The program.\<close> Bytes arrive on a non-blocking socket. A \<^verbatim>\<open>Connection\<close> feeds them to its
  \<^verbatim>\<open>RequestParser\<close>, which cuts the stream into requests; each request goes to the pure function
  \<^verbatim>\<open>handle_request\<close> of the router, which validates the host, looks up the operation, reads the
  operands from the query string and calls the calculator; the response is serialized, stamped
  with the connection's number and the request's number, queued, and written as the kernel takes
  it. The \<^verbatim>\<open>Server\<close> is one \<^verbatim>\<open>poll()\<close> loop that owns the connections, accepts new ones and expires
  idle ones. \<^verbatim>\<open>main\<close> reads the command line, installs the signal handlers, opens the listening socket
  and runs the server until \<^verbatim>\<open>SIGINT\<close> or \<^verbatim>\<open>SIGTERM\<close> sets the stop flag.
  The demonstration client sends a fixed list of requests over one connection, one by one or
  pipelined, and checks every answer.

  \<^bold>\<open>Theories and sources\<close> (paths under \<^verbatim>\<open>src/\<close>), in the order in which they build on each other:

  \<^item> \<^verbatim>\<open>Prelude\<close>: machine integers as words, decimal numerals, searching and slicing strings, and the
    locale \<^verbatim>\<open>codec\<close> for printing and reading back. \<^verbatim>\<open>Text\<close>: \<^verbatim>\<open>src/text.cpp\<close>.
  \<^item> \<^verbatim>\<open>Calculator\<close>: \<^verbatim>\<open>src/calculator.cpp\<close>, with operands as 64-bit words and the overflow built-ins
    written out. \<^verbatim>\<open>Query\<close>: \<^verbatim>\<open>src/query.cpp\<close>. \<^verbatim>\<open>Config\<close>: the limits, the server configuration and
    the log levels. \<^verbatim>\<open>Request\<close> and \<^verbatim>\<open>Response\<close>: the two values, keep-alive and serialization.
    \<^verbatim>\<open>Router\<close>: \<^verbatim>\<open>src/router.cpp\<close>.
  \<^item> \<^verbatim>\<open>Request_Syntax\<close> and \<^verbatim>\<open>Request_Parser\<close>: \<^verbatim>\<open>src/request_parser.cpp\<close>; the record \<^verbatim>\<open>RequestParser\<close> has
    the fields of the class (buffer, start, scan position, stream offset, state, pending request).
    \<^verbatim>\<open>Framing\<close> states what the parser has to compute, without buffer positions: the \<^verbatim>\<open>Framer\<close>.
    \<^verbatim>\<open>Reassembly\<close> proves the simulation and that the grouping of the input does not matter,
    \<^verbatim>\<open>Request_Wire\<close> the round trip with rendered requests, \<^verbatim>\<open>Parser_Bounds\<close> what holds of every
    reachable parser.
  \<^item> \<^verbatim>\<open>Sockets\<close>: a socket as the script of what the kernel will do (pieces that arrive, errors, how
    much each \<^verbatim>\<open>send()\<close> takes) and the record of what happened (bytes delivered, bytes accepted).
    \<^verbatim>\<open>Connection\<close>: \<^verbatim>\<open>src/connection.cpp\<close>, one function per member function over a record with the
    members of the class and the socket. \<^verbatim>\<open>Conn_Output\<close> defines the output that a connection owes
    for the bytes it received (\<^verbatim>\<open>replies\<close>) and shows that the connection keeps to it;
    \<^verbatim>\<open>Conn_Properties\<close>, \<^verbatim>\<open>Conn_Waiting\<close>, \<^verbatim>\<open>Conn_Delivery\<close> and \<^verbatim>\<open>Conn_Bounds\<close> hold the properties;
    \<^verbatim>\<open>Session\<close> puts parser, connection and router together for whole sessions. \<^verbatim>\<open>Service\<close> states what
    a connection does for its client without buffers, sockets or events (the step relation
    \<^verbatim>\<open>serves\<close>) and proves by a forward simulation that \<^verbatim>\<open>Connection\<close> implements it.
  \<^item> \<^verbatim>\<open>Server\<close>: \<^verbatim>\<open>src/server.cpp\<close>; an iteration of the loop is a function of what \<^verbatim>\<open>poll()\<close> and
    \<^verbatim>\<open>accept()\<close> give, which is an argument. \<^verbatim>\<open>Server_Properties\<close> and \<^verbatim>\<open>Server_Run\<close>: what holds in every
    reachable state and at the end of a run. \<^verbatim>\<open>Isolation\<close>: connections do not influence each other.
  \<^item> \<^verbatim>\<open>Descriptors\<close>: \<^verbatim>\<open>file_descriptor.hpp\<close> and \<^verbatim>\<open>src/socket_utils.cpp\<close>, with the kernel's table of open
    descriptors. \<^verbatim>\<open>Signals\<close> and \<^verbatim>\<open>Program\<close>: \<^verbatim>\<open>src/main.cpp\<close>; the signals that arrive before
    each test of the stop flag are an argument, and a run has exited, is still running, or was killed
    by a signal that keeps its default action.
  \<^item> \<^verbatim>\<open>Client\<close>, \<^verbatim>\<open>Client_Reader\<close> and \<^verbatim>\<open>Demo\<close>: \<^verbatim>\<open>tools/demo_client.cpp\<close>, its response reader, and the
    client against the server.

  \<^bold>\<open>What is shown.\<close>

  \<^item> Values: the calculator is exact or reports the documented error; integers are read exactly;
    queries, requests and responses round-trip; the router's status is decided by the first
    failing check; no client-supplied byte breaks a response line.
  \<^item> Parser: it refines the framer; any grouping of the input gives the same requests; byte
    ranges are exact; errors are final, with a known status and a short message; an incomplete
    request never fills the buffer.
  \<^item> Connection: over any socket behaviour and any events, every handler returns and the bytes
    written are a prefix of the owed output, complete when the final response has been sent; input
    and output buffers are bounded; the lifecycle only moves forward; an open connection always
    waits for something; while the kernel takes bytes, answers leave at once. All its runs are
    runs of the abstract service.
  \<^item> Server: the connection limit, distinct numbers, closed sockets exactly for released
    connections; no overdue connection after an iteration; the timeout is exact; clients are
    taken in order and isolated from each other; every client held is served as the abstract
    service prescribes; a stop closes every socket.
  \<^item> Program and client: \<^verbatim>\<open>SIGINT\<close> and \<^verbatim>\<open>SIGTERM\<close> end the server in its shutdown, \<^verbatim>\<open>SIGPIPE\<close> changes
    nothing; exit statuses and messages for every command line, bounds of the configuration, ownership of descriptors, the
    first usable address, and the demonstration end to end, to its printed result.

  \<^bold>\<open>Interfaces.\<close> Each locale states what one part asks of another and is interpreted on the
  definitions of the model: \<^verbatim>\<open>codec\<close> (decimal integers), \<^verbatim>\<open>request_stream\<close> (what any source of requests
  promises; the framer) and \<^verbatim>\<open>stream_refinement\<close> (the parser over the framer), \<^verbatim>\<open>event_driven\<close> (the
  connection under events) and \<^verbatim>\<open>simulates\<close> (its events matched by runs of the abstract service),
  \<^verbatim>\<open>session_handler\<close> and \<^verbatim>\<open>short_handler\<close> (what a connection asks of the
  request handler; the router), and \<^verbatim>\<open>address_search\<close> (trying addresses in turn; the listening and the
  connecting socket).

  \<^bold>\<open>Termination.\<close> No fuel is used. Loops over sockets end because each call consumes an event of the
  script, at whose end the kernel blocks; the parser's loop ends because a request consumes bytes;
  \<^verbatim>\<open>advance\<close> ends by the sum of both. Functions whose result is an option give \<^verbatim>\<open>None\<close> only for a
  call that does not return or would be undefined; that this does not happen in any reachable
  state is part of the properties. Sizes are natural numbers where the code's \<^verbatim>\<open>size_t\<close> cannot
  wrap (the limits are constants the command line cannot change), words where it could; counters of
  bytes and requests are 64-bit words. Time points are unbounded integers in nanoseconds, where the
  steady clock has 64 bits; timeouts are at most a day, so a sum wraps only at the clock's own end.

  \<^bold>\<open>Not modelled.\<close> Reading the clock (a time point is an argument of the handlers; the lines of the
  log are kept without their time stamps, which \<^verbatim>\<open>timestamp\<close> and \<^verbatim>\<open>log_text\<close> add); name resolution, \<^verbatim>\<open>poll()\<close>,
  \<^verbatim>\<open>accept()\<close>, \<^verbatim>\<open>recv()\<close> and \<^verbatim>\<open>send()\<close> themselves (their results are arguments); socket options
  whose result the code ignores; the moment within an iteration at which a signal arrives (a
  handled one only has an effect on the next test of the flag and on \<^verbatim>\<open>poll()\<close>, which may return
  \<^verbatim>\<open>EINTR\<close>; one that kills the process is taken to do so at that test) and signals during the
  start or the shutdown; what the
  client has printed before an exception; the tests. No property speaks about real time or about the
  scheduling of processes.
\<close>

end
